(* ===== verification/Prelude.thy ===== *)
theory Prelude
  imports Main "HOL-Library.Word" "HOL-Library.Monad_Syntax" "HOL-Library.Code_Target_Nat"
begin

text \<open>
  What every component of the server uses: the fixed-width integers of the C++ code, the
  signed \<open>int\<close> arithmetic whose overflow is undefined behaviour, \<open>std::clamp\<close>,
  \<open>std::to_string\<close>, and labelled runs of a step relation with the two locales
  (invariant, preorder) under which facts about single steps are lifted to runs.
\<close>

named_theorems model_simps \<open>definitions that unfold when an operation is evaluated\<close>

type_synonym u8 = "8 word"
type_synonym u32 = "32 word"
type_synonym u64 = "64 word"
type_synonym bytes = "u8 list"

section \<open>The type int of the C++ code\<close>

text \<open>
  A value of type \<open>int\<close> is an \<^typ>\<open>int\<close> within 32 bits. An operation whose exact result
  leaves that range is undefined behaviour: it yields \<open>None\<close>, and so does every
  operation that executes it. A conversion from a wider integer keeps the low 32 bits.
\<close>

definition in_i32 :: "int \<Rightarrow> bool" where
  "in_i32 i \<longleftrightarrow> - (2 ^ 31) \<le> i \<and> i < 2 ^ 31"

definition add_i32 :: "int \<Rightarrow> int \<Rightarrow> int option" where
  "add_i32 a b = (if in_i32 (a + b) then Some (a + b) else None)"

definition to_i32 :: "int \<Rightarrow> int" where
  "to_i32 i = (i + 2 ^ 31) mod 2 ^ 32 - 2 ^ 31"

lemma in_i32_to_i32 [simp, intro]: "in_i32 (to_i32 i)"
  by (simp add: in_i32_def to_i32_def)

lemma to_i32_id [simp]: "in_i32 i \<Longrightarrow> to_i32 i = i"
  by (simp add: in_i32_def to_i32_def)

lemma add_i32_eq_Some [simp]: "add_i32 a b = Some c \<longleftrightarrow> in_i32 (a + b) \<and> c = a + b"
  by (auto simp: add_i32_def)

lemma add_i32_eq_None [simp]: "add_i32 a b = None \<longleftrightarrow> \<not> in_i32 (a + b)"
  by (simp add: add_i32_def)

text \<open>\<open>std::clamp\<close>.\<close>

definition clamp :: "int \<Rightarrow> int \<Rightarrow> int \<Rightarrow> int" where
  "clamp v lo hi = (if v < lo then lo else if hi < v then hi else v)"

lemma clamp_bounds: "lo \<le> hi \<Longrightarrow> lo \<le> clamp v lo hi \<and> clamp v lo hi \<le> hi"
  by (simp add: clamp_def)

lemma clamp_id [simp]: "lo \<le> v \<Longrightarrow> v \<le> hi \<Longrightarrow> clamp v lo hi = v"
  by (simp add: clamp_def)

lemma clamp_idem [simp]: "lo \<le> hi \<Longrightarrow> clamp (clamp v lo hi) lo hi = clamp v lo hi"
  by (simp add: clamp_def)

section \<open>Decimal text\<close>

definition digit_char :: "nat \<Rightarrow> char" where
  "digit_char d = char_of (48 + d)"

definition digit_val :: "char \<Rightarrow> nat" where
  "digit_val c = of_char c - 48"

definition is_digit :: "char \<Rightarrow> bool" where
  "is_digit c \<longleftrightarrow> 48 \<le> (of_char c :: nat) \<and> (of_char c :: nat) \<le> 57"

fun nat_str :: "nat \<Rightarrow> string" where
  "nat_str n = (if n < 10 then [digit_char n] else nat_str (n div 10) @ [digit_char (n mod 10)])"

declare nat_str.simps [simp del]

text \<open>\<open>std::to_string\<close> on signed integers.\<close>

definition int_str :: "int \<Rightarrow> string" where
  "int_str i = (if i < 0 then ''-'' @ nat_str (nat (- i)) else nat_str (nat i))"

definition digits_val :: "string \<Rightarrow> nat" where
  "digits_val s = foldl (\<lambda>a c. 10 * a + digit_val c) 0 s"

lemma digit_val_char [simp]: "d < 10 \<Longrightarrow> digit_val (digit_char d) = d"
  by (simp add: digit_val_def digit_char_def)

lemma is_digit_char [simp]: "d < 10 \<Longrightarrow> is_digit (digit_char d)"
  by (simp add: is_digit_def digit_char_def)

lemma digit_char_zero: "d < 10 \<Longrightarrow> digit_char d = CHR ''0'' \<longleftrightarrow> d = 0"
proof -
  assume "d < 10"
  then have "digit_val (digit_char d) = d" by simp
  moreover have "digit_val (CHR ''0'') = 0" by (simp add: digit_val_def)
  ultimately show ?thesis by (auto simp: digit_char_def char_of_def bit_0)
qed

lemma nat_str_digits: "\<forall>c \<in> set (nat_str n). is_digit c"
proof (induction n rule: nat_str.induct)
  case (1 n)
  then show ?case by (subst nat_str.simps) simp
qed

lemma nat_str_nonempty [simp]: "nat_str n \<noteq> []"
  by (subst nat_str.simps) simp

lemma digits_val_nat_str [simp]: "digits_val (nat_str n) = n"
proof (induction n rule: nat_str.induct)
  case (1 n)
  then show ?case by (subst nat_str.simps) (simp add: digits_val_def)
qed

lemma digits_not: "\<not> is_digit c \<Longrightarrow> c \<notin> set (nat_str n)"
  using nat_str_digits [of n] by auto

lemma takeWhile_digits_nat_str [simp]: "takeWhile is_digit (nat_str n) = nat_str n"
  using nat_str_digits [of n] by simp

lemma length_nat_str: "n < 10 ^ k \<Longrightarrow> 0 < k \<Longrightarrow> length (nat_str n) \<le> k"
proof (induction n arbitrary: k rule: nat_str.induct)
  case (1 n)
  show ?case
  proof (cases "n < 10")
    case False
    then obtain i where i: "k = Suc (Suc i)" using 1(2,3) by (cases k; cases "k - 1") auto
    then have "n div 10 < 10 ^ Suc i" using 1(2) by (simp add: div_less_iff_less_mult)
    then have "length (nat_str (n div 10)) \<le> Suc i" using 1(1) False by blast
    then show ?thesis using False i by (subst nat_str.simps) simp
  qed (use 1(3) in \<open>simp add: nat_str.simps\<close>)
qed

lemma nat_str_inj [simp]: "nat_str m = nat_str n \<longleftrightarrow> m = n"
  by (metis digits_val_nat_str)

lemma nat_str_not_minus [simp]: "nat_str n \<noteq> CHR ''-'' # s"
proof
  assume "nat_str n = CHR ''-'' # s"
  then have "is_digit (CHR ''-'')" using nat_str_digits [of n] by simp
  then show False by (simp add: is_digit_def)
qed

lemma int_str_inj [simp]: "int_str i = int_str j \<longleftrightarrow> i = j"
  using nat_str_not_minus nat_str_not_minus [symmetric] by (auto simp: int_str_def split: if_splits)

text \<open>\<open>std::setw\<close> with \<open>std::setfill('0')\<close>.\<close>

definition zero_pad :: "nat \<Rightarrow> string \<Rightarrow> string" where
  "zero_pad p s = replicate (p - length s) (CHR ''0'') @ s"

text \<open>The two characters of a line end.\<close>

definition CR :: char where "CR = CHR 0x0D"
definition LF :: char where "LF = CHR 0x0A"

lemma CR_LF_chars [simp]: "\<not> is_digit CR" "\<not> is_digit LF" "CR \<noteq> LF" "LF \<noteq> CR"
  by (simp_all add: CR_def LF_def is_digit_def)

lemma LF_eq_Char [simp]: "LF = Char a b c d e f g h \<longleftrightarrow> \<not> a \<and> b \<and> \<not> c \<and> d \<and> \<not> e \<and> \<not> f \<and> \<not> g \<and> \<not> h"
  by (auto simp: LF_def)

lemma Char_eq_LF [simp]: "Char a b c d e f g h = LF \<longleftrightarrow> \<not> a \<and> b \<and> \<not> c \<and> d \<and> \<not> e \<and> \<not> f \<and> \<not> g \<and> \<not> h"
  by (auto simp: LF_def)

text \<open>The lines of a text, as \<open>std::getline\<close> delivers them.\<close>

fun text_lines :: "string \<Rightarrow> string list" where
  "text_lines [] = []"
| "text_lines (c # s) = (if c = LF then [] # text_lines s
     else case text_lines s of [] \<Rightarrow> [[c]] | l # ls \<Rightarrow> (c # l) # ls)"

lemma text_lines_append: "LF \<notin> set l \<Longrightarrow> text_lines (l @ LF # s) = l # text_lines s"
  by (induction l) auto

lemma text_lines_Nil_iff [simp]: "text_lines s = [] \<longleftrightarrow> s = []"
  by (cases s) (auto split: list.splits)

lemma text_lines_join: "s = [] \<or> last s = LF \<Longrightarrow> text_lines (s @ u) = text_lines s @ text_lines u"
proof (induction s rule: text_lines.induct)
  case (2 c s)
  then show ?case by (cases "s = []") (auto split: list.splits)
qed simp

section \<open>Runs of a labelled step relation\<close>

inductive runs :: "('s \<Rightarrow> 'a \<Rightarrow> 's \<Rightarrow> bool) \<Rightarrow> 's \<Rightarrow> 'a list \<Rightarrow> 's \<Rightarrow> bool" for step where
  runs_nil [intro]: "runs step s [] s"
| runs_cons [intro]: "step s a t \<Longrightarrow> runs step t as u \<Longrightarrow> runs step s (a # as) u"

inductive_simps runs_Nil_iff [simp]: "runs step s [] t"
inductive_simps runs_Cons_iff: "runs step s (a # as) t"

lemma runs_append: "runs step s as t \<Longrightarrow> runs step t bs u \<Longrightarrow> runs step s (as @ bs) u"
  by (induction rule: runs.induct) auto

lemma runs_snoc: "runs step s as t \<Longrightarrow> step t a u \<Longrightarrow> runs step s (as @ [a]) u"
  by (rule runs_append) auto

locale invariant_of =
  fixes step :: "'s \<Rightarrow> 'a \<Rightarrow> 's \<Rightarrow> bool" and inv :: "'s \<Rightarrow> bool"
  assumes inv_step: "inv s \<Longrightarrow> step s a t \<Longrightarrow> inv t"
begin

lemma inv_runs: "runs step s as t \<Longrightarrow> inv s \<Longrightarrow> inv t"
  by (induction rule: runs.induct) (auto intro: inv_step)

end

locale advances =
  fixes step :: "'s \<Rightarrow> 'a \<Rightarrow> 's \<Rightarrow> bool" and le :: "'s \<Rightarrow> 's \<Rightarrow> bool"
  assumes le_refl: "le s s"
    and le_trans: "le s t \<Longrightarrow> le t u \<Longrightarrow> le s u"
    and le_step: "step s a t \<Longrightarrow> le s t"
begin

lemma le_runs: "runs step s as t \<Longrightarrow> le s t"
  by (induction rule: runs.induct) (auto intro: le_refl le_trans le_step)

end

end
