(* ===== verification/HashMap.thy ===== *)
theory HashMap
  imports Prelude "HOL-Library.AList"
begin

text \<open>
  \<open>std::unordered_map\<close> as the code uses it: \<open>find\<close>/\<open>count\<close>, \<open>emplace\<close> (which keeps an
  existing entry), assignment through an iterator, and \<open>erase\<close>. The container is an
  association list without duplicate keys; a new entry goes to the end. The standard
  leaves the iteration order open, so nothing stated about the program depends on the
  order of the list.
\<close>

type_synonym ('k, 'v) hmap = "('k \<times> 'v) list"

definition hm_count :: "('k, 'v) hmap \<Rightarrow> 'k \<Rightarrow> bool" where
  "hm_count m k \<longleftrightarrow> map_of m k \<noteq> None"

definition hm_emplace :: "'k \<Rightarrow> 'v \<Rightarrow> ('k, 'v) hmap \<Rightarrow> ('k, 'v) hmap" where
  "hm_emplace k v m = (if hm_count m k then m else m @ [(k, v)])"

definition hm_assign :: "'k \<Rightarrow> 'v \<Rightarrow> ('k, 'v) hmap \<Rightarrow> ('k, 'v) hmap" where
  "hm_assign k v m = AList.update k v m"

definition hm_erase :: "'k \<Rightarrow> ('k, 'v) hmap \<Rightarrow> ('k, 'v) hmap" where
  "hm_erase k m = AList.delete k m"

definition hm_wf :: "('k, 'v) hmap \<Rightarrow> bool" where
  "hm_wf m \<longleftrightarrow> distinct (map fst m)"

text \<open>The interface the components rely on, and what follows from it.\<close>

locale unordered_map =
  fixes find :: "'m \<Rightarrow> 'k \<Rightarrow> 'v option"
    and emplace :: "'k \<Rightarrow> 'v \<Rightarrow> 'm \<Rightarrow> 'm"
    and assign :: "'k \<Rightarrow> 'v \<Rightarrow> 'm \<Rightarrow> 'm"
    and erase :: "'k \<Rightarrow> 'm \<Rightarrow> 'm"
    and count :: "'m \<Rightarrow> nat"
    and wf :: "'m \<Rightarrow> bool"
  assumes find_emplace: "find (emplace k v m) =
        (if find m k = None then (find m)(k := Some v) else find m)"
    and find_assign: "find (assign k v m) = (find m)(k := Some v)"
    and find_erase: "find (erase k m) = (find m)(k := None)"
    and wf_emplace: "wf m \<Longrightarrow> wf (emplace k v m)"
    and wf_assign: "wf m \<Longrightarrow> wf (assign k v m)"
    and wf_erase: "wf m \<Longrightarrow> wf (erase k m)"
    and finite_find: "finite (dom (find m))"
    and count_card: "wf m \<Longrightarrow> count m = card (dom (find m))"
begin

lemmas find_ops = find_emplace find_assign find_erase
lemmas wf_ops = wf_emplace wf_assign wf_erase

lemma count_emplace_new: "wf m \<Longrightarrow> find m k = None \<Longrightarrow> count (emplace k v m) = Suc (count m)"
  by (simp add: count_card wf_emplace find_emplace finite_find domIff)

lemma count_assign_old: "wf m \<Longrightarrow> find m k \<noteq> None \<Longrightarrow> count (assign k v m) = count m"
  by (simp add: count_card wf_assign find_assign insert_absorb domIff)

lemma count_erase_old:
  assumes "wf m" and "find m k \<noteq> None"
  shows "Suc (count (erase k m)) = count m"
proof -
  have "Suc (card (dom (find m) - {k})) = card (dom (find m))"
    using assms(2) finite_find by (intro card_Suc_Diff1) auto
  then show ?thesis using assms(1) by (simp only: count_card wf_erase find_erase dom_fun_upd) simp
qed

lemma count_zero_iff: "wf m \<Longrightarrow> count m = 0 \<longleftrightarrow> find m = Map.empty"
  by (simp add: count_card finite_find)

end

lemma map_of_hm_emplace: "map_of (hm_emplace k v m) =
    (if map_of m k = None then (map_of m)(k := Some v) else map_of m)"
  by (auto simp: hm_emplace_def hm_count_def map_add_def fun_eq_iff split: option.splits)

lemma hm_wf_emplace: "hm_wf m \<Longrightarrow> hm_wf (hm_emplace k v m)"
  by (auto simp: hm_wf_def hm_emplace_def hm_count_def map_of_eq_None_iff)

interpretation hm: unordered_map map_of hm_emplace hm_assign hm_erase length hm_wf
proof unfold_locales
  fix m :: "('k \<times> 'v) list"
  show "finite (dom (map_of m))" by (rule finite_dom_map_of)
  show "hm_wf m \<Longrightarrow> length m = card (dom (map_of m))"
    using distinct_card [of "map fst m"] by (simp add: hm_wf_def dom_map_of_conv_image_fst)
  show "hm_wf m \<Longrightarrow> hm_wf (hm_emplace k v m)" for k v by (rule hm_wf_emplace)
qed (auto simp: map_of_hm_emplace hm_assign_def hm_erase_def hm_wf_def
      update_conv' delete_conv' distinct_update distinct_delete)

lemmas hm_find = map_of_hm_emplace hm.find_assign hm.find_erase

lemma hm_wf_Nil [simp, intro]: "hm_wf []"
  by (simp add: hm_wf_def)

lemma set_hm_emplaceD: "x \<in> set (hm_emplace k v m) \<Longrightarrow> x = (k, v) \<or> x \<in> set m"
  by (auto simp: hm_emplace_def split: if_splits)

lemma set_hm_eraseD: "x \<in> set (hm_erase k m) \<Longrightarrow> x \<in> set m"
  by (auto simp: hm_erase_def AList.delete_eq)

lemma map_of_in: "hm_wf m \<Longrightarrow> (k, v) \<in> set m \<longleftrightarrow> map_of m k = Some v"
  by (simp add: hm_wf_def)

lemma hm_erase_not_Nil: "map_of m a \<noteq> None \<Longrightarrow> a \<noteq> b \<Longrightarrow> hm_erase b m \<noteq> []"
  by (metis fun_upd_other hm.find_erase map_of.simps(1))

end
