(* ===== verification/Double.thy ===== *)
theory Double
  imports Complex_Main
begin

text \<open>
  Values of type \<open>double\<close>. A finite double is a rational number, and every arithmetic
  operation of IEEE 754 binary64 is the exact operation followed by \<open>fl\<close>, rounding to the
  nearest multiple of a unit in the last place (53 significant bits, at least \<open>2 ^ -1074\<close>),
  ties to even. Negative zero is identified with zero. Infinities and NaNs do not occur: the program only divides by positive
  counts and constants, and its values stay far below \<open>2 ^ 1023\<close>.
\<close>

type_synonym double = rat

definition pow2 :: "int \<Rightarrow> rat" where
  "pow2 e = 2 powi e"

definition round_even :: "rat \<Rightarrow> int" where
  "round_even q = (let n = \<lfloor>q\<rfloor>; r = q - of_int n in
     if r < 1 / 2 then n else if 1 / 2 < r then n + 1 else if even n then n else n + 1)"

function blen :: "int \<Rightarrow> int" where
  "blen n = (if n \<le> 0 then 0 else 1 + blen (n div 2))"
  by pat_completeness auto
termination
  by (relation "measure nat") auto

declare blen.simps [simp del]

definition ilog2 :: "rat \<Rightarrow> int" where
  "ilog2 x = (let (a, b) = quotient_of x; k = blen a - blen b
              in if pow2 k \<le> x then k else k - 1)"

definition ulp_exp :: "rat \<Rightarrow> int" where
  "ulp_exp x = max (ilog2 x - 52) (- 1074)"

definition fl_pos :: "rat \<Rightarrow> double" where
  "fl_pos x = of_int (round_even (x / pow2 (ulp_exp x))) * pow2 (ulp_exp x)"

definition fl :: "rat \<Rightarrow> double" where
  "fl x = (if x = 0 then 0 else if x < 0 then - fl_pos (- x) else fl_pos x)"

definition fadd :: "double \<Rightarrow> double \<Rightarrow> double" where "fadd a b = fl (a + b)"
definition fmul :: "double \<Rightarrow> double \<Rightarrow> double" where "fmul a b = fl (a * b)"
definition fdiv :: "double \<Rightarrow> double \<Rightarrow> double" where "fdiv a b = fl (a / b)"

section \<open>Rounding is monotone and keeps integers below \<open>2 ^ 53\<close>\<close>

lemma pow2_pos [simp]: "0 < pow2 e" and pow2_nonzero [simp]: "pow2 e \<noteq> 0"
  and pow2_nonneg [simp]: "0 \<le> pow2 e"
  by (simp_all add: pow2_def)

lemma pow2_add: "pow2 (a + b) = pow2 a * pow2 b"
  by (simp add: pow2_def power_int_add)

lemma pow2_diff: "pow2 (a - b) = pow2 a / pow2 b"
  by (simp add: pow2_def power_int_diff)

lemma pow2_nat: "pow2 (int n) = 2 ^ n"
  by (simp add: pow2_def)

lemma pow2_le: "a \<le> b \<Longrightarrow> pow2 a \<le> pow2 b"
  by (simp add: pow2_def power_int_increasing)

lemma pow2_less_iff [simp]: "pow2 a < pow2 b \<longleftrightarrow> a < b"
  by (metis (mono_tags) pow2_def pow2_le leD not_le_imp_less one_less_numeral_iff
      power_int_strict_increasing semiring_norm(76))

lemma round_even_of_int [simp]: "round_even (of_int n) = n"
  by (simp add: round_even_def)

lemma round_even_floor: "round_even q = \<lfloor>q\<rfloor> \<or> round_even q = \<lfloor>q\<rfloor> + 1"
  by (simp add: round_even_def Let_def)

lemma round_even_mono:
  assumes "p \<le> q" shows "round_even p \<le> round_even q"
proof (cases "\<lfloor>p\<rfloor> = \<lfloor>q\<rfloor>")
  case True
  with assms show ?thesis by (auto simp: round_even_def Let_def)
next
  case False
  then have "\<lfloor>p\<rfloor> + 1 \<le> \<lfloor>q\<rfloor>" using floor_mono [OF assms] by linarith
  then show ?thesis using round_even_floor [of p] round_even_floor [of q] by linarith
qed

lemma blen_bounds: "0 < n \<Longrightarrow> 0 < blen n \<and> 2 ^ nat (blen n - 1) \<le> n \<and> n < 2 ^ nat (blen n)"
proof (induction n rule: blen.induct)
  case (1 n)
  show ?case
  proof (cases "n = 1")
    case True
    then show ?thesis by (simp add: blen.simps)
  next
    case False
    with 1 have IH: "0 < blen (n div 2)" "2 ^ nat (blen (n div 2) - 1) \<le> n div 2"
        "n div 2 < 2 ^ nat (blen (n div 2))" and eq: "blen n = 1 + blen (n div 2)"
      by (simp_all add: blen.simps [of n])
    define k where "k = nat (blen (n div 2) - 1)"
    have "nat (blen (n div 2)) = Suc k" "nat (blen n - 1) = Suc k" "nat (blen n) = Suc (Suc k)"
      using IH(1) by (simp_all add: k_def eq)
    with IH show ?thesis by (auto simp: eq simp flip: k_def)
  qed
qed

lemma blen_pow2:
  assumes "0 < n"
  shows "pow2 (blen n - 1) \<le> of_int n" and "of_int n < pow2 (blen n)"
proof -
  obtain k where k: "blen n = 1 + int k"
    using blen_bounds [OF assms] by (metis add.commute zle_iff_zadd int_one_le_iff_zero_less)
  have "2 ^ k \<le> n \<and> n < 2 ^ Suc k" using blen_bounds [OF assms] by (simp add: k nat_add_distrib)
  then have "(2::rat) ^ k \<le> of_int n" "of_int n < (2::rat) ^ Suc k"
    by (metis of_int_le_iff of_int_numeral of_int_power)
       (metis \<open>2 ^ k \<le> n \<and> n < 2 ^ Suc k\<close> of_int_less_iff of_int_numeral of_int_power)
  then show "pow2 (blen n - 1) \<le> of_int n" "of_int n < pow2 (blen n)"
    using pow2_nat [of k] pow2_nat [of "Suc k"] by (simp_all add: k)
qed

lemma ilog2_bounds:
  assumes "0 < x"
  shows "pow2 (ilog2 x) \<le> x" and "x < pow2 (ilog2 x + 1)"
proof -
  obtain a b where ab: "quotient_of x = (a, b)" by fastforce
  then have b: "0 < b" and x: "x = of_int a / of_int b"
    by (simp_all add: quotient_of_denom_pos quotient_of_div)
  with assms have a: "0 < a" by (simp add: zero_less_divide_iff)
  define la lb where "la = blen a" and "lb = blen b"
  have A: "pow2 (la - 1) \<le> of_int a" "of_int a < pow2 la"
    using blen_pow2 [of a] a by (simp_all add: la_def)
  have B: "pow2 (lb - 1) \<le> of_int b" "of_int b < pow2 lb"
    using blen_pow2 [of b] b by (simp_all add: lb_def)
  have "pow2 (la - 1) / pow2 lb \<le> x" unfolding x
    by (rule frac_le) (use A B a b in auto)
  then have lo: "pow2 (la - lb - 1) \<le> x"
    using pow2_add [of lb 1] by (simp add: pow2_diff [of la] pow2_diff [of "la - lb"] field_simps)
  have "x < pow2 la / pow2 (lb - 1)" unfolding x
    by (rule frac_less) (use A B a b in auto)
  then have hi: "x < pow2 (la - lb + 1)"
    by (simp add: pow2_diff pow2_add field_simps)
  have k: "ilog2 x = (if pow2 (la - lb) \<le> x then la - lb else la - lb - 1)"
    by (simp add: ilog2_def ab la_def lb_def)
  show "pow2 (ilog2 x) \<le> x" "x < pow2 (ilog2 x + 1)"
    using lo hi by (simp_all add: k)
qed

lemma ilog2_mono:
  assumes "0 < x" and "x \<le> y" shows "ilog2 x \<le> ilog2 y"
proof -
  have "pow2 (ilog2 x) < pow2 (ilog2 y + 1)"
    using ilog2_bounds(1) [OF assms(1)] ilog2_bounds(2) [of y] assms by linarith
  then show ?thesis by simp
qed

lemma ulp_exp_mono: "0 < x \<Longrightarrow> x \<le> y \<Longrightarrow> ulp_exp x \<le> ulp_exp y"
  using ilog2_mono [of x y] by (simp add: ulp_exp_def max_def)

lemma fl_pos_upper:
  assumes "0 < x" shows "fl_pos x \<le> pow2 (ulp_exp x + 53)"
proof -
  let ?e = "ulp_exp x"
  have "x < pow2 (ilog2 x + 1)" using ilog2_bounds assms by blast
  also have "\<dots> \<le> pow2 (?e + 53)" by (rule pow2_le) (simp add: ulp_exp_def)
  finally have "x / pow2 ?e \<le> of_int (2 ^ 53)"
    using pow2_nat [of 53] by (simp add: pow2_add field_simps)
  then have "round_even (x / pow2 ?e) \<le> 2 ^ 53"
    using round_even_mono round_even_of_int by metis
  then have "of_int (round_even (x / pow2 ?e)) \<le> (2 ^ 53 :: rat)"
    by (metis of_int_le_iff of_int_numeral of_int_power)
  then show ?thesis using pow2_nat [of 53] by (simp add: fl_pos_def pow2_add mult.commute)
qed

lemma fl_pos_lower:
  assumes "0 < x" and "- 1074 < ulp_exp x" shows "pow2 (ulp_exp x + 52) \<le> fl_pos x"
proof -
  let ?e = "ulp_exp x"
  have "?e + 52 = ilog2 x" using assms(2) by (simp add: ulp_exp_def max_def split: if_splits)
  then have "pow2 (?e + 52) \<le> x" using ilog2_bounds(1) [OF assms(1)] by simp
  then have "of_int (2 ^ 52) \<le> x / pow2 ?e"
    using pow2_nat [of 52] by (simp add: pow2_add field_simps)
  then have "2 ^ 52 \<le> round_even (x / pow2 ?e)"
    using round_even_mono round_even_of_int by metis
  then have "(2 ^ 52 :: rat) \<le> of_int (round_even (x / pow2 ?e))"
    by (metis of_int_le_iff of_int_numeral of_int_power)
  then show ?thesis using pow2_nat [of 52] by (simp add: fl_pos_def pow2_add mult.commute)
qed

lemma fl_pos_mono:
  assumes "0 < x" and "x \<le> y" shows "fl_pos x \<le> fl_pos y"
proof (cases "ulp_exp x = ulp_exp y")
  case True
  have "round_even (x / pow2 (ulp_exp y)) \<le> round_even (y / pow2 (ulp_exp y))"
    by (rule round_even_mono) (simp add: assms(2) divide_right_mono)
  then show ?thesis by (simp add: fl_pos_def True mult_right_mono)
next
  case False
  then have lt: "ulp_exp x + 1 \<le> ulp_exp y" using ulp_exp_mono [OF assms] by simp
  have "fl_pos x \<le> pow2 (ulp_exp x + 53)" by (rule fl_pos_upper [OF assms(1)])
  also have "\<dots> \<le> pow2 (ulp_exp y + 52)" using lt by (intro pow2_le) simp
  also have "\<dots> \<le> fl_pos y"
  proof (rule fl_pos_lower)
    show "0 < y" using assms by simp
    show "- 1074 < ulp_exp y" using lt by (simp add: ulp_exp_def)
  qed
  finally show ?thesis .
qed

lemma fl_pos_nonneg: "0 < x \<Longrightarrow> 0 \<le> fl_pos x"
  using round_even_mono [of 0 "x / pow2 (ulp_exp x)"] round_even_of_int [of 0]
  by (simp add: fl_pos_def)

lemma fl_mono:
  assumes "x \<le> y" shows "fl x \<le> fl y"
proof -
  consider "0 < x" | "y < 0" | "x \<le> 0" "0 \<le> y" using assms by linarith
  then show ?thesis
  proof cases
    case 1 then show ?thesis using assms fl_pos_mono by (simp add: fl_def)
  next
    case 2 then show ?thesis using assms fl_pos_mono [of "- y" "- x"] by (simp add: fl_def)
  next
    case 3 then show ?thesis using fl_pos_nonneg [of y] fl_pos_nonneg [of "- x"]
      by (auto simp: fl_def)
  qed
qed

lemma fl_0 [simp]: "fl 0 = 0"
  by (simp add: fl_def)

lemma fl_nonneg: "0 \<le> x \<Longrightarrow> 0 \<le> fl x"
  using fl_mono [of 0 x] by simp

lemma fl_of_nat:
  assumes "n < 2 ^ 53" shows "fl (of_nat n) = of_nat n"
proof (cases "n = 0")
  case False
  let ?x = "of_nat n :: rat" and ?e = "ulp_exp (of_nat n)"
  have x: "0 < ?x" using False by simp
  have "pow2 (ilog2 ?x) < pow2 (int 53)"
    using ilog2_bounds(1) [OF x] assms pow2_nat [of 53]
    by (metis of_nat_less_iff of_nat_numeral of_nat_power order_le_less_trans)
  then have "?e \<le> 0" by (simp add: ulp_exp_def)
  then obtain k where k: "?e = - int k" by (metis minus_minus neg_0_le_iff_le zero_le_imp_eq_int)
  have "?x / pow2 ?e = of_int (int n * 2 ^ k)"
    by (simp add: k pow2_def power_int_minus field_simps)
  then have "round_even (?x / pow2 ?e) = int n * 2 ^ k"
    by (metis round_even_of_int)
  then show ?thesis using False by (simp add: fl_def fl_pos_def k pow2_def power_int_minus)
qed simp

section \<open>Rounding is idempotent\<close>

lemma pow2_le_iff [simp]: "pow2 a \<le> pow2 b \<longleftrightarrow> a \<le> b"
  by (meson linorder_not_le pow2_less_iff)

lemma ilog2_unique: "pow2 k \<le> x \<Longrightarrow> x < pow2 (k + 1) \<Longrightarrow> ilog2 x = k"
proof -
  assume k: "pow2 k \<le> x" "x < pow2 (k + 1)"
  then have x: "0 < x" using pow2_pos [of k] by linarith
  have "pow2 k < pow2 (ilog2 x + 1)" "pow2 (ilog2 x) < pow2 (k + 1)"
    using k ilog2_bounds [OF x] by linarith+
  then show ?thesis by simp
qed

text \<open>A number with 53 significant bits above the smallest unit is its own rounding.\<close>

lemma fl_pos_exact:
  assumes "x = of_int n * pow2 u" and "0 < n" and "n \<le> 2 ^ 53" and "- 1074 \<le> u"
  shows "fl_pos x = x"
proof -
  let ?e = "ulp_exp x"
  have x: "0 < x" using assms(1,2) by simp
  have "\<exists>m. x / pow2 ?e = of_int m"
  proof (cases "?e \<le> u")
    case True
    then obtain d where d: "u = ?e + int d" by (metis zle_iff_zadd)
    have "x / pow2 ?e = of_int (n * 2 ^ d)"
      by (subst assms(1), subst d) (simp add: pow2_add pow2_nat)
    then show ?thesis by blast
  next
    case False
    then have e: "?e = ilog2 x - 52" "u < ilog2 x - 52" using assms(4) by (auto simp: ulp_exp_def)
    have "pow2 (u + 53) \<le> x" 
      using ilog2_bounds(1) [OF x] pow2_le [of "u + 53" "ilog2 x"] e(2) by linarith
    then have "2 ^ 53 * pow2 u \<le> of_int n * pow2 u" using pow2_nat [of 53] assms(1) by (simp add: pow2_add mult.commute)
    then have "(2 ^ 53 :: rat) \<le> of_int n" by simp
    then have "n = 2 ^ 53" using assms(3) by (metis antisym of_int_le_iff of_int_numeral of_int_power)
    then have xp: "x = pow2 (u + 53)" using assms(1) pow2_nat [of 53] by (simp add: pow2_add mult.commute)
    have "ilog2 x = u + 53" by (rule ilog2_unique) (simp_all only: xp pow2_le_iff pow2_less_iff)
    then have e1: "?e = u + 1" using e(1) by simp
    have "pow2 (u + 53) = pow2 52 * pow2 (u + 1)" by (simp add: add.commute flip: pow2_add)
    then have "x / pow2 (u + 1) = pow2 52" using xp by simp
    then have "x / pow2 ?e = of_int (2 ^ 52)" using e1 pow2_nat [of 52] by simp
    then show ?thesis by blast
  qed
  then obtain m where m: "x / pow2 ?e = of_int m" by blast
  then have "x = of_int m * pow2 ?e" using nonzero_divide_eq_eq [OF pow2_nonzero] by blast
  moreover have "fl_pos x = of_int m * pow2 ?e" by (simp only: fl_pos_def m round_even_of_int)
  ultimately show ?thesis by simp
qed

lemma fl_pos_parts:
  assumes "0 < x"
  obtains n where "fl_pos x = of_int n * pow2 (ulp_exp x)" and "0 \<le> n" and "n \<le> 2 ^ 53"
proof -
  let ?n = "round_even (x / pow2 (ulp_exp x))"
  have "of_int ?n * pow2 (ulp_exp x) \<le> 2 ^ 53 * pow2 (ulp_exp x)"
    using fl_pos_upper [OF assms] pow2_nat [of 53] by (simp add: fl_pos_def pow2_add mult.commute)
  then have "of_int ?n \<le> (2 ^ 53 :: rat)" by simp
  then have "?n \<le> 2 ^ 53" by (metis of_int_le_iff of_int_numeral of_int_power)
  moreover have "0 \<le> ?n" using round_even_mono [of 0 "x / pow2 (ulp_exp x)"] round_even_of_int [of 0] assms by simp
  ultimately show thesis using that by (simp add: fl_pos_def)
qed

lemma ulp_exp_min: "- 1074 \<le> ulp_exp x"
  by (simp add: ulp_exp_def)

lemma fl_pos_fl_pos: "0 < x \<Longrightarrow> fl_pos x \<noteq> 0 \<Longrightarrow> fl_pos (fl_pos x) = fl_pos x"
  by (rule fl_pos_parts [of x]) (use fl_pos_exact ulp_exp_min in \<open>auto simp: le_less\<close>)

lemma fl_fl [simp]: "fl (fl x) = fl x"
proof -
  consider "x = 0" | "0 < x" | "x < 0" by linarith
  then show ?thesis
  proof cases
    case 2
    then show ?thesis using fl_pos_fl_pos [of x] fl_pos_nonneg [of x] by (auto simp: fl_def)
  next
    case 3
    then show ?thesis using fl_pos_fl_pos [of "- x"] fl_pos_nonneg [of "- x"] by (auto simp: fl_def)
  qed simp
qed

lemma fl_arith [simp]: "fl (fadd a b) = fadd a b" "fl (fmul a b) = fmul a b" "fl (fdiv a b) = fdiv a b"
  by (simp_all add: fadd_def fmul_def fdiv_def)

lemma fl_pow2 [simp]: "- 1074 \<le> e \<Longrightarrow> fl (pow2 e) = pow2 e"
  using fl_pos_exact [of "pow2 e" 1 e] order.asym [OF pow2_pos [of e]] by (auto simp: fl_def)

lemma fl_minus: "fl (- x) = - fl x"
  by (simp add: fl_def)

lemma fl_abs: "fl x = x \<Longrightarrow> fl \<bar>x\<bar> = \<bar>x\<bar>"
  by (simp add: abs_if fl_minus)

text \<open>The rounding error: half a unit in the last place, a relative \<open>2 ^ -53\<close> of normal numbers.\<close>

lemma round_even_error: "\<bar>of_int (round_even q) - q\<bar> \<le> 1 / 2"
  unfolding round_even_def Let_def by (auto simp: abs_if) linarith+

lemma fl_pos_error:
  assumes "0 < x" shows "\<bar>fl_pos x - x\<bar> \<le> pow2 (ulp_exp x) / 2"
proof -
  let ?u = "pow2 (ulp_exp x)"
  have "fl_pos x - x = (of_int (round_even (x / ?u)) - x / ?u) * ?u"
    by (simp add: fl_pos_def left_diff_distrib)
  then have "\<bar>fl_pos x - x\<bar> = \<bar>of_int (round_even (x / ?u)) - x / ?u\<bar> * ?u"
    by (simp add: abs_mult)
  also have "\<dots> \<le> 1 / 2 * ?u" using round_even_error by (intro mult_right_mono) auto
  finally show ?thesis by simp
qed

lemma fl_relative:
  assumes "pow2 (- 1022) \<le> x"
  shows "x * (1 - pow2 (- 53)) \<le> fl x" and "fl x \<le> x * (1 + pow2 (- 53))"
proof -
  have x: "0 < x" using assms pow2_pos [of "- 1022"] by linarith
  have "pow2 (- 1022) < pow2 (ilog2 x + 1)" using assms ilog2_bounds(2) [OF x] by linarith
  then have "ulp_exp x = ilog2 x - 52" by (simp add: ulp_exp_def)
  then have "pow2 (ulp_exp x) / 2 = pow2 (ilog2 x) * pow2 (- 53)"
    using pow2_add [of "ilog2 x" "- 53"] pow2_diff [of "ilog2 x - 52" 1] by (simp add: pow2_def)
  also have "\<dots> \<le> x * pow2 (- 53)" using ilog2_bounds(1) [OF x] by simp
  finally have "\<bar>fl_pos x - x\<bar> \<le> x * pow2 (- 53)" using fl_pos_error [OF x] by linarith
  then show "x * (1 - pow2 (- 53)) \<le> fl x" "fl x \<le> x * (1 + pow2 (- 53))"
    using x by (auto simp: fl_def algebra_simps)
qed

text \<open>\<open>std::chrono::duration<double>(d).count()\<close> for a count of nanoseconds.\<close>

definition duration_seconds :: "int \<Rightarrow> double" where
  "duration_seconds ns = fdiv (fl (of_int ns)) 1000000000"

lemma duration_seconds_mono: "a \<le> b \<Longrightarrow> duration_seconds a \<le> duration_seconds b"
  by (simp add: duration_seconds_def fdiv_def fl_mono divide_right_mono)

lemma duration_seconds_nonneg: "0 \<le> ns \<Longrightarrow> 0 \<le> duration_seconds ns"
  by (simp add: duration_seconds_def fdiv_def fl_nonneg)

lemma fl_duration_seconds [simp]: "fl (duration_seconds ns) = duration_seconds ns"
  by (simp add: duration_seconds_def)

end
