(* ===== verification/Json.thy ===== *)
theory Json
  imports Prelude Double "HOL-Library.Char_ord" "HOL-Library.List_Lexorder"
begin

text \<open>
  The values of \<open>nlohmann::json\<close> and the operations the server applies to them. An object
  is a \<open>std::map\<close>: its entries are kept in ascending order of the keys, compared byte by
  byte. An exception is \<open>Throw name\<close>; its message only ever reaches the log.
\<close>

datatype 'a exc = Ret 'a | Throw string

datatype json =
    JNull
  | JBool bool
  | JInt int
  | JUInt nat
  | JFloat double
  | JString string
  | JArray "json list"
  | JObject "(string \<times> json) list"

section \<open>std::map from strings\<close>

fun obj_emplace :: "string \<Rightarrow> 'v \<Rightarrow> (string \<times> 'v) list \<Rightarrow> (string \<times> 'v) list" where
  "obj_emplace k v [] = [(k, v)]"
| "obj_emplace k v ((k', v') # m) =
     (if k < k' then (k, v) # (k', v') # m
      else if k = k' then (k', v') # m
      else (k', v') # obj_emplace k v m)"

fun obj_assign :: "string \<Rightarrow> 'v \<Rightarrow> (string \<times> 'v) list \<Rightarrow> (string \<times> 'v) list" where
  "obj_assign k v [] = [(k, v)]"
| "obj_assign k v ((k', v') # m) =
     (if k < k' then (k, v) # (k', v') # m
      else if k = k' then (k', v) # m
      else (k', v') # obj_assign k v m)"

definition obj_sorted :: "(string \<times> 'v) list \<Rightarrow> bool" where
  "obj_sorted m \<longleftrightarrow> sorted_wrt (<) (map fst m)"

lemma set_obj_emplace: "fst ` set (obj_emplace k v m) = insert k (fst ` set m)"
  by (induction k v m rule: obj_emplace.induct) auto

lemma set_obj_assign: "fst ` set (obj_assign k v m) = insert k (fst ` set m)"
  by (induction k v m rule: obj_assign.induct) auto

lemma obj_sorted_emplace [simp]: "obj_sorted m \<Longrightarrow> obj_sorted (obj_emplace k v m)"
proof (induction k v m rule: obj_emplace.induct)
  case (2 k v k' v' m)
  then show ?case using set_obj_emplace [of k v m] by (fastforce simp: obj_sorted_def)
qed (simp add: obj_sorted_def)

lemma obj_sorted_assign [simp]: "obj_sorted m \<Longrightarrow> obj_sorted (obj_assign k v m)"
proof (induction k v m rule: obj_assign.induct)
  case (2 k v k' v' m)
  then show ?case using set_obj_assign [of k v m] by (fastforce simp: obj_sorted_def)
qed (simp add: obj_sorted_def)

lemma map_of_obj_below: "obj_sorted m \<Longrightarrow> \<forall>x \<in> set (map fst m). k < x \<Longrightarrow> map_of m k = None"
  by (force simp: map_of_eq_None_iff)

lemma map_of_obj_emplace: "obj_sorted m \<Longrightarrow> map_of (obj_emplace k v m) =
    (if map_of m k = None then (map_of m)(k \<mapsto> v) else map_of m)"
proof (induction k v m rule: obj_emplace.induct)
  case (2 k v k' v' m)
  then have "obj_sorted m" and gt: "\<forall>x \<in> set (map fst m). k' < x" by (auto simp: obj_sorted_def)
  moreover have "map_of m k = None" if "k < k'"
    using that gt by (intro map_of_obj_below [OF \<open>obj_sorted m\<close>]) auto
  ultimately show ?case using 2 by auto
qed simp

lemma map_of_obj_assign: "obj_sorted m \<Longrightarrow> map_of (obj_assign k v m) = (map_of m)(k \<mapsto> v)"
  by (induction k v m rule: obj_assign.induct) (auto simp: obj_sorted_def)

section \<open>Building values\<close>

text \<open>
  The constructor from an initializer list: an object when every element is a two-element
  array whose first element is a string (the first of two equal keys wins), an array
  otherwise.
\<close>

fun is_pair :: "json \<Rightarrow> bool" where
  "is_pair (JArray [JString _, _]) = True"
| "is_pair _ = False"

fun pair_key :: "json \<Rightarrow> string" where
  "pair_key (JArray [JString k, v]) = k"
| "pair_key _ = []"

fun pair_val :: "json \<Rightarrow> json" where
  "pair_val (JArray [k, v]) = v"
| "pair_val _ = JNull"

definition json_init :: "json list \<Rightarrow> json" where
  "json_init es = (if list_all is_pair es
     then JObject (foldl (\<lambda>m e. obj_emplace (pair_key e) (pair_val e) m) [] es)
     else JArray es)"

abbreviation kv :: "string \<Rightarrow> json \<Rightarrow> json" where
  "kv k v \<equiv> json_init [JString k, v]"

lemma kv_array [simp]: "kv k v = JArray [JString k, v]"
  by (simp add: json_init_def)

section \<open>Reading values\<close>

definition contains :: "json \<Rightarrow> string \<Rightarrow> bool" where
  "contains j k = (case j of JObject m \<Rightarrow> map_of m k \<noteq> None | _ \<Rightarrow> False)"

definition is_object :: "json \<Rightarrow> bool" where
  "is_object j = (case j of JObject _ \<Rightarrow> True | _ \<Rightarrow> False)"

definition is_string :: "json \<Rightarrow> bool" where
  "is_string j = (case j of JString _ \<Rightarrow> True | _ \<Rightarrow> False)"

definition is_number_integer :: "json \<Rightarrow> bool" where
  "is_number_integer j = (case j of JInt _ \<Rightarrow> True | JUInt _ \<Rightarrow> True | _ \<Rightarrow> False)"

text \<open>
  \<open>operator[]\<close> on a constant value. The key must be present (an assertion of the library,
  checked by every caller with \<open>contains\<close>); \<open>None\<close> is the failed assertion.
\<close>

definition json_get :: "json \<Rightarrow> string \<Rightarrow> json option" where
  "json_get j k = (case j of JObject m \<Rightarrow> map_of m k | _ \<Rightarrow> None)"

text \<open>\<open>operator[]\<close> as the target of an assignment.\<close>

definition json_set :: "string \<Rightarrow> json \<Rightarrow> json \<Rightarrow> json exc" where
  "json_set k v j = (case j of
       JNull \<Rightarrow> Ret (JObject [(k, v)])
     | JObject m \<Rightarrow> Ret (JObject (obj_assign k v m))
     | _ \<Rightarrow> Throw ''type_error.305'')"

text \<open>
  \<open>get<int>\<close>: a conversion to 32 bits of either integer kind; a floating-point number is
  truncated, which is undefined (\<open>None\<close>) when the result does not fit.
\<close>

definition get_int :: "json \<Rightarrow> int exc option" where
  "get_int j = (case j of
       JUInt n \<Rightarrow> Some (Ret (to_i32 (int n)))
     | JInt i \<Rightarrow> Some (Ret (to_i32 i))
     | JFloat r \<Rightarrow> (let t = (if r < 0 then - \<lfloor>- r\<rfloor> else \<lfloor>r\<rfloor>)
                    in if in_i32 t then Some (Ret t) else None)
     | JBool b \<Rightarrow> Some (Ret (if b then 1 else 0))
     | _ \<Rightarrow> Some (Throw ''type_error.302''))"

definition get_string :: "json \<Rightarrow> string exc" where
  "get_string j = (case j of JString s \<Rightarrow> Ret s | _ \<Rightarrow> Throw ''type_error.302'')"

text \<open>\<open>value(key, default)\<close> with a string default.\<close>

definition json_value :: "json \<Rightarrow> string \<Rightarrow> string \<Rightarrow> string exc" where
  "json_value j k d = (case j of
       JObject m \<Rightarrow> (case map_of m k of Some v \<Rightarrow> get_string v | None \<Rightarrow> Ret d)
     | _ \<Rightarrow> Throw ''type_error.306'')"

lemmas json_read_defs = contains_def is_string_def is_number_integer_def json_get_def
  get_int_def get_string_def json_value_def

lemma contains_iff_get: "contains j k \<longleftrightarrow> json_get j k \<noteq> None"
  by (cases j) (simp_all add: contains_def json_get_def)

lemma get_int_integer: "is_number_integer j \<Longrightarrow> \<exists>i. get_int j = Some (Ret i) \<and> in_i32 i"
  by (cases j) (auto simp: json_read_defs)

text \<open>An object written as a list of pairs with ascending keys is that list of entries.\<close>

lemma obj_emplace_last:
  "sorted_wrt (<) (map fst m @ [k]) \<Longrightarrow> obj_emplace k v m = m @ [(k, v)]"
  by (induction k v m rule: obj_emplace.induct) (auto simp: sorted_wrt_append)

end
