(* ===== verification/GameState.thy ===== *)
theory GameState
  imports HashMap Json
begin

text \<open>
  \<open>GameState.cpp\<close> and \<open>GameState.h\<close>: the players of the match, its status, and the
  capped event log. Every public method holds \<open>m_mutex\<close> for its whole body, so each is one
  atomic function of the state; \<open>recordEvent\<close> draws its event id before it takes the lock
  and is therefore two atomic steps. Clock readings are arguments: \<open>clk i\<close> is the
  \<open>i\<close>-th reading of the steady clock (in nanoseconds) that the call makes. A failing
  method returns \<open>Inl err\<close>; a method that can overflow an \<open>int\<close> returns \<open>None\<close> when it does.
\<close>

section \<open>Data\<close>

record player_state =
  p_player_id :: int
  p_x :: int
  p_y :: int
  p_health :: int
  p_score :: int
  p_kills :: int
  p_joinedAt :: int

record game_event =
  ev_event_id :: u64
  ev_player_id :: int
  ev_event_type :: string
  ev_data :: string
  ev_timestamp :: int

datatype match_status = WAITING | ACTIVE | FINISHED

record attack_result =
  ar_damage :: int
  ar_targetHealthAfter :: int
  ar_attackerScore :: int
  ar_targetEliminated :: bool

record game_state =
  m_players :: "(int, player_state) hmap"
  m_events :: "game_event list"
  m_status :: match_status
  m_matchStart :: int
  m_nextEventId :: u64
  m_totalKills :: u64

definition MAP_MIN :: int where "MAP_MIN = 0"
definition MAP_MAX :: int where "MAP_MAX = 1000"
definition MAX_HEALTH :: int where "MAX_HEALTH = 100"
definition ATTACK_DAMAGE :: int where "ATTACK_DAMAGE = 25"
definition MAX_CHAT_LEN :: int where "MAX_CHAT_LEN = 256"
definition MAX_EVENTS :: nat where "MAX_EVENTS = 1000"

lemmas game_consts = MAP_MIN_def MAP_MAX_def MAX_HEALTH_def ATTACK_DAMAGE_def MAX_CHAT_LEN_def
  MAX_EVENTS_def

text \<open>The order in which a match goes through its statuses.\<close>

instantiation match_status :: linorder
begin

fun rank_status :: "match_status \<Rightarrow> nat" where
  "rank_status WAITING = 0"
| "rank_status ACTIVE = 1"
| "rank_status FINISHED = 2"

definition less_eq_match_status :: "match_status \<Rightarrow> match_status \<Rightarrow> bool" where
  "less_eq_match_status a b \<longleftrightarrow> rank_status a \<le> rank_status b"

definition less_match_status :: "match_status \<Rightarrow> match_status \<Rightarrow> bool" where
  "less_match_status a b \<longleftrightarrow> rank_status a < rank_status b"

instance
proof
  fix x y :: match_status
  show "x \<le> y \<Longrightarrow> y \<le> x \<Longrightarrow> x = y"
    by (cases x; cases y) (simp_all add: less_eq_match_status_def)
qed (auto simp: less_eq_match_status_def less_match_status_def)

end

lemmas status_order = less_eq_match_status_def less_match_status_def

section \<open>Player operations\<close>

definition init_game :: "(nat \<Rightarrow> int) \<Rightarrow> game_state" where
  "init_game clk = \<lparr>m_players = [], m_events = [], m_status = WAITING, m_matchStart = clk 0,
     m_nextEventId = 1, m_totalKills = 0\<rparr>"

definition new_player :: "int \<Rightarrow> int \<Rightarrow> player_state" where
  "new_player pid t = \<lparr>p_player_id = pid, p_x = 500, p_y = 500, p_health = 100, p_score = 0,
     p_kills = 0, p_joinedAt = t\<rparr>"

definition not_in_game :: "string \<Rightarrow> int \<Rightarrow> string" where
  "not_in_game who pid = who @ int_str pid @ '' not in game''"

definition addPlayer ::
    "(nat \<Rightarrow> int) \<Rightarrow> int \<Rightarrow> game_state \<Rightarrow> (string + unit) \<times> game_state" where
  "addPlayer clk pid s =
     (if hm_count (m_players s) pid
      then (Inl (''player_id '' @ int_str pid @ '' already in game''), s)
      else let s1 = s\<lparr>m_players := hm_emplace pid (new_player pid (clk 0)) (m_players s)\<rparr>;
               s2 = (if m_status s1 = WAITING
                     then s1\<lparr>m_status := ACTIVE, m_matchStart := clk 1\<rparr> else s1)
           in (Inr (), s2))"

definition removePlayer :: "int \<Rightarrow> game_state \<Rightarrow> (string + int) \<times> game_state" where
  "removePlayer pid s = (case map_of (m_players s) pid of
       None \<Rightarrow> (Inl (not_in_game ''player_id '' pid), s)
     | Some p \<Rightarrow>
         let s1 = s\<lparr>m_players := hm_erase pid (m_players s)\<rparr>;
             s2 = (if m_status s1 = ACTIVE \<and> m_players s1 = []
                   then s1\<lparr>m_status := FINISHED\<rparr> else s1)
         in (Inr (p_score p), s2))"

definition movePlayer :: "int \<Rightarrow> int \<Rightarrow> int \<Rightarrow> game_state \<Rightarrow> (string + unit) \<times> game_state" where
  "movePlayer pid x y s = (case map_of (m_players s) pid of
       None \<Rightarrow> (Inl (not_in_game ''player_id '' pid), s)
     | Some p \<Rightarrow>
         let p' = p\<lparr>p_x := clamp x MAP_MIN MAP_MAX, p_y := clamp y MAP_MIN MAP_MAX\<rparr>
         in (Inr (), s\<lparr>m_players := hm_assign pid p' (m_players s)\<rparr>))"

definition attackPlayer ::
    "int \<Rightarrow> int \<Rightarrow> game_state \<Rightarrow> ((string + attack_result) \<times> game_state) option" where
  "attackPlayer attacker target s =
     (if attacker = target then Some (Inl ''cannot attack yourself'', s)
      else case map_of (m_players s) attacker of
        None \<Rightarrow> Some (Inl (not_in_game ''attacker '' attacker), s)
      | Some att \<Rightarrow>
       (case map_of (m_players s) target of
          None \<Rightarrow> Some (Inl (not_in_game ''target '' target), s)
        | Some tgt \<Rightarrow> do {
            h \<leftarrow> add_i32 (p_health tgt) (- ATTACK_DAMAGE);
            let tgt1 = tgt\<lparr>p_health := max 0 h\<rparr>;
            let after = p_health tgt1;
            let elim = (after = 0);
            let pts = (if elim then 100 else 10);
            sc \<leftarrow> add_i32 (p_score att) pts;
            k \<leftarrow> (if elim then add_i32 (p_kills att) 1 else Some (p_kills att));
            let att1 = att\<lparr>p_score := sc, p_kills := k\<rparr>;
            let res = \<lparr>ar_damage = ATTACK_DAMAGE, ar_targetHealthAfter = after,
                       ar_attackerScore = sc, ar_targetEliminated = elim\<rparr>;
            let ps = hm_assign attacker att1 (hm_assign target tgt1 (m_players s));
            let s1 = s\<lparr>m_players := ps\<rparr>;
            Some (Inr res,
              if elim
              then let s2 = s1\<lparr>m_totalKills := m_totalKills s1 + 1,
                               m_players := hm_erase target (m_players s1)\<rparr>
                   in if m_status s2 = ACTIVE \<and> m_players s2 = []
                      then s2\<lparr>m_status := FINISHED\<rparr> else s2
              else s1)
          }))"

definition setScore :: "int \<Rightarrow> int \<Rightarrow> game_state \<Rightarrow> (string + unit) \<times> game_state" where
  "setScore pid sc s = (case map_of (m_players s) pid of
       None \<Rightarrow> (Inl (not_in_game ''player_id '' pid), s)
     | Some p \<Rightarrow> (Inr (), s\<lparr>m_players := hm_assign pid (p\<lparr>p_score := sc\<rparr>) (m_players s)\<rparr>))"

section \<open>Event log\<close>

text \<open>\<open>m_nextEventId.fetch_add(1)\<close>, outside the lock.\<close>

definition fetch_event_id :: "game_state \<Rightarrow> u64 \<times> game_state" where
  "fetch_event_id s = (m_nextEventId s, s\<lparr>m_nextEventId := m_nextEventId s + 1\<rparr>)"

text \<open>The locked part: append, and drop the oldest event beyond the cap.\<close>

definition push_event :: "game_event \<Rightarrow> game_state \<Rightarrow> game_state" where
  "push_event ev s =
     (let evs = m_events s @ [ev]
      in s\<lparr>m_events := (if MAX_EVENTS < length evs then tl evs else evs)\<rparr>)"

definition recordEvent :: "int \<Rightarrow> int \<Rightarrow> string \<Rightarrow> string \<Rightarrow> game_state \<Rightarrow> game_state" where
  "recordEvent now pid ty dat s =
     (let (eid, s1) = fetch_event_id s
      in push_event \<lparr>ev_event_id = eid, ev_player_id = pid, ev_event_type = ty, ev_data = dat,
                      ev_timestamp = now\<rparr> s1)"

definition recentEvents :: "nat \<Rightarrow> game_state \<Rightarrow> game_event list" where
  "recentEvents n s =
     (let start = (if n < length (m_events s) then length (m_events s) - n else 0)
      in drop start (m_events s))"

section \<open>Queries\<close>

definition hasPlayer :: "int \<Rightarrow> game_state \<Rightarrow> bool" where
  "hasPlayer pid s \<longleftrightarrow> hm_count (m_players s) pid"

definition activePlayerCount :: "game_state \<Rightarrow> nat" where
  "activePlayerCount s = length (m_players s)"

definition totalEvents :: "game_state \<Rightarrow> u64" where
  "totalEvents s = m_nextEventId s - 1"

definition elapsedSeconds :: "(nat \<Rightarrow> int) \<Rightarrow> game_state \<Rightarrow> double" where
  "elapsedSeconds clk s = duration_seconds (clk 0 - m_matchStart s)"

fun matchStatusString :: "match_status \<Rightarrow> string" where
  "matchStatusString WAITING = ''WAITING''"
| "matchStatusString ACTIVE = ''ACTIVE''"
| "matchStatusString FINISHED = ''FINISHED''"

text \<open>
  The player and event entries of a snapshot. \<open>perm\<close> is the iteration order of
  \<open>m_players\<close>, which the standard library does not specify.
\<close>

definition player_json :: "int \<Rightarrow> player_state \<Rightarrow> json" where
  "player_json now p = json_init [
     kv ''player_id'' (JInt (p_player_id p)),
     kv ''x'' (JInt (p_x p)),
     kv ''y'' (JInt (p_y p)),
     kv ''health'' (JInt (p_health p)),
     kv ''score'' (JInt (p_score p)),
     kv ''kills'' (JInt (p_kills p)),
     kv ''session_s'' (JFloat (duration_seconds (now - p_joinedAt p)))]"

definition event_json :: "game_event \<Rightarrow> json" where
  "event_json ev = json_init [
     kv ''event_id'' (JUInt (unat (ev_event_id ev))),
     kv ''player_id'' (JInt (ev_player_id ev)),
     kv ''event_type'' (JString (ev_event_type ev)),
     kv ''data'' (JString (ev_data ev))]"

type_synonym iteration = "(int, player_state) hmap \<Rightarrow> (int \<times> player_state) list"

definition snapshot :: "iteration \<Rightarrow> (nat \<Rightarrow> int) \<Rightarrow> game_state \<Rightarrow> json" where
  "snapshot perm clk s =
     (let ps = perm (m_players s);
          players_arr = map (\<lambda>(i, (k, p)). player_json (clk i) p) (enumerate 0 ps);
          evStart = (if 5 < length (m_events s) then length (m_events s) - 5 else 0);
          events_arr = map event_json (drop evStart (m_events s));
          elapsedSec = duration_seconds (clk (length ps) - m_matchStart s)
      in json_init [
           kv ''match_status'' (JString (matchStatusString (m_status s))),
           kv ''elapsed_seconds'' (JFloat elapsedSec),
           kv ''player_count'' (JInt (to_i32 (int (length (m_players s))))),
           kv ''total_kills'' (JUInt (unat (m_totalKills s))),
           kv ''total_events'' (JUInt (unat (m_nextEventId s - 1))),
           kv ''players'' (JArray players_arr),
           kv ''recent_events'' (JArray events_arr)])"

end
