(* ===== verification/GameProps.thy ===== *)
theory GameProps
  imports GameState
begin

text \<open>
  What makes \<open>GameState\<close> correct: the operations as a labelled step relation, the
  invariant of its runs, the effect of every operation on the map of players (a refinement
  of a specification on maps), the life cycle of the match, and the capped event log as a
  window on the unbounded log.
\<close>

section \<open>Operations as steps\<close>

datatype game_op =
    AddPlayer "nat \<Rightarrow> int" int
  | RemovePlayer int
  | MovePlayer int int int
  | AttackPlayer int int
  | SetScore int int
  | RecordEvent int int string string

inductive game_step :: "game_state \<Rightarrow> game_op \<Rightarrow> game_state \<Rightarrow> bool" where
  add: "game_step s (AddPlayer clk pid) (snd (addPlayer clk pid s))"
| remove: "game_step s (RemovePlayer pid) (snd (removePlayer pid s))"
| move: "game_step s (MovePlayer pid x y) (snd (movePlayer pid x y s))"
| attack: "attackPlayer a b s = Some (r, t) \<Longrightarrow> game_step s (AttackPlayer a b) t"
| score: "in_i32 sc \<Longrightarrow> game_step s (SetScore pid sc) (snd (setScore pid sc s))"
| event: "game_step s (RecordEvent now pid ty dat) (recordEvent now pid ty dat s)"

inductive_cases game_stepE: "game_step s op t"

section \<open>Successful operations\<close>

lemma hm_Nil_iff: "m = [] \<longleftrightarrow> map_of m = Map.empty"
  by (cases m) (auto simp: fun_eq_iff)

lemma hm_assign_not_Nil [simp]: "hm_assign k v m \<noteq> []"
  by (simp add: hm_assign_def)

lemma hm_emplace_not_Nil [simp]: "hm_emplace k v m \<noteq> []"
  by (auto simp: hm_emplace_def hm_count_def)

text \<open>The state an attack leaves, written over the map of players.\<close>

definition hit_health :: "player_state \<Rightarrow> int" where
  "hit_health tgt = max 0 (p_health tgt - ATTACK_DAMAGE)"

definition hit_points :: "player_state \<Rightarrow> int" where
  "hit_points tgt = (if hit_health tgt = 0 then 100 else 10)"

definition rewarded :: "player_state \<Rightarrow> player_state \<Rightarrow> player_state" where
  "rewarded tgt att = att\<lparr>p_score := p_score att + hit_points tgt,
     p_kills := p_kills att + (if hit_health tgt = 0 then 1 else 0)\<rparr>"

definition attack_defined :: "player_state \<Rightarrow> player_state \<Rightarrow> bool" where
  "attack_defined att tgt \<longleftrightarrow> in_i32 (p_health tgt - ATTACK_DAMAGE) \<and>
     in_i32 (p_score att + hit_points tgt) \<and>
     (hit_health tgt = 0 \<longrightarrow> in_i32 (p_kills att + 1))"

definition attack_report :: "player_state \<Rightarrow> player_state \<Rightarrow> attack_result" where
  "attack_report att tgt = \<lparr>ar_damage = ATTACK_DAMAGE, ar_targetHealthAfter = hit_health tgt,
     ar_attackerScore = p_score att + hit_points tgt,
     ar_targetEliminated = (hit_health tgt = 0)\<rparr>"

lemmas attack_defs = hit_health_def hit_points_def rewarded_def attack_defined_def
  attack_report_def

lemma attack_undefined:
  assumes "a \<noteq> b" and "map_of (m_players s) a = Some att" and "map_of (m_players s) b = Some tgt"
    and "\<not> attack_defined att tgt"
  shows "attackPlayer a b s = None"
proof -
  consider (health) "\<not> in_i32 (p_health tgt - ATTACK_DAMAGE)"
    | (score) "in_i32 (p_health tgt - ATTACK_DAMAGE)" "\<not> in_i32 (p_score att + hit_points tgt)"
    | (kills) "in_i32 (p_health tgt - ATTACK_DAMAGE)" "in_i32 (p_score att + hit_points tgt)"
        "hit_health tgt = 0" "\<not> in_i32 (p_kills att + 1)"
    using assms(4) by (auto simp: attack_defined_def)
  then show ?thesis
    by cases (simp_all add: assms(1-3) attackPlayer_def hit_points_def hit_health_def Let_def
        add_i32_def)
qed

lemma attack_kill:
  assumes "a \<noteq> b" and "map_of (m_players s) a = Some att" and "map_of (m_players s) b = Some tgt"
    and "attack_defined att tgt" and "hit_health tgt = 0"
  obtains t where "attackPlayer a b s = Some (Inr (attack_report att tgt), t)"
    and "map_of (m_players t) = (map_of (m_players s))(a \<mapsto> rewarded tgt att, b := None)"
    and "m_status t = m_status s" and "m_totalKills t = m_totalKills s + 1"
    and "m_events t = m_events s" and "m_nextEventId t = m_nextEventId s"
    and "m_matchStart t = m_matchStart s"
    and "hm_wf (m_players s) \<Longrightarrow> hm_wf (m_players t)"
proof -
  let ?tgt1 = "tgt\<lparr>p_health := 0\<rparr>"
  let ?ps = "hm_erase b (hm_assign a (rewarded tgt att) (hm_assign b ?tgt1 (m_players s)))"
  let ?t = "s\<lparr>m_players := ?ps, m_totalKills := m_totalKills s + 1\<rparr>"
  have ne: "?ps \<noteq> []" using assms(1) by (intro hm_erase_not_Nil [of _ a]) (simp_all add: hm_find)
  have "attackPlayer a b s = Some (Inr (attack_report att tgt), ?t)"
    using assms ne by (simp add: attackPlayer_def attack_defs Let_def add_i32_def)
  moreover have "map_of ?ps = (map_of (m_players s))(a \<mapsto> rewarded tgt att, b := None)"
    using assms(1) by (auto simp: hm_find)
  ultimately show thesis by (intro that [of ?t]) (simp_all add: hm.wf_ops)
qed

lemma attack_hit:
  assumes "a \<noteq> b" and "map_of (m_players s) a = Some att" and "map_of (m_players s) b = Some tgt"
    and "attack_defined att tgt" and "hit_health tgt \<noteq> 0"
  obtains t where "attackPlayer a b s = Some (Inr (attack_report att tgt), t)"
    and "map_of (m_players t) = (map_of (m_players s))
           (a \<mapsto> rewarded tgt att, b \<mapsto> tgt\<lparr>p_health := hit_health tgt\<rparr>)"
    and "m_status t = m_status s" and "m_totalKills t = m_totalKills s"
    and "m_events t = m_events s" and "m_nextEventId t = m_nextEventId s"
    and "m_matchStart t = m_matchStart s"
    and "hm_wf (m_players s) \<Longrightarrow> hm_wf (m_players t)"
proof -
  let ?ps = "hm_assign a (rewarded tgt att)
    (hm_assign b (tgt\<lparr>p_health := hit_health tgt\<rparr>) (m_players s))"
  let ?t = "s\<lparr>m_players := ?ps\<rparr>"
  have "attackPlayer a b s = Some (Inr (attack_report att tgt), ?t)"
    using assms by (simp add: attackPlayer_def attack_defs Let_def add_i32_def)
  moreover have "map_of ?ps = (map_of (m_players s))
      (a \<mapsto> rewarded tgt att, b \<mapsto> tgt\<lparr>p_health := hit_health tgt\<rparr>)"
    using assms(1) by (auto simp: hm_find)
  ultimately show thesis by (intro that [of ?t]) (simp_all add: hm.wf_ops)
qed

text \<open>Inversion: what a defined attack can have been.\<close>

lemma attack_cases:
  assumes "attackPlayer a b s = Some (r, t)"
  obtains (error) e where "r = Inl e" and "t = s"
      and "a = b \<or> map_of (m_players s) a = None \<or> map_of (m_players s) b = None"
  | (kill) att tgt where "a \<noteq> b" "map_of (m_players s) a = Some att"
      "map_of (m_players s) b = Some tgt" "attack_defined att tgt" "hit_health tgt = 0"
      "r = Inr (attack_report att tgt)"
  | (hit) att tgt where "a \<noteq> b" "map_of (m_players s) a = Some att"
      "map_of (m_players s) b = Some tgt" "attack_defined att tgt" "hit_health tgt \<noteq> 0"
      "r = Inr (attack_report att tgt)"
proof (cases "a = b \<or> map_of (m_players s) a = None \<or> map_of (m_players s) b = None")
  case True
  then show ?thesis using assms error by (auto simp: attackPlayer_def split: if_splits option.splits)
next
  case False
  then obtain att tgt where ps: "a \<noteq> b" "map_of (m_players s) a = Some att"
      "map_of (m_players s) b = Some tgt" by auto
  then have d: "attack_defined att tgt" using attack_undefined assms by fastforce
  show ?thesis
  proof (cases "hit_health tgt = 0")
    case True
    show ?thesis by (rule attack_kill [OF ps d True]) (use ps d True kill assms in auto)
  next
    case False
    show ?thesis by (rule attack_hit [OF ps d False]) (use ps d False hit assms in auto)
  qed
qed

section \<open>Refinement: the operations on the map of players\<close>

text \<open>
  The specification of the arena is a function on maps from player ids to players. An attack
  is specified where the code defines it.
\<close>

definition arena :: "game_state \<Rightarrow> int \<rightharpoonup> player_state" where
  "arena s = map_of (m_players s)"

fun spec_op :: "game_op \<Rightarrow> (int \<rightharpoonup> player_state) \<Rightarrow> (int \<rightharpoonup> player_state)" where
  "spec_op (AddPlayer clk pid) m =
     (if m pid = None then m(pid \<mapsto> new_player pid (clk 0)) else m)"
| "spec_op (RemovePlayer pid) m = m(pid := None)"
| "spec_op (MovePlayer pid x y) m = (case m pid of None \<Rightarrow> m
     | Some p \<Rightarrow> m(pid \<mapsto> p\<lparr>p_x := max 0 (min 1000 x), p_y := max 0 (min 1000 y)\<rparr>))"
| "spec_op (AttackPlayer a b) m =
     (if a = b then m else case (m a, m b) of
        (Some att, Some tgt) \<Rightarrow>
          (if p_health tgt \<le> 25
           then m(a \<mapsto> att\<lparr>p_score := p_score att + 100, p_kills := p_kills att + 1\<rparr>, b := None)
           else m(a \<mapsto> att\<lparr>p_score := p_score att + 10\<rparr>,
                  b \<mapsto> tgt\<lparr>p_health := p_health tgt - 25\<rparr>))
      | _ \<Rightarrow> m)"
| "spec_op (SetScore pid sc) m = (case m pid of None \<Rightarrow> m | Some p \<Rightarrow> m(pid \<mapsto> p\<lparr>p_score := sc\<rparr>))"
| "spec_op (RecordEvent now pid ty dat) m = m"

lemma arena_add: "arena (snd (addPlayer clk pid s)) = spec_op (AddPlayer clk pid) (arena s)"
  by (simp add: arena_def addPlayer_def hm_count_def Let_def hm_find)

lemma hm_erase_Nil: "hm_erase k m = [] \<Longrightarrow> (map_of m)(k := None) = (\<lambda>x. None)"
  by (metis hm.find_erase map_of.simps(1))

lemma arena_remove: "arena (snd (removePlayer pid s)) = spec_op (RemovePlayer pid) (arena s)"
  by (auto simp: arena_def removePlayer_def Let_def hm_find hm_erase_Nil [symmetric]
      split: option.splits)

lemma arena_move: "arena (snd (movePlayer pid x y s)) = spec_op (MovePlayer pid x y) (arena s)"
  by (auto simp: arena_def movePlayer_def Let_def hm_find clamp_def game_consts split: option.splits)

lemma arena_attack:
  assumes "attackPlayer a b s = Some (r, t)"
  shows "arena t = spec_op (AttackPlayer a b) (arena s)"
  using assms
proof (cases rule: attack_cases)
  case (error e)
  then show ?thesis by (auto simp: arena_def split: option.splits)
next
  case (kill att tgt)
  show ?thesis
    by (rule attack_kill [OF kill(1-5)])
       (use assms kill in \<open>auto simp: arena_def attack_defs game_consts\<close>)
next
  case (hit att tgt)
  show ?thesis
    by (rule attack_hit [OF hit(1-5)])
       (use assms hit in \<open>auto simp: arena_def attack_defs game_consts\<close>)
qed

lemma arena_score: "arena (snd (setScore pid sc s)) = spec_op (SetScore pid sc) (arena s)"
  by (auto simp: arena_def setScore_def hm_find split: option.splits)

lemma arena_event: "arena (recordEvent now pid ty dat s) = arena s"
  by (simp add: arena_def recordEvent_def fetch_event_id_def push_event_def Let_def)

lemma arena_step: "game_step s op t \<Longrightarrow> arena t = spec_op op (arena s)"
  by (induction rule: game_step.induct)
     (simp_all only: arena_add arena_remove arena_move arena_attack arena_score arena_event
        spec_op.simps(6))

lemma arena_runs: "runs game_step s ops t \<Longrightarrow> arena t = fold spec_op ops (arena s)"
  by (induction rule: runs.induct) (simp_all add: arena_step)

section \<open>Invariant\<close>

definition player_ok :: "int \<Rightarrow> player_state \<Rightarrow> bool" where
  "player_ok k p \<longleftrightarrow> p_player_id p = k \<and>
     MAP_MIN \<le> p_x p \<and> p_x p \<le> MAP_MAX \<and> MAP_MIN \<le> p_y p \<and> p_y p \<le> MAP_MAX \<and>
     p_health p \<in> {25, 50, 75, 100} \<and> in_i32 (p_score p) \<and> 0 \<le> p_kills p \<and> in_i32 (p_kills p)"

definition players_ok :: "game_state \<Rightarrow> bool" where
  "players_ok s \<longleftrightarrow> hm_wf (m_players s) \<and> (\<forall>k p. arena s k = Some p \<longrightarrow> player_ok k p)"

definition status_ok :: "game_state \<Rightarrow> bool" where
  "status_ok s \<longleftrightarrow> (m_status s = WAITING \<longrightarrow> m_players s = []) \<and>
     (m_status s = ACTIVE \<longrightarrow> m_players s \<noteq> [])"

definition consecutive :: "game_event list \<Rightarrow> u64 \<Rightarrow> bool" where
  "consecutive evs n \<longleftrightarrow>
     (\<forall>i < length evs. ev_event_id (evs ! i) = n - of_nat (length evs - i))"

definition log_ok :: "game_state \<Rightarrow> bool" where
  "log_ok s \<longleftrightarrow> length (m_events s) \<le> MAX_EVENTS \<and> consecutive (m_events s) (m_nextEventId s)"

definition game_inv :: "game_state \<Rightarrow> bool" where
  "game_inv s \<longleftrightarrow> players_ok s \<and> status_ok s \<and> log_ok s"

lemma player_okD: "players_ok s \<Longrightarrow> arena s k = Some p \<Longrightarrow> player_ok k p"
  by (simp add: players_ok_def)

lemma player_ok_new [simp]: "player_ok k (new_player k t)"
  by (simp add: player_ok_def new_player_def game_consts in_i32_def)

lemma player_ok_rewarded:
  assumes "player_ok a att" and "attack_defined att tgt"
  shows "player_ok a (rewarded tgt att)"
  using assms by (auto simp: player_ok_def rewarded_def attack_defined_def)

lemma player_ok_damaged:
  assumes "player_ok b tgt" and "hit_health tgt \<noteq> 0"
  shows "player_ok b (tgt\<lparr>p_health := hit_health tgt\<rparr>)"
  using assms by (auto simp: player_ok_def hit_health_def game_consts)

lemma player_ok_moved: "player_ok k p \<Longrightarrow> player_ok k (p\<lparr>p_x := max 0 (min 1000 x), p_y := max 0 (min 1000 y)\<rparr>)"
  by (simp add: player_ok_def game_consts)

lemma player_ok_scored: "player_ok k p \<Longrightarrow> in_i32 sc \<Longrightarrow> player_ok k (p\<lparr>p_score := sc\<rparr>)"
  by (simp add: player_ok_def)

lemma step_wf: "game_step s op t \<Longrightarrow> hm_wf (m_players s) \<Longrightarrow> hm_wf (m_players t)"
proof (induction rule: game_step.induct)
  case (attack a b s r t)
  from attack(1) show ?case
  proof (cases rule: attack_cases)
    case (kill att tgt)
    show ?thesis by (rule attack_kill [OF kill(1-5)]) (use attack in simp)
  next
    case (hit att tgt)
    show ?thesis by (rule attack_hit [OF hit(1-5)]) (use attack in simp)
  qed (use attack in simp)
qed (auto simp: addPlayer_def removePlayer_def movePlayer_def setScore_def recordEvent_def
      fetch_event_id_def push_event_def Let_def hm.wf_ops split: option.splits)

lemma players_ok_attack:
  assumes "attackPlayer a b s = Some (r, t)" and "players_ok s" and "arena t k = Some p"
  shows "player_ok k p"
  using assms(1)
proof (cases rule: attack_cases)
  case (error e)
  then show ?thesis using assms(2,3) by (simp add: players_ok_def)
next
  case (kill att tgt)
  then have att: "player_ok a (rewarded tgt att)"
    using assms(2) by (simp add: player_ok_rewarded players_ok_def arena_def)
  show ?thesis
    by (rule attack_kill [OF kill(1-5)])
       (use att assms in \<open>auto simp: players_ok_def arena_def split: if_splits\<close>)
next
  case (hit att tgt)
  then have "player_ok a (rewarded tgt att)" "player_ok b (tgt\<lparr>p_health := hit_health tgt\<rparr>)"
    using assms(2) by (simp_all add: player_ok_rewarded player_ok_damaged players_ok_def arena_def)
  then show ?thesis
    by (rule_tac attack_hit [OF hit(1-5)])
       (use assms in \<open>auto simp: players_ok_def arena_def split: if_splits\<close>)
qed

lemma players_ok_step:
  assumes "players_ok s" and "game_step s op t"
  shows "players_ok t"
proof -
  have "player_ok k p" if "arena t k = Some p" for k p
    using assms(2)
  proof (cases rule: game_step.cases)
    case (add clk pid)
    with assms(1) that show ?thesis
      by (auto simp: arena_add players_ok_def split: if_splits)
  next
    case (remove pid)
    with assms(1) that show ?thesis by (auto simp: arena_remove players_ok_def split: if_splits)
  next
    case (move pid x y)
    with assms(1) that show ?thesis
      by (auto simp: arena_move players_ok_def player_ok_moved split: if_splits option.splits)
  next
    case (attack a b r)
    with assms(1) that show ?thesis by (blast intro: players_ok_attack)
  next
    case (score sc pid)
    with assms(1) that show ?thesis
      by (auto simp: arena_score players_ok_def player_ok_scored split: if_splits option.splits)
  next
    case (event now pid ty dat)
    with assms(1) that show ?thesis by (simp add: arena_event players_ok_def)
  qed
  then show ?thesis using assms step_wf by (simp add: players_ok_def)
qed

text \<open>The status, the log and the id counter are changed by the operations named for it only.\<close>

lemma attack_frame:
  assumes "attackPlayer a b s = Some (r, t)"
  shows "m_status t = m_status s" and "m_events t = m_events s"
    and "m_nextEventId t = m_nextEventId s" and "m_players t = [] \<Longrightarrow> m_players s = []"
proof -
  have "m_status t = m_status s \<and> m_events t = m_events s \<and> m_nextEventId t = m_nextEventId s
      \<and> (m_players t = [] \<longrightarrow> m_players s = [])"
    using assms
  proof (cases rule: attack_cases)
    case (kill att tgt)
    show ?thesis
      by (rule attack_kill [OF kill(1-5)]) (use assms kill in \<open>auto simp: hm_Nil_iff fun_eq_iff\<close>)
  next
    case (hit att tgt)
    show ?thesis
      by (rule attack_hit [OF hit(1-5)]) (use assms hit in \<open>auto simp: hm_Nil_iff fun_eq_iff\<close>)
  qed simp
  then show "m_status t = m_status s" "m_events t = m_events s"
    "m_nextEventId t = m_nextEventId s" "m_players t = [] \<Longrightarrow> m_players s = []" by auto
qed

lemma attack_keeps_players:
  assumes "attackPlayer a b s = Some (Inr res, t)"
  shows "m_players t \<noteq> []" and "arena t a \<noteq> None"
proof -
  have "arena t a \<noteq> None" using assms
  proof (cases rule: attack_cases)
    case (kill att tgt)
    show ?thesis
      by (rule attack_kill [OF kill(1-5)]) (use assms kill in \<open>auto simp: arena_def\<close>)
  next
    case (hit att tgt)
    show ?thesis
      by (rule attack_hit [OF hit(1-5)]) (use assms hit in \<open>auto simp: arena_def\<close>)
  qed simp
  then show "arena t a \<noteq> None" and "m_players t \<noteq> []" by (auto simp: arena_def)
qed

lemma status_ok_step:
  assumes "status_ok s" and "game_step s op t"
  shows "status_ok t"
  using assms(2)
proof (cases rule: game_step.cases)
  case (attack a b r)
  show ?thesis
  proof (cases r)
    case (Inl e)
    then show ?thesis using attack attack_cases assms(1) by fastforce
  next
    case (Inr res)
    then show ?thesis using attack attack_keeps_players attack_frame(1) assms(1) 
      by (metis attack_cases old.sum.distinct(2) map_of.simps(1) option.distinct(1) status_ok_def)
  qed
qed (use assms(1) in \<open>auto simp: status_ok_def addPlayer_def removePlayer_def movePlayer_def
      setScore_def recordEvent_def fetch_event_id_def push_event_def hm_count_def Let_def
      split: option.splits\<close>)

lemma consecutive_snoc:
  assumes "consecutive evs n" and "ev_event_id ev = n"
  shows "consecutive (evs @ [ev]) (n + 1)"
  unfolding consecutive_def
proof (intro allI impI)
  fix i assume i: "i < length (evs @ [ev])"
  show "ev_event_id ((evs @ [ev]) ! i) = n + 1 - of_nat (length (evs @ [ev]) - i)"
  proof (cases "i = length evs")
    case True
    then show ?thesis using assms(2) by simp
  next
    case False
    then have lt: "i < length evs" using i by simp
    then have "(of_nat (length (evs @ [ev]) - i) :: u64) = of_nat (length evs - i) + 1"
      by (simp add: Suc_diff_le)
    then show ?thesis using assms(1) lt by (simp add: consecutive_def nth_append)
  qed
qed

lemma consecutive_tl: "consecutive evs n \<Longrightarrow> consecutive (tl evs) n"
  by (cases evs) (auto simp: consecutive_def)

lemma log_ok_record: "log_ok s \<Longrightarrow> log_ok (recordEvent now pid ty dat s)"
  by (auto simp: log_ok_def recordEvent_def fetch_event_id_def push_event_def Let_def
      intro!: consecutive_snoc consecutive_tl)

lemma log_ok_step:
  assumes "log_ok s" and "game_step s op t"
  shows "log_ok t"
  using assms(2)
proof (cases rule: game_step.cases)
  case (attack a b r)
  then show ?thesis using assms(1) attack_frame by (simp add: log_ok_def)
next
  case (event now pid ty dat)
  then show ?thesis using assms(1) log_ok_record by simp
qed (use assms(1) in \<open>auto simp: log_ok_def addPlayer_def removePlayer_def movePlayer_def
      setScore_def Let_def split: option.splits\<close>)

text \<open>The invariant of all runs, by the locale of \<open>Prelude\<close>.\<close>

interpretation game: invariant_of game_step game_inv
  by unfold_locales (auto simp: game_inv_def intro: players_ok_step status_ok_step log_ok_step)

lemma game_inv_init: "game_inv (init_game clk)"
  by (simp add: game_inv_def init_game_def players_ok_def status_ok_def log_ok_def arena_def
      consecutive_def)

section \<open>The life cycle of a match\<close>

text \<open>
  The status only moves forward, and it leaves \<open>WAITING\<close> with the first player and \<open>ACTIVE\<close>
  with the last.
\<close>

lemma status_step:
  assumes "game_step s op t"
  shows "m_status s \<le> m_status t"
  using assms
proof (cases rule: game_step.cases)
  case (attack a b r)
  then show ?thesis by (simp add: attack_frame(1))
qed (auto simp: status_order addPlayer_def removePlayer_def movePlayer_def setScore_def
      recordEvent_def fetch_event_id_def push_event_def Let_def split: option.splits)

interpretation lifecycle: advances game_step "\<lambda>s t. m_status s \<le> m_status t"
  by unfold_locales (auto intro: status_step)

section \<open>The event log as a window on the history\<close>

text \<open>The events a run records, with the ids the counter gives them, oldest first.\<close>

fun history :: "u64 \<Rightarrow> game_op list \<Rightarrow> game_event list" where
  "history n [] = []"
| "history n (RecordEvent now pid ty dat # ops) =
     \<lparr>ev_event_id = n, ev_player_id = pid, ev_event_type = ty, ev_data = dat, ev_timestamp = now\<rparr>
       # history (n + 1) ops"
| "history n (_ # ops) = history n ops"

definition window :: "nat \<Rightarrow> 'a list \<Rightarrow> 'a list" where
  "window n xs = drop (length xs - n) xs"

lemma window_short: "length xs \<le> n \<Longrightarrow> window n xs = xs"
  by (simp add: window_def)

lemma length_window: "length (window n xs) = min n (length xs)"
  by (simp add: window_def)

lemma window_append: "window n (window n xs @ ys) = window n (xs @ ys)"
  by (cases "length xs \<le> n") (simp_all add: window_def add.commute)

lemma window_window: "m \<le> n \<Longrightarrow> window m (window n xs) = window m xs"
  by (cases "length xs \<le> n") (simp_all add: window_def)

lemma push_event_window: "length (m_events s) \<le> MAX_EVENTS \<Longrightarrow>
    m_events (push_event ev s) = window MAX_EVENTS (m_events s @ [ev])"
  by (cases "length (m_events s) = MAX_EVENTS")
     (auto simp: push_event_def window_def Let_def drop_Suc [of 0] tl_append game_consts
        split: list.splits)

lemma recordEvent_log: "length (m_events s) \<le> MAX_EVENTS \<Longrightarrow>
    m_events (recordEvent now pid ty dat s) =
      window MAX_EVENTS (m_events s @ history (m_nextEventId s) [RecordEvent now pid ty dat])"
  by (simp add: recordEvent_def fetch_event_id_def push_event_window)

lemma recordEvent_next: "m_nextEventId (recordEvent now pid ty dat s) = m_nextEventId s + 1"
  by (simp add: recordEvent_def fetch_event_id_def push_event_def Let_def)

lemma other_op_log:
  assumes "game_step s op t" and "\<forall>now pid ty dat. op \<noteq> RecordEvent now pid ty dat"
  shows "m_events t = m_events s" and "m_nextEventId t = m_nextEventId s"
    and "history n (op # ops) = history n ops"
proof -
  have "m_events t = m_events s \<and> m_nextEventId t = m_nextEventId s"
    using assms(1)
  proof (cases rule: game_step.cases)
    case (attack a b r)
    then show ?thesis by (simp add: attack_frame)
  qed (use assms(2) in \<open>auto simp: addPlayer_def removePlayer_def movePlayer_def setScore_def Let_def
      split: option.splits\<close>)
  then show "m_events t = m_events s" "m_nextEventId t = m_nextEventId s" by auto
  show "history n (op # ops) = history n ops" using assms(2) by (cases op) auto
qed

lemma log_window:
  assumes "runs game_step s ops t" and "length (m_events s) \<le> MAX_EVENTS"
  shows "m_events t = window MAX_EVENTS (m_events s @ history (m_nextEventId s) ops)"
  using assms
proof (induction rule: runs.induct)
  case (runs_nil s)
  then show ?case by (simp add: window_short)
next
  case (runs_cons s op t ops u)
  show ?case
  proof (cases "\<exists>now pid ty dat. op = RecordEvent now pid ty dat")
    case True
    then obtain now pid ty dat where op: "op = RecordEvent now pid ty dat" by blast
    then have t: "t = recordEvent now pid ty dat s" using runs_cons(1) by (auto elim: game_stepE)
    let ?ev = "history (m_nextEventId s) [op]"
    have log: "m_events t = window MAX_EVENTS (m_events s @ ?ev)"
      using runs_cons.prems by (simp add: t op recordEvent_log)
    then have "m_events u = window MAX_EVENTS (m_events t @ history (m_nextEventId s + 1) ops)"
      using runs_cons.IH by (simp add: length_window t recordEvent_next)
    then show ?thesis by (simp add: log window_append op)
  next
    case False
    then show ?thesis using runs_cons other_op_log by simp
  qed
qed

section \<open>Repeated attacks\<close>

fun attacks :: "nat \<Rightarrow> int \<Rightarrow> int \<Rightarrow> game_state \<Rightarrow> game_state option" where
  "attacks 0 a b s = Some s"
| "attacks (Suc n) a b s = (case attackPlayer a b s of None \<Rightarrow> None | Some (r, t) \<Rightarrow> attacks n a b t)"

lemma in_i32_between: "in_i32 l \<Longrightarrow> in_i32 u \<Longrightarrow> l \<le> i \<Longrightarrow> i \<le> u \<Longrightarrow> in_i32 i"
  by (simp add: in_i32_def)

lemma attack_wounds:
  assumes "a \<noteq> b" and "arena s a = Some att" and "arena s b = Some tgt"
    and "25 < p_health tgt" and "p_health tgt \<le> 100"
    and "in_i32 (p_score att + 10)"
  obtains r t where "attackPlayer a b s = Some (r, t)"
    and "arena t a = Some (att\<lparr>p_score := p_score att + 10\<rparr>)"
    and "arena t b = Some (tgt\<lparr>p_health := p_health tgt - 25\<rparr>)"
    and "m_totalKills t = m_totalKills s"
proof (rule attack_hit [of a b s att tgt])
  show "attack_defined att tgt" "hit_health tgt \<noteq> 0"
    using assms by (auto simp: attack_defs game_consts in_i32_def)
qed (use assms that in \<open>auto simp: arena_def attack_defs game_consts\<close>)

lemma attack_eliminates:
  assumes "a \<noteq> b" and "arena s a = Some att" and "arena s b = Some tgt"
    and "0 < p_health tgt" and "p_health tgt \<le> 25"
    and "in_i32 (p_score att + 100)" and "in_i32 (p_kills att + 1)"
  obtains r t where "attackPlayer a b s = Some (r, t)"
    and "arena t a = Some (att\<lparr>p_score := p_score att + 100, p_kills := p_kills att + 1\<rparr>)"
    and "arena t b = None"
    and "m_totalKills t = m_totalKills s + 1"
proof (rule attack_kill [of a b s att tgt])
  show "attack_defined att tgt" "hit_health tgt = 0"
    using assms by (auto simp: attack_defs game_consts in_i32_def)
qed (use assms that in \<open>auto simp: arena_def attack_defs game_consts\<close>)

lemma attacks_wound:
  assumes "a \<noteq> b" and "arena s a = Some att" and "arena s b = Some tgt"
    and "25 * int n < p_health tgt" and "p_health tgt \<le> 100"
    and "in_i32 (p_score att)" and "in_i32 (p_score att + 10 * int n)"
  shows "\<exists>t. attacks n a b s = Some t \<and>
    arena t a = Some (att\<lparr>p_score := p_score att + 10 * int n\<rparr>) \<and>
    arena t b = Some (tgt\<lparr>p_health := p_health tgt - 25 * int n\<rparr>) \<and>
    m_totalKills t = m_totalKills s"
  using assms
proof (induction n arbitrary: s att tgt)
  case 0
  then show ?case by simp
next
  case (Suc n)
  have "in_i32 (p_score att + 10)"
    using Suc.prems(6,7) by (rule in_i32_between) simp_all
  with Suc.prems obtain r t where t: "attackPlayer a b s = Some (r, t)"
    "arena t a = Some (att\<lparr>p_score := p_score att + 10\<rparr>)"
    "arena t b = Some (tgt\<lparr>p_health := p_health tgt - 25\<rparr>)"
    "m_totalKills t = m_totalKills s"
    by (elim attack_wounds [of a b s att tgt]) auto
  have "\<exists>u. attacks n a b t = Some u \<and>
    arena u a = Some (att\<lparr>p_score := p_score att + 10 + 10 * int n\<rparr>) \<and>
    arena u b = Some (tgt\<lparr>p_health := p_health tgt - 25 - 25 * int n\<rparr>) \<and>
    m_totalKills u = m_totalKills t"
    using Suc.IH [OF Suc.prems(1) t(2,3)] Suc.prems \<open>in_i32 (p_score att + 10)\<close>
    by (simp add: algebra_simps)
  then show ?case using t by (simp add: algebra_simps)
qed

lemma attacks_snoc: "attacks (Suc n) a b s =
    (case attacks n a b s of None \<Rightarrow> None | Some t \<Rightarrow> map_option snd (attackPlayer a b t))"
proof (induction n arbitrary: s)
  case (Suc n)
  show ?case
  proof (cases "attackPlayer a b s")
    case (Some x)
    obtain r t where x: "x = (r, t)" by fastforce
    have "attacks (Suc (Suc n)) a b s = attacks (Suc n) a b t"
      by (simp only: attacks.simps(2) [of "Suc n"] Some x option.case prod.case)
    moreover have "attacks (Suc n) a b s = attacks n a b t"
      by (simp add: Some x)
    ultimately show ?thesis by (simp only: Suc.IH)
  qed simp
qed (simp split: option.splits)

end
