(* ===== verification/EventLog.thy ===== *)
theory EventLog
  imports GameProps
begin

text \<open>
  \<open>GameState::recordEvent\<close> under concurrency. A worker first draws its event id from the
  atomic counter, outside the lock, and appends the event later, under the lock; other
  workers run between the two steps. The state is the shared game and, for each worker,
  the event it has drawn an id for and not yet appended.
\<close>

record log_state =
  shared :: game_state
  pending :: "nat \<Rightarrow> game_event option"

datatype log_label = Draw nat int int string string | Push nat

definition drawn_event :: "u64 \<Rightarrow> int \<Rightarrow> int \<Rightarrow> string \<Rightarrow> string \<Rightarrow> game_event" where
  "drawn_event eid now pid ty dat = \<lparr>ev_event_id = eid, ev_player_id = pid, ev_event_type = ty,
     ev_data = dat, ev_timestamp = now\<rparr>"

inductive log_step :: "log_state \<Rightarrow> log_label \<Rightarrow> log_state \<Rightarrow> bool" where
  draw: "pending c w = None \<Longrightarrow> fetch_event_id (shared c) = (eid, s1) \<Longrightarrow>
     log_step c (Draw w now pid ty dat)
       (c\<lparr>shared := s1, pending := (pending c)(w \<mapsto> drawn_event eid now pid ty dat)\<rparr>)"
| push: "pending c w = Some ev \<Longrightarrow>
     log_step c (Push w)
       (c\<lparr>shared := push_event ev (shared c), pending := (pending c)(w := None)\<rparr>)"

inductive_cases draw_stepE: "log_step c (Draw w now pid ty dat) d"
inductive_cases push_stepE: "log_step c (Push w) d"

definition log_init :: "game_state \<Rightarrow> log_state" where
  "log_init s = \<lparr>shared = s, pending = (\<lambda>_. None)\<rparr>"

text \<open>One worker alone: drawing and appending is \<open>recordEvent\<close>.\<close>

lemma sequential_record:
  "runs log_step (log_init s) [Draw w now pid ty dat, Push w]
     (log_init (recordEvent now pid ty dat s))"
proof (rule runs_cons)
  let ?ev = "drawn_event (m_nextEventId s) now pid ty dat"
  let ?c = "log_init s"
  let ?d = "?c\<lparr>shared := s\<lparr>m_nextEventId := m_nextEventId s + 1\<rparr>,
      pending := (pending ?c)(w \<mapsto> ?ev)\<rparr>"
  show "log_step ?c (Draw w now pid ty dat) ?d"
    by (rule log_step.draw) (simp_all add: log_init_def fetch_event_id_def)
  have "log_init (recordEvent now pid ty dat s) =
      ?d\<lparr>shared := push_event ?ev (shared ?d), pending := (pending ?d)(w := None)\<rparr>"
    by (simp add: log_init_def recordEvent_def fetch_event_id_def drawn_event_def)
  then show "runs log_step ?d [Push w] (log_init (recordEvent now pid ty dat s))"
    using log_step.push [of ?d w ?ev] by (auto simp: runs_Cons_iff)
qed

section \<open>Event ids are never given twice\<close>

definition draws :: "log_label list \<Rightarrow> nat" where
  "draws ls = length (filter (\<lambda>l. case l of Draw _ _ _ _ _ \<Rightarrow> True | Push _ \<Rightarrow> False) ls)"

definition held_ids :: "log_state \<Rightarrow> u64 set" where
  "held_ids c = {ev_event_id ev |ev w. pending c w = Some ev}"

text \<open>After \<open>k\<close> draws: the counter stands at \<open>k + 1\<close> and all ids given out are below it.\<close>

definition ids_inv :: "nat \<Rightarrow> log_state \<Rightarrow> bool" where
  "ids_inv k c \<longleftrightarrow> m_nextEventId (shared c) = of_nat (Suc k) \<and> Suc k < 2 ^ 64 \<and>
     length (m_events (shared c)) \<le> MAX_EVENTS \<and>
     distinct (map ev_event_id (m_events (shared c))) \<and>
     (\<forall>ev \<in> set (m_events (shared c)). unat (ev_event_id ev) \<le> k) \<and>
     (\<forall>w ev. pending c w = Some ev \<longrightarrow> unat (ev_event_id ev) \<le> k \<and>
        ev_event_id ev \<notin> ev_event_id ` set (m_events (shared c))) \<and>
     (\<forall>v w e f. pending c v = Some e \<longrightarrow> pending c w = Some f \<longrightarrow>
        ev_event_id e = ev_event_id f \<longrightarrow> v = w)"

lemma set_push_event: "set (m_events (push_event ev s)) \<subseteq> insert ev (set (m_events s))"
  by (cases "m_events s") (auto simp: push_event_def Let_def)

lemma length_push_event:
  "length (m_events s) \<le> MAX_EVENTS \<Longrightarrow> length (m_events (push_event ev s)) \<le> MAX_EVENTS"
  by (auto simp: push_event_def Let_def)

lemma distinct_push_event:
  assumes "distinct (map ev_event_id (m_events s))"
    and "ev_event_id ev \<notin> ev_event_id ` set (m_events s)"
  shows "distinct (map ev_event_id (m_events (push_event ev s)))"
  using assms by (auto simp: push_event_def Let_def map_tl intro: distinct_tl)

lemma push_event_next [simp]: "m_nextEventId (push_event ev s) = m_nextEventId s"
  by (simp add: push_event_def Let_def)

lemma ids_inv_draw:
  assumes "ids_inv k c" and "log_step c (Draw w now pid ty dat) d" and "Suc (Suc k) < 2 ^ 64"
  shows "ids_inv (Suc k) d"
proof -
  obtain eid s1 where 1: "fetch_event_id (shared c) = (eid, s1)" "pending c w = None"
      "d = c\<lparr>shared := s1, pending := (pending c)(w \<mapsto> drawn_event eid now pid ty dat)\<rparr>"
    using assms(2) by (auto elim: draw_stepE)
  then have s1: "eid = of_nat (Suc k)" "m_events s1 = m_events (shared c)"
      "m_nextEventId s1 = of_nat (Suc (Suc k))"
    using assms(1) by (auto simp: fetch_event_id_def ids_inv_def add.commute)
  have eid: "unat eid = Suc k" using assms(3) unfolding s1(1)
    by (simp only: unat_of_nat) simp
  have fresh: "unat (ev_event_id ev) \<le> k \<Longrightarrow> ev_event_id ev \<noteq> eid" for ev using eid by auto
  show ?thesis using assms(1,3) 1 s1 eid fresh
    by (auto simp: ids_inv_def drawn_event_def split: if_splits) (metis le_SucI)+
qed

lemma ids_inv_push:
  assumes "ids_inv k c" and "log_step c (Push w) d"
  shows "ids_inv k d"
proof -
  obtain ev where 1: "pending c w = Some ev"
      "d = c\<lparr>shared := push_event ev (shared c), pending := (pending c)(w := None)\<rparr>"
    using assms(2) by (auto elim: push_stepE)
  let ?s = "push_event ev (shared c)"
  have ev: "unat (ev_event_id ev) \<le> k" "ev_event_id ev \<notin> ev_event_id ` set (m_events (shared c))"
    using assms(1) 1(1) by (auto simp: ids_inv_def)
  have "distinct (map ev_event_id (m_events ?s))" "length (m_events ?s) \<le> MAX_EVENTS"
    using assms(1) ev by (auto simp: ids_inv_def intro: distinct_push_event length_push_event)
  moreover have "\<forall>e \<in> set (m_events ?s). unat (ev_event_id e) \<le> k"
    using assms(1) ev(1) set_push_event [of ev "shared c"] by (auto simp: ids_inv_def)
  moreover have "ev_event_id f \<notin> ev_event_id ` set (m_events ?s)"
    if vf: "pending c v = Some f" "v \<noteq> w" for v f
  proof -
    have "ev_event_id f \<notin> ev_event_id ` set (m_events (shared c))"
      using assms(1) vf(1) by (simp add: ids_inv_def)
    moreover have "ev_event_id f \<noteq> ev_event_id ev"
      using assms(1) vf 1(1) unfolding ids_inv_def by blast
    ultimately show ?thesis using set_push_event [of ev "shared c"] by auto
  qed
  ultimately show ?thesis using assms(1) 1 by (auto simp: ids_inv_def split: if_splits)
qed

lemma ids_inv_runs:
  assumes "runs log_step c ls d" and "ids_inv k c" and "Suc (k + draws ls) < 2 ^ 64"
  shows "ids_inv (k + draws ls) d"
  using assms
proof (induction arbitrary: k rule: runs.induct)
  case (runs_cons c l d ls e)
  show ?case
  proof (cases l)
    case (Draw w now pid ty dat)
    then have "ids_inv (Suc k) d" using runs_cons.hyps runs_cons.prems ids_inv_draw
      by (auto simp: draws_def)
    then show ?thesis using runs_cons.IH [of "Suc k"] runs_cons.prems Draw by (simp add: draws_def)
  next
    case (Push w)
    then have "ids_inv k d" using runs_cons ids_inv_push by blast
    then show ?thesis using runs_cons.IH [of k] runs_cons.prems Push by (simp add: draws_def)
  qed
qed (simp add: draws_def)

lemma ids_inv_init: "ids_inv 0 (log_init (init_game clk))"
  by (simp add: ids_inv_def log_init_def init_game_def)

end
