(* ===== verification/Match.thy ===== *)
theory Match
  imports EventLog
begin

text \<open>
  The properties of the match: what every reachable game satisfies, what an attack does and
  when it is undefined, how the status moves, and what the event log shows, also when
  several workers record events at once.
\<close>

section \<open>Helpers\<close>

lemma hit_health_live: "player_ok k p \<Longrightarrow> hit_health p = p_health p - 25"
  by (auto simp: player_ok_def hit_health_def game_consts)

lemma hit_health_zero: "player_ok k p \<Longrightarrow> hit_health p = 0 \<longleftrightarrow> p_health p = 25"
  by (auto simp: player_ok_def hit_health_def game_consts)

lemma health_in_i32: "player_ok k p \<Longrightarrow> in_i32 (p_health p - ATTACK_DAMAGE)"
  by (auto simp: player_ok_def game_consts in_i32_def)

lemma attack_defined_live:
  assumes "player_ok a att" and "player_ok b tgt"
  shows "attack_defined att tgt \<longleftrightarrow>
     (if p_health tgt = 25 then p_score att + 100 < 2 ^ 31 \<and> p_kills att + 1 < 2 ^ 31
      else p_score att + 10 < 2 ^ 31)"
  using assms health_in_i32 [OF assms(2)]
  by (auto simp: attack_defined_def hit_points_def hit_health_zero [OF assms(2)])
     (auto simp: player_ok_def in_i32_def)

lemma attack_None_iff: "attackPlayer a b s = None \<longleftrightarrow>
    a \<noteq> b \<and> (\<exists>att tgt. arena s a = Some att \<and> arena s b = Some tgt \<and> \<not> attack_defined att tgt)"
proof (cases "a = b \<or> arena s a = None \<or> arena s b = None")
  case True
  then show ?thesis by (auto simp: attackPlayer_def arena_def split: option.splits)
next
  case False
  then obtain att tgt where p: "a \<noteq> b" "map_of (m_players s) a = Some att"
      "map_of (m_players s) b = Some tgt" by (auto simp: arena_def)
  have "attackPlayer a b s \<noteq> None" if "attack_defined att tgt"
  proof (cases "hit_health tgt = 0")
    case True
    show ?thesis by (rule attack_kill [OF p that True]) simp
  next
    case False
    show ?thesis by (rule attack_hit [OF p that False]) simp
  qed
  then show ?thesis using p attack_undefined [OF p] by (auto simp: arena_def)
qed

lemma attack_undefined_live:
  assumes "game_inv s"
  shows "attackPlayer a b s = None \<longleftrightarrow> a \<noteq> b \<and>
     (\<exists>att tgt. arena s a = Some att \<and> arena s b = Some tgt \<and>
        (if p_health tgt = 25 then 2 ^ 31 \<le> p_score att + 100 \<or> 2 ^ 31 \<le> p_kills att + 1
         else 2 ^ 31 \<le> p_score att + 10))"
proof -
  have "attack_defined att tgt \<longleftrightarrow>
     (if p_health tgt = 25 then p_score att + 100 < 2 ^ 31 \<and> p_kills att + 1 < 2 ^ 31
      else p_score att + 10 < 2 ^ 31)" if "arena s a = Some att" "arena s b = Some tgt" for att tgt
    using attack_defined_live that assms by (meson game_inv_def player_okD)
  then show ?thesis unfolding attack_None_iff by (auto simp: not_less split: if_splits)
qed

text \<open>The outcome of an attack between two players of a live match, with every field of the state.\<close>

abbreviation attack_fits :: "player_state \<Rightarrow> player_state \<Rightarrow> bool" where
  "attack_fits att tgt \<equiv> (if p_health tgt = 25 then p_score att + 100 < 2 ^ 31 \<and> p_kills att + 1 < 2 ^ 31
      else p_score att + 10 < 2 ^ 31)"

lemma attack_outcome:
  assumes "game_inv s" and "a \<noteq> b" and "arena s a = Some att" and "arena s b = Some tgt"
    and "attack_fits att tgt"
  shows "\<exists>t. attackPlayer a b s =
        Some (Inr \<lparr>ar_damage = 25, ar_targetHealthAfter = p_health tgt - 25,
          ar_attackerScore = p_score att + (if p_health tgt = 25 then 100 else 10),
          ar_targetEliminated = (p_health tgt = 25)\<rparr>, t) \<and>
      arena t = (if p_health tgt = 25
        then (arena s)(a \<mapsto> att\<lparr>p_score := p_score att + 100, p_kills := p_kills att + 1\<rparr>, b := None)
        else (arena s)(a \<mapsto> att\<lparr>p_score := p_score att + 10\<rparr>, b \<mapsto> tgt\<lparr>p_health := p_health tgt - 25\<rparr>)) \<and>
      m_totalKills t = m_totalKills s + (if p_health tgt = 25 then 1 else 0) \<and>
      m_status t = m_status s \<and> m_matchStart t = m_matchStart s \<and>
      m_events t = m_events s \<and> m_nextEventId t = m_nextEventId s"
proof -
  have ok: "player_ok a att" "player_ok b tgt"
    using assms by (auto simp: game_inv_def players_ok_def)
  have p: "map_of (m_players s) a = Some att" "map_of (m_players s) b = Some tgt"
    using assms by (simp_all add: arena_def)
  have d: "attack_defined att tgt" using assms by (simp add: attack_defined_live [OF ok])
  note h = hit_health_live [OF ok(2)] hit_health_zero [OF ok(2)]
  show ?thesis
  proof (cases "p_health tgt = 25")
    case True
    then have "hit_health tgt = 0" by (simp add: h)
    then show ?thesis
      by (rule attack_kill [OF assms(2) p d])
         (use True in \<open>simp add: h arena_def attack_report_def hit_points_def rewarded_def game_consts\<close>)
  next
    case False
    then have "hit_health tgt \<noteq> 0" by (simp add: h)
    then show ?thesis
      by (rule attack_hit [OF assms(2) p d])
         (use False in \<open>simp add: h arena_def attack_report_def hit_points_def rewarded_def game_consts\<close>)
  qed
qed

lemma eliminating_attack:
  assumes "game_inv s" and "a \<noteq> b" and "arena s a = Some att" and "arena s b = Some tgt"
    and "p_health tgt = 25" and "p_score att + 100 < 2 ^ 31" and "p_kills att + 1 < 2 ^ 31"
  shows "\<exists>res t. attackPlayer a b s = Some (Inr res, t) \<and> arena t b = None"
  using attack_outcome [OF assms(1-4)] assms(5-7) by fastforce

lemma totalEvents_history:
  "runs game_step s ops t \<Longrightarrow> m_nextEventId t = m_nextEventId s + of_nat (length (history n ops))"
proof (induction arbitrary: n rule: runs.induct)
  case (runs_cons s op t ops u)
  show ?case
  proof (cases "\<exists>now pid ty dat. op = RecordEvent now pid ty dat")
    case True
    then show ?thesis using runs_cons(1) runs_cons.IH [of "n + 1"]
      by (auto elim!: game_stepE simp: recordEvent_next)
  next
    case False
    then show ?thesis using other_op_log [OF runs_cons(1)] runs_cons.IH [of n] by simp
  qed
qed simp

text \<open>A match of two players that have just joined, for the examples.\<close>

definition duel :: game_state where
  "duel = snd (addPlayer (\<lambda>_. 0) 2 (snd (addPlayer (\<lambda>_. 0) 1 (init_game (\<lambda>_. 0)))))"

lemma duel_runs: "runs game_step (init_game (\<lambda>_. 0)) [AddPlayer (\<lambda>_. 0) 1, AddPlayer (\<lambda>_. 0) 2] duel"
  unfolding duel_def by (rule runs_cons, rule game_step.add, rule runs_cons, rule game_step.add) simp

lemma duel_inv: "game_inv duel"
  by (rule game.inv_runs [OF duel_runs game_inv_init])

lemma duel_arena: "arena duel = [1 \<mapsto> new_player 1 0, 2 \<mapsto> new_player 2 0]"
  by (simp add: duel_def arena_add) (simp add: arena_def init_game_def)

section \<open>Properties\<close>

text \<open>C24. Whatever operations a match goes through from its start, every player in it is stored
  under its own id, stands inside the map, has a health of 25, 50, 75 or 100 and a score and
  kill count that fit an int; a waiting match is empty and an active one is not; the log
  holds at most 1000 events with consecutive ids that end before the counter.\<close>

theorem reachable_game:
  assumes "runs game_step (init_game clk) ops s"
  shows "(\<forall>k p. arena s k = Some p \<longrightarrow> p_player_id p = k \<and>
            p_x p \<in> {0..1000} \<and> p_y p \<in> {0..1000} \<and> p_health p \<in> {25, 50, 75, 100} \<and>
            in_i32 (p_score p) \<and> 0 \<le> p_kills p \<and> in_i32 (p_kills p)) \<and>
         distinct (map fst (m_players s)) \<and>
         (m_status s = WAITING \<longrightarrow> m_players s = []) \<and>
         (m_status s = ACTIVE \<longrightarrow> m_players s \<noteq> []) \<and>
         length (m_events s) \<le> 1000 \<and>
         (\<forall>i < length (m_events s).
            ev_event_id (m_events s ! i) = m_nextEventId s - of_nat (length (m_events s) - i))"
  using game.inv_runs [OF assms game_inv_init]
  by (auto simp: game_inv_def players_ok_def player_ok_def status_ok_def log_ok_def
      consecutive_def hm_wf_def game_consts)

theorem reachable_game_witness: "p_health (the (arena duel 1)) \<in> {25, 50, 75, 100}"
proof -
  have "arena duel 1 = Some (new_player 1 0)" by (simp add: duel_arena)
  then show ?thesis using reachable_game [OF duel_runs] by simp
qed

text \<open>C4. The operations of the game, run in any sequence, change the players exactly as the
  specification on maps from ids to players says.\<close>

theorem game_refines_arena:
  assumes "runs game_step s ops t" shows "arena t = fold spec_op ops (arena s)"
  by (rule arena_runs [OF assms])

theorem game_refines_arena_witness:
  "arena duel = fold spec_op [AddPlayer (\<lambda>_. 0) 1, AddPlayer (\<lambda>_. 0) 2] (arena (init_game (\<lambda>_. 0)))"
  by (rule game_refines_arena [OF duel_runs])

text \<open>C5. An attack between two players of a match that keeps its invariant, on a target with more
  than 25 health left whose attacker holds less than 2^31 - 10 points, takes 25 health off the
  target and gives the attacker 10 points. On a target with 25 health left, when the attacker
  holds less than 2^31 - 100 points and 2^31 - 1 kills, it removes the target, gives 100 points and a
  kill and raises the kill total of the match (a 64-bit counter). The report says so. Nothing else
  changes: the other players, the status, the start of the match, the log and the counter of
  event ids are as before. (Beyond these bounds the attack is undefined behaviour, as
  \<open>attack_undefined_iff\<close> states.)\<close>

theorem attack_effect:
  assumes "game_inv s" and "a \<noteq> b" and "arena s a = Some att" and "arena s b = Some tgt"
    and "if p_health tgt = 25 then p_score att + 100 < 2 ^ 31 \<and> p_kills att + 1 < 2 ^ 31
         else p_score att + 10 < 2 ^ 31"
  shows "\<exists>t. attackPlayer a b s =
        Some (Inr \<lparr>ar_damage = 25, ar_targetHealthAfter = p_health tgt - 25,
          ar_attackerScore = p_score att + (if p_health tgt = 25 then 100 else 10),
          ar_targetEliminated = (p_health tgt = 25)\<rparr>, t) \<and>
      arena t = (if p_health tgt = 25
        then (arena s)(a \<mapsto> att\<lparr>p_score := p_score att + 100, p_kills := p_kills att + 1\<rparr>, b := None)
        else (arena s)(a \<mapsto> att\<lparr>p_score := p_score att + 10\<rparr>, b \<mapsto> tgt\<lparr>p_health := p_health tgt - 25\<rparr>)) \<and>
      m_totalKills t = m_totalKills s + (if p_health tgt = 25 then 1 else 0) \<and>
      m_status t = m_status s \<and> m_matchStart t = m_matchStart s \<and>
      m_events t = m_events s \<and> m_nextEventId t = m_nextEventId s"
  by (rule attack_outcome [OF assms])

theorem attack_effect_witness:
  "\<exists>r t. attackPlayer 1 2 duel = Some (Inr r, t) \<and> ar_targetHealthAfter r = 75 \<and>
     arena t 2 = Some (new_player 2 0\<lparr>p_health := 75\<rparr>)"
  using attack_effect [OF duel_inv, of 1 2 "new_player 1 0" "new_player 2 0"]
  by (clarsimp simp: duel_arena new_player_def)

text \<open>An attack in a reachable match is undefined behaviour exactly when it is between two
  players of the match and the points (or the kill) it earns do not fit the attacker's int:
  at most 2147483647 - 10 points may be held before a hit, and 2147483647 - 100 before a kill.
  The health of the target never overflows.\<close>

theorem attack_undefined_iff:
  assumes "game_inv s"
  shows "attackPlayer a b s = None \<longleftrightarrow> a \<noteq> b \<and>
     (\<exists>att tgt. arena s a = Some att \<and> arena s b = Some tgt \<and>
        (if p_health tgt = 25 then 2 ^ 31 \<le> p_score att + 100 \<or> 2 ^ 31 \<le> p_kills att + 1
         else 2 ^ 31 \<le> p_score att + 10))"
  by (rule attack_undefined_live [OF assms])

definition rich_duel :: game_state where
  "rich_duel = snd (setScore 1 2147483647 duel)"

lemma rich_inv: "game_inv rich_duel"
proof -
  have "game_step duel (SetScore 1 2147483647) rich_duel"
    unfolding rich_duel_def by (rule game_step.score) (simp add: in_i32_def)
  then show ?thesis using game.inv_step duel_inv by blast
qed

theorem attack_undefined_iff_witness: "attackPlayer 1 2 rich_duel = None"
proof -
  have "arena rich_duel = (arena duel)(1 \<mapsto> new_player 1 0\<lparr>p_score := 2147483647\<rparr>)"
    unfolding rich_duel_def arena_score by (simp add: duel_arena)
  then show ?thesis
    using attack_undefined_iff [OF rich_inv, of 1 2] by (simp add: duel_arena new_player_def)
qed

text \<open>C10. A player at full health survives three hits of one attacker and is removed by the
  fourth; together they earn the attacker 130 points and one kill.\<close>

theorem fourth_hit_kills:
  assumes "a \<noteq> b" and "arena s a = Some att" and "arena s b = Some tgt" and "p_health tgt = 100"
    and "0 \<le> p_score att" and "p_score att + 130 < 2 ^ 31"
    and "0 \<le> p_kills att" and "p_kills att + 1 < 2 ^ 31"
  shows "(\<forall>n \<le> 3. \<exists>t. attacks n a b s = Some t \<and>
            arena t b = Some (tgt\<lparr>p_health := 100 - 25 * int n\<rparr>) \<and> m_totalKills t = m_totalKills s) \<and>
         (\<exists>t. attacks 4 a b s = Some t \<and> arena t b = None \<and> m_totalKills t = m_totalKills s + 1 \<and>
            arena t a = Some (att\<lparr>p_score := p_score att + 130, p_kills := p_kills att + 1\<rparr>))"
proof -
  have w: "\<exists>t. attacks n a b s = Some t \<and> arena t a = Some (att\<lparr>p_score := p_score att + 10 * int n\<rparr>) \<and>
      arena t b = Some (tgt\<lparr>p_health := 100 - 25 * int n\<rparr>) \<and> m_totalKills t = m_totalKills s"
    if "n \<le> 3" for n
    using attacks_wound [OF assms(1-3), of n] assms(4-8) that by (auto simp: in_i32_def)
  obtain t where t: "attacks 3 a b s = Some t" "arena t a = Some (att\<lparr>p_score := p_score att + 30\<rparr>)"
      "arena t b = Some (tgt\<lparr>p_health := 25\<rparr>)" "m_totalKills t = m_totalKills s"
    using w [of 3] by auto
  obtain r u where "attackPlayer a b t = Some (r, u)" "arena u b = None"
      "m_totalKills u = m_totalKills t + 1"
      "arena u a = Some (att\<lparr>p_score := p_score att + 130, p_kills := p_kills att + 1\<rparr>)"
    by (rule attack_eliminates [OF assms(1) t(2,3)]) (use assms(5-8) in \<open>auto simp: in_i32_def\<close>)
  moreover then have "attacks 4 a b s = Some u"
    using attacks_snoc [of 3 a b s] t(1) by simp
  ultimately show ?thesis using w t(4) by auto
qed

theorem fourth_hit_kills_witness: "\<exists>t. attacks 4 1 2 duel = Some t \<and> arena t 2 = None"
  using fourth_hit_kills [of 1 2 duel "new_player 1 0" "new_player 2 0"]
  by (auto simp: duel_arena new_player_def)

text \<open>C25. The status of a match only moves forward, from WAITING to ACTIVE to FINISHED: a
  finished match never becomes active again, whoever joins.\<close>

theorem status_lifecycle:
  assumes "runs game_step s ops t"
  shows "m_status s \<le> m_status t \<and> (m_status s = FINISHED \<longrightarrow> m_status t = FINISHED)"
  using lifecycle.le_runs [OF assms] by (cases "m_status t") (auto simp: less_eq_match_status_def)

theorem status_lifecycle_witness: "WAITING \<le> m_status duel"
  using status_lifecycle [OF duel_runs] by (simp add: init_game_def)

text \<open>An active match of the reachable ones is finished by a step exactly when the step
  leaves it without players.\<close>

theorem match_finishes:
  assumes "game_inv s" and "m_status s = ACTIVE" and "game_step s op t"
  shows "m_status t = FINISHED \<longleftrightarrow> arena t = Map.empty"
proof -
  have "m_status t \<noteq> WAITING" using status_step [OF assms(3)] assms(2)
    by (auto simp: less_eq_match_status_def)
  moreover have "status_ok t" using game.inv_step [OF assms(1,3)] by (simp add: game_inv_def)
  moreover have "m_players t = []" if "m_status t = FINISHED"
    using assms(3)
  proof (cases rule: game_step.cases)
    case (attack a b r)
    then show ?thesis using that assms(2) attack_frame(1) by simp
  qed (use that assms(2) in \<open>auto simp: addPlayer_def removePlayer_def movePlayer_def setScore_def
        recordEvent_def fetch_event_id_def push_event_def Let_def split: option.splits if_splits\<close>)
  moreover have "arena t = Map.empty \<longleftrightarrow> m_players t = []" by (simp only: arena_def hm_Nil_iff)
  ultimately show ?thesis by (cases "m_status t") (simp_all add: status_ok_def)
qed

theorem match_finishes_witness: "m_status (snd (removePlayer 1 duel)) \<noteq> FINISHED"
proof -
  have "m_status duel = ACTIVE" by code_simp
  from match_finishes [OF duel_inv this game_step.remove [of duel 1]] show ?thesis
    by (simp add: arena_remove duel_arena fun_eq_iff)
qed

text \<open>No attack ends a match: the attacker is still in it, so the branch of the code that
  finishes the match after an elimination is never taken.\<close>

theorem attack_never_finishes:
  assumes "attackPlayer a b s = Some (Inr r, t)"
  shows "m_status t = m_status s \<and> arena t a \<noteq> None \<and> m_players t \<noteq> []"
  using assms attack_frame(1) attack_keeps_players by blast

theorem attack_never_finishes_witness: "\<exists>r t. attackPlayer 1 2 duel = Some (Inr r, t) \<and> m_players t \<noteq> []"
proof -
  have "case attackPlayer 1 2 duel of Some (Inr _, _) \<Rightarrow> True | _ \<Rightarrow> False" by code_simp
  then obtain r t where "attackPlayer 1 2 duel = Some (Inr r, t)"
    by (auto split: option.splits prod.splits sum.splits)
  then show ?thesis using attack_never_finishes [of 1 2 duel r t] by auto
qed

text \<open>C26. The event log of a match is the last 1000 events of its whole history, in order and
  with the ids 1, 2, 3, ... of that history; \<open>recentEvents\<close> gives the last n of them, and
  \<open>totalEvents\<close> counts the whole history, the forgotten events included (modulo 2^64).\<close>

theorem event_log:
  assumes "runs game_step (init_game clk) ops s" and "n \<le> 1000"
  shows "m_events s = window 1000 (history 1 ops) \<and>
    recentEvents n s = window n (history 1 ops) \<and>
    totalEvents s = of_nat (length (history 1 ops))"
proof -
  have ev: "m_events s = window MAX_EVENTS (history 1 ops)"
    using log_window [OF assms(1)] by (simp add: init_game_def)
  moreover have "recentEvents n s = window n (m_events s)"
    by (simp add: recentEvents_def window_def Let_def)
  moreover have "totalEvents s = of_nat (length (history 1 ops))"
    using totalEvents_history [OF assms(1), of 1] by (simp add: totalEvents_def init_game_def)
  ultimately show ?thesis using window_window [of n MAX_EVENTS] assms(2)
    by (simp add: MAX_EVENTS_def)
qed

theorem event_log_witness: "recentEvents 5 (recordEvent 7 1 ''JOIN'' ''{}'' duel) =
    [\<lparr>ev_event_id = 1, ev_player_id = 1, ev_event_type = ''JOIN'', ev_data = ''{}'', ev_timestamp = 7\<rparr>]"
proof -
  have r: "runs game_step (init_game (\<lambda>_. 0))
      [AddPlayer (\<lambda>_. 0) 1, AddPlayer (\<lambda>_. 0) 2, RecordEvent 7 1 ''JOIN'' ''{}'']
      (recordEvent 7 1 ''JOIN'' ''{}'' duel)"
    using runs_snoc [OF duel_runs game_step.event] by simp
  show ?thesis using event_log [OF r, of 5] by (simp add: window_def)
qed

text \<open>However the two steps of \<open>recordEvent\<close> (drawing an id, appending under the lock) of
  any number of workers interleave, no two events in the log have the same id.\<close>

theorem event_ids_unique:
  assumes "runs log_step (log_init (init_game clk)) ls c" and "length ls < 2 ^ 64 - 1"
  shows "distinct (map ev_event_id (m_events (shared c))) \<and> length (m_events (shared c)) \<le> 1000"
proof -
  have "draws ls \<le> length ls" by (simp add: draws_def)
  then have "ids_inv (0 + draws ls) c"
    using ids_inv_runs [OF assms(1) ids_inv_init] assms(2) by simp
  then show ?thesis by (simp add: ids_inv_def MAX_EVENTS_def)
qed

text \<open>Two workers record an event each; the one that drew its id second appends first.\<close>

definition racing :: "log_label list" where
  "racing = [Draw 0 0 1 ''JOIN'' ''{}'', Draw 1 0 2 ''JOIN'' ''{}'', Push 1, Push 0]"

lemma racing_runs: "\<exists>c. runs log_step (log_init (init_game clk)) racing c \<and>
    map ev_event_id (m_events (shared c)) = [2, 1]"
  unfolding racing_def
  by (rule exI, rule conjI, rule runs_cons, rule log_step.draw, simp add: log_init_def,
      simp add: fetch_event_id_def, rule runs_cons, rule log_step.draw, simp add: log_init_def,
      simp add: fetch_event_id_def, rule runs_cons, rule log_step.push, simp, rule runs_cons,
      rule log_step.push, simp, simp)
     (simp add: push_event_def log_init_def init_game_def drawn_event_def MAX_EVENTS_def)

theorem event_ids_unique_witness:
  "\<exists>c. runs log_step (log_init (init_game (\<lambda>_. 0))) racing c \<and>
     distinct (map ev_event_id (m_events (shared c)))"
proof -
  obtain c where c: "runs log_step (log_init (init_game (\<lambda>_. 0))) racing c"
    using racing_runs by blast
  then show ?thesis using event_ids_unique [OF c] by (auto simp: racing_def)
qed

text \<open>C40. The log is not always ordered by id: two workers that record an event each can leave
  the event with id 2 before the event with id 1, against the comment "newest last".\<close>

theorem event_log_out_of_order:
  "\<exists>ls c. runs log_step (log_init (init_game clk)) ls c \<and>
     map ev_event_id (m_events (shared c)) = [2, 1]"
  by (rule exI [of _ racing]) (rule racing_runs)

end
