(* ===== verification/Socket.thy ===== *)
theory Socket
  imports Prelude "HOL-Library.Sublist"
begin

text \<open>
  A connected TCP socket as the code sees it, and the two loops of \<open>MessageFramer.cpp\<close> over
  it. The network is the sequence of events the calls of \<open>recv\<close> and \<open>send\<close> meet: data in
  chunks of any size, errors, and orderly shutdown (the end of the sequence, or an empty
  chunk). How the stream is cut into chunks is not under the control of the program; the
  bytes it carries are \<open>rx_bytes\<close>.
\<close>

datatype rx = RxData bytes | RxError
datatype tx = TxAccept nat | TxError

fun rx_bytes :: "rx list \<Rightarrow> bytes" where
  "rx_bytes [] = []"
| "rx_bytes (RxError # q) = []"
| "rx_bytes (RxData bs # q) = (if bs = [] then [] else bs @ rx_bytes q)"

text \<open>\<open>recv(fd, buf, n, 0)\<close> for positive \<open>n\<close>: \<open>None\<close> for a result of at most 0.\<close>

fun recv :: "nat \<Rightarrow> rx list \<Rightarrow> bytes option \<times> rx list" where
  "recv n [] = (None, [])"
| "recv n (RxError # q) = (None, q)"
| "recv n (RxData bs # q) =
     (if bs = [] then (None, q)
      else (Some (take n bs), if length bs \<le> n then q else RxData (drop n bs) # q))"

text \<open>
  \<open>send(fd, buf, n, MSG_NOSIGNAL)\<close>: how many bytes the kernel takes, \<open>None\<close> for a result of
  at most 0. At the end of the sequence the kernel takes everything.
\<close>

fun send :: "bytes \<Rightarrow> tx list \<Rightarrow> nat option \<times> tx list" where
  "send data [] = (Some (length data), [])"
| "send data (TxError # q) = (None, q)"
| "send data (TxAccept k # q) = (if k = 0 then (None, q) else (Some (min k (length data)), q))"

lemma recv_SomeD:
  assumes "recv n q = (Some bs, q')" and "0 < n"
  shows "bs \<noteq> []" and "length bs \<le> n" and "rx_bytes q = bs @ rx_bytes q'"
  using assms by (induction n q rule: recv.induct) (auto split: if_splits)

lemma recv_NoneD: "recv n q = (None, q') \<Longrightarrow> rx_bytes q = []"
  by (induction n q rule: recv.induct) (auto split: if_splits)

lemma recv_progress: "(Some bs, q') = recv n q \<Longrightarrow> 0 < n \<Longrightarrow> n - length bs < n"
  using recv_SomeD(1) [of n q bs q'] by (cases bs) auto

section \<open>readExact\<close>

function readExact :: "nat \<Rightarrow> rx list \<Rightarrow> bytes option \<times> rx list" where
  "readExact n q =
     (if n = 0 then (Some [], q)
      else case recv n q of
        (None, q1) \<Rightarrow> (None, q1)
      | (Some bs, q1) \<Rightarrow>
         (case readExact (n - length bs) q1 of
            (None, q2) \<Rightarrow> (None, q2)
          | (Some cs, q2) \<Rightarrow> (Some (bs @ cs), q2)))"
  by pat_completeness auto
termination
  by (relation "measure fst") (auto intro: recv_progress)

declare readExact.simps [simp del]

text \<open>
  The loop delivers exactly the next \<open>n\<close> bytes of the stream, or fails because the stream
  ends before them; how the stream is cut into chunks does not matter.
\<close>

lemma readExact_enough:
  "n \<le> length (rx_bytes q) \<Longrightarrow>
     \<exists>q'. readExact n q = (Some (take n (rx_bytes q)), q') \<and> rx_bytes q' = drop n (rx_bytes q)"
proof (induction n q rule: readExact.induct)
  case (1 n q)
  show ?case
  proof (cases "n = 0")
    case False
    then have "rx_bytes q \<noteq> []" using 1(2) by auto
    then obtain bs q1 where r: "recv n q = (Some bs, q1)"
      using recv_NoneD by (metis option.exhaust surj_pair)
    note bs = recv_SomeD [OF r] False
    then have "n - length bs \<le> length (rx_bytes q1)" using 1(2) by simp
    with 1(1) [OF False r [symmetric] refl] obtain q2 where
      "readExact (n - length bs) q1 = (Some (take (n - length bs) (rx_bytes q1)), q2)"
      "rx_bytes q2 = drop (n - length bs) (rx_bytes q1)" by auto
    then show ?thesis using r bs by (simp add: readExact.simps [of n q])
  qed (simp add: readExact.simps)
qed

lemma readExact_short:
  "length (rx_bytes q) < n \<Longrightarrow> fst (readExact n q) = None"
proof (induction n q rule: readExact.induct)
  case (1 n q)
  show ?case
  proof (cases "fst (recv n q)")
    case None
    then show ?thesis using 1(2) by (auto simp: readExact.simps [of n q] split: prod.splits)
  next
    case (Some bs)
    then obtain q1 where r: "recv n q = (Some bs, q1)" by (cases "recv n q") auto
    have "0 < n" using 1(2) by simp
    note bs = recv_SomeD [OF r this]
    have "length (rx_bytes q1) < n - length bs" using 1(2) bs by simp
    then have "fst (readExact (n - length bs) q1) = None"
      using 1(1) [OF _ r [symmetric] refl] \<open>0 < n\<close> by simp
    then show ?thesis using r \<open>0 < n\<close>
      by (auto simp: readExact.simps [of n q] split: prod.splits)
  qed
qed

lemma readExact_SomeD:
  assumes "readExact n q = (Some bs, q')"
  shows "rx_bytes q = bs @ rx_bytes q'" and "length bs = n"
proof -
  have "n \<le> length (rx_bytes q)"
    using readExact_short [of q n] assms by (force simp: not_le)
  then have "bs = take n (rx_bytes q)" "rx_bytes q' = drop n (rx_bytes q)"
      and n: "n \<le> length (rx_bytes q)"
    using readExact_enough assms by fastforce+
  then show "rx_bytes q = bs @ rx_bytes q'" and "length bs = n" by simp_all
qed

section \<open>writeAll\<close>

lemma send_SomeD: "send data q = (Some k, q') \<Longrightarrow> data \<noteq> [] \<Longrightarrow> 0 < k \<and> k \<le> length data"
  by (induction data q rule: send.induct) (auto split: if_splits)

lemma send_progress: "(Some k, q') = send data q \<Longrightarrow> data \<noteq> [] \<Longrightarrow> length data - k < length data"
  using send_SomeD [of data q k q'] by auto

text \<open>The result, the bytes that reached the peer, and the events left.\<close>

function writeAll :: "bytes \<Rightarrow> tx list \<Rightarrow> bool \<times> bytes \<times> tx list" where
  "writeAll data q =
     (if data = [] then (True, [], q)
      else case send data q of
        (None, q1) \<Rightarrow> (False, [], q1)
      | (Some k, q1) \<Rightarrow>
         (case writeAll (drop k data) q1 of
            (ok, out, q2) \<Rightarrow> (ok, take k data @ out, q2)))"
  by pat_completeness auto
termination
  by (relation "measure (\<lambda>(data, q). length data)") (auto intro: send_progress)

declare writeAll.simps [simp del]

lemma writeAll_prefix:
  "writeAll data q = (ok, out, q') \<Longrightarrow> prefix out data \<and> (ok \<longleftrightarrow> out = data)"
proof (induction data q arbitrary: ok out q' rule: writeAll.induct)
  case (1 data q)
  show ?case
  proof (cases "data = [] \<or> fst (send data q) = None")
    case True
    then show ?thesis using 1(2) by (auto simp: writeAll.simps [of data q] split: prod.splits if_splits)
  next
    case False
    then obtain k q1 where s: "send data q = (Some k, q1)" by (cases "send data q") auto
    obtain ok2 out2 q2 where w: "writeAll (drop k data) q1 = (ok2, out2, q2)"
      by (metis prod_cases3)
    have IH: "prefix out2 (drop k data)" "ok2 \<longleftrightarrow> out2 = drop k data"
      using 1(1) [OF _ s [symmetric] refl w] False by auto
    have "ok = ok2" "out = take k data @ out2"
      using 1(2) False s w by (auto simp: writeAll.simps [of data q])
    moreover have "prefix (take k data @ out2) (take k data @ drop k data)"
      using IH(1) by (simp only: same_prefix_prefix)
    ultimately show ?thesis using IH(2) append_take_drop_id [of k data]
      by (metis same_append_eq)
  qed
qed

text \<open>A network that never refuses gets everything.\<close>

definition tx_fine :: "tx list \<Rightarrow> bool" where
  "tx_fine q \<longleftrightarrow> (\<forall>e \<in> set q. \<exists>k. e = TxAccept (Suc k))"

lemma send_fine: "tx_fine q \<Longrightarrow> \<exists>k q'. send data q = (Some k, q') \<and> tx_fine q'"
  by (induction data q rule: send.induct) (auto simp: tx_fine_def)

lemma writeAll_fine: "tx_fine q \<Longrightarrow> \<exists>q'. writeAll data q = (True, data, q') \<and> tx_fine q'"
proof (induction data q rule: writeAll.induct)
  case (1 data q)
  show ?case
  proof (cases "data = []")
    case True
    then show ?thesis using 1(2) by (simp add: writeAll.simps)
  next
    case False
    obtain k q1 where s: "send data q = (Some k, q1)" "tx_fine q1"
      using send_fine [OF 1(2)] by blast
    obtain q2 where "writeAll (drop k data) q1 = (True, drop k data, q2)" "tx_fine q2"
      using 1(1) [OF False s(1) [symmetric] refl s(2)] by blast
    then show ?thesis using s False by (simp add: writeAll.simps [of data q])
  qed
qed

end
