(* ===== verification/Codec.thy ===== *)
theory Codec
  imports Main "HOL-Library.Sublist"
begin

text \<open>
  The contract of a self-delimiting encoding: decoding takes one encoded value off the front
  of a buffer and waits when the buffer holds only a part of it. From this alone, sequences
  of values have one reading, and a receiver that decodes as long as it can gets the values
  back in order and keeps an incomplete rest.
\<close>

fun drain :: "nat \<Rightarrow> ('b list \<Rightarrow> ('p \<times> 'b list) option) \<Rightarrow> 'b list \<Rightarrow> 'p list \<times> 'b list" where
  "drain 0 dec b = ([], b)"
| "drain (Suc fuel) dec b = (case dec b of
      None \<Rightarrow> ([], b)
    | Some (p, r) \<Rightarrow> (case drain fuel dec r of (ps, r') \<Rightarrow> (p # ps, r')))"

locale codec =
  fixes enc :: "'p \<Rightarrow> 'b list"
    and dec :: "'b list \<Rightarrow> ('p \<times> 'b list) option"
    and ok :: "'p \<Rightarrow> bool"
  assumes dec_enc: "ok p \<Longrightarrow> dec (enc p @ r) = Some (p, r)"
    and dec_partial: "ok p \<Longrightarrow> strict_prefix b (enc p) \<Longrightarrow> dec b = None"
    and dec_Nil: "dec [] = None"
begin

lemma enc_not_Nil: "ok p \<Longrightarrow> enc p \<noteq> []"
  using dec_enc [of p "[]"] dec_Nil by auto

lemma length_enc: "ok p \<Longrightarrow> 0 < length (enc p)"
  using enc_not_Nil by simp

lemma enc_inj: "ok p \<Longrightarrow> ok q \<Longrightarrow> enc p @ r = enc q @ s \<Longrightarrow> p = q \<and> r = s"
  by (metis dec_enc option.inject prod.inject)

lemma prefix_free: "ok p \<Longrightarrow> ok q \<Longrightarrow> prefix (enc p) (enc q) \<Longrightarrow> p = q"
  by (metis dec_enc dec_partial append_Nil2 option.distinct(1) option.inject prod.inject
      prefix_order.le_imp_less_or_eq)

lemma concat_unique:
  "list_all ok ps \<Longrightarrow> list_all ok qs \<Longrightarrow> concat (map enc ps) = concat (map enc qs) \<Longrightarrow> ps = qs"
proof (induction ps arbitrary: qs)
  case Nil
  show ?case
  proof (cases qs)
    case (Cons q qs')
    then show ?thesis using Nil enc_not_Nil [of q] by simp
  qed simp
next
  case (Cons p ps)
  show ?case
  proof (cases qs)
    case Nil
    then show ?thesis using Cons.prems enc_not_Nil [of p] by simp
  next
    case (Cons q qs')
    then have "ok p" "ok q" "enc p @ concat (map enc ps) = enc q @ concat (map enc qs')"
      using Cons.prems by simp_all
    then have "p = q" "concat (map enc ps) = concat (map enc qs')" using enc_inj by blast+
    then show ?thesis using Cons.prems Cons.IH [of qs'] Cons by simp
  qed
qed

lemma drain_concat:
  assumes "list_all ok ps" and "dec r = None" and "length (concat (map enc ps)) \<le> fuel"
  shows "drain fuel dec (concat (map enc ps) @ r) = (ps, r)"
  using assms
proof (induction ps arbitrary: fuel)
  case Nil
  then show ?case by (cases fuel) simp_all
next
  case (Cons p ps)
  then obtain k where "length (enc p) = Suc k"
    using length_enc [of p] by (cases "length (enc p)") auto
  then have "0 < fuel" "length (concat (map enc ps)) \<le> fuel - 1" using Cons.prems(3) by simp_all
  then show ?case using Cons by (cases fuel) (simp_all add: dec_enc)
qed

end

end
