(* ===== verification/Framer.thy ===== *)
theory Framer
  imports Socket Codec
begin

unbundle bit_operations_syntax

text \<open>
  \<open>MessageFramer.cpp\<close>: a frame is the length of the payload as a little-endian
  \<open>uint32_t\<close>, then the payload. \<open>std::string\<close> is a list of characters, a buffer of
  \<open>uint8_t\<close> a list of bytes; copying one to the other keeps each byte.
\<close>

definition bytes_of :: "string \<Rightarrow> bytes" where
  "bytes_of s = map of_char s"

definition string_of :: "bytes \<Rightarrow> string" where
  "string_of bs = map (\<lambda>b. char_of (unat b)) bs"

definition MAX_MESSAGE_SIZE :: u32 where "MAX_MESSAGE_SIZE = 1 * 1024 * 1024"
definition HEADER_SIZE :: nat where "HEADER_SIZE = 4"

definition readU32LE :: "bytes \<Rightarrow> u32" where
  "readU32LE p = ucast (p ! 0) OR push_bit 8 (ucast (p ! 1)) OR push_bit 16 (ucast (p ! 2))
     OR push_bit 24 (ucast (p ! 3))"

definition writeU32LE :: "u32 \<Rightarrow> bytes" where
  "writeU32LE v = [ucast (v AND 0xFF), ucast (drop_bit 8 v AND 0xFF),
     ucast (drop_bit 16 v AND 0xFF), ucast (drop_bit 24 v AND 0xFF)]"

definition encode :: "string \<Rightarrow> bytes" where
  "encode payload = (let len = (of_nat (length payload) :: u32)
     in writeU32LE len @ take (unat len) (bytes_of payload))"

datatype decode_result = NeedMore | Decoded string bytes | TooLarge u32

definition decode :: "bytes \<Rightarrow> decode_result" where
  "decode buffer =
     (if length buffer < HEADER_SIZE then NeedMore
      else let payloadLen = readU32LE buffer in
        if MAX_MESSAGE_SIZE < payloadLen then TooLarge payloadLen
        else let totalNeeded = HEADER_SIZE + unat payloadLen in
          if length buffer < totalNeeded then NeedMore
          else Decoded (string_of (take (unat payloadLen) (drop HEADER_SIZE buffer)))
                 (drop totalNeeded buffer))"

section \<open>Bytes\<close>

lemma length_bytes_of [simp]: "length (bytes_of s) = length s"
  by (simp add: bytes_of_def)

lemma unat_of_char [simp]: "unat (of_char c :: u8) = of_char c"
proof -
  have "(of_char c :: u8) = of_nat (of_char c)" by (rule of_nat_of_char [symmetric])
  then have "unat (of_char c :: u8) = of_char c mod 2 ^ LENGTH(8)" by (simp only: unat_of_nat)
  then show ?thesis by simp
qed

lemma string_of_bytes_of [simp]: "string_of (bytes_of s) = s"
  by (simp add: string_of_def bytes_of_def comp_def)

lemma bytes_of_Nil_iff [simp]: "bytes_of s = [] \<longleftrightarrow> s = []"
  by (simp add: bytes_of_def)

lemma bytes_of_append [simp]: "bytes_of (s @ t) = bytes_of s @ bytes_of t"
  by (simp add: bytes_of_def)

lemma bytes_of_inj [simp]: "bytes_of s = bytes_of t \<longleftrightarrow> s = t"
  by (metis string_of_bytes_of)

lemma length_writeU32LE [simp]: "length (writeU32LE v) = 4"
  by (simp add: writeU32LE_def)

lemma readU32LE_append [simp]:
  assumes "4 \<le> length p" shows "readU32LE (p @ q) = readU32LE p"
proof -
  have "(p @ q) ! i = p ! i" if "i < 4" for i using assms that by (simp add: nth_append)
  then show ?thesis by (simp add: readU32LE_def)
qed

lemma ucast_low_byte: "(ucast (v AND 0xFF :: u32) :: u8) = ucast v"
proof -
  have "(0xFF :: u32) = mask 8" by (simp add: mask_eq_exp_minus_1)
  show ?thesis unfolding \<open>0xFF = mask 8\<close> by (intro bit_word_eqI) (simp add: bit_simps)
qed

lemma readU32LE_writeU32LE [simp]: "readU32LE (writeU32LE v) = v"
proof (rule bit_word_eqI)
  fix n assume "n < LENGTH(32)"
  then consider "n < 8" | "8 \<le> n" "n < 16" | "16 \<le> n" "n < 24" | "24 \<le> n" "n < 32"
    by fastforce
  then show "bit (readU32LE (writeU32LE v)) n = bit v n"
    by cases (auto simp: readU32LE_def writeU32LE_def ucast_low_byte bit_simps)
qed

section \<open>Frames\<close>

definition frame_ok :: "string \<Rightarrow> bool" where
  "frame_ok p \<longleftrightarrow> length p \<le> 1048576"

definition decode_frame :: "bytes \<Rightarrow> (string \<times> bytes) option" where
  "decode_frame b = (case decode b of Decoded p r \<Rightarrow> Some (p, r) | _ \<Rightarrow> None)"

lemma unat_length_u32: "length p < 2 ^ 32 \<Longrightarrow> unat (of_nat (length p) :: u32) = length p"
  by (simp only: unat_of_nat) simp

lemma unat_MAX_MESSAGE_SIZE [simp]: "unat MAX_MESSAGE_SIZE = 1048576"
  by (simp add: MAX_MESSAGE_SIZE_def)

lemma too_large_iff: "MAX_MESSAGE_SIZE < n \<longleftrightarrow> 1048576 < unat n"
  by (simp add: word_less_nat_alt)

lemma encode_short: "length p < 2 ^ 32 \<Longrightarrow>
    encode p = writeU32LE (of_nat (length p)) @ bytes_of p"
  by (simp add: encode_def unat_length_u32 Let_def)

lemma length_encode: "length p < 2 ^ 32 \<Longrightarrow> length (encode p) = 4 + length p"
  by (simp add: encode_short)

lemma decode_encode:
  assumes "frame_ok p" shows "decode (encode p @ r) = Decoded p r"
proof -
  have l: "length p < 2 ^ 32" using assms by (simp add: frame_ok_def)
  then show ?thesis using assms
    by (simp add: decode_def encode_short HEADER_SIZE_def too_large_iff unat_length_u32
        frame_ok_def Let_def)
qed

lemma decode_header:
  assumes "4 \<le> length b" and "readU32LE b = n" and "unat n \<le> 1048576" and "length b < 4 + unat n"
  shows "decode b = NeedMore"
  using assms by (simp add: decode_def HEADER_SIZE_def too_large_iff Let_def)

lemma decode_partial:
  assumes "frame_ok p" and "strict_prefix b (encode p)"
  shows "decode b = NeedMore"
proof (cases "length b < 4")
  case False
  have l: "length p < 2 ^ 32" using assms(1) by (simp add: frame_ok_def)
  from assms(2) obtain c where c: "encode p = b @ c" "c \<noteq> []"
    by (auto simp: strict_prefix_def prefix_def)
  have "readU32LE b = readU32LE (b @ c)" using False by simp
  also have "\<dots> = of_nat (length p)" by (simp add: encode_short [OF l] flip: c(1))
  finally have n: "readU32LE b = of_nat (length p)" .
  have "length b < length (encode p)" using c by simp
  then show ?thesis using False n l assms(1) length_encode [OF l]
    by (intro decode_header [of b "of_nat (length p)"]) (simp_all add: unat_length_u32 frame_ok_def)
qed (simp add: decode_def HEADER_SIZE_def)

interpretation frame: codec encode decode_frame frame_ok
  by unfold_locales
     (simp_all add: decode_frame_def decode_encode decode_partial, simp add: decode_def HEADER_SIZE_def)

end
