(* ===== verification/Redis.thy ===== *)
theory Redis
  imports Framer Json HashMap
begin

text \<open>
  \<open>RedisClient.cpp\<close>: the RESP client over one socket, and the pool of connections. The
  Redis server is not part of the repository; what the system calls of one command answer
  is an argument: whether connecting succeeds, how many bytes \<open>send\<close> takes, and the network
  events that follow the request. A connection keeps what its socket will still deliver, so
  a reply that is not read to its end is met by the next command.
\<close>

record conn_answer =
  ca_socket :: bool
  ca_pton :: bool
  ca_connect :: bool

record cmd_answer =
  ra_conn :: conn_answer
  ra_sent :: int
  ra_reply :: "rx list"

record redis_conn =
  rc_open :: bool \<comment> \<open>\<open>m_socketFd >= 0\<close>\<close>
  rc_in :: "rx list"
  rc_out :: string

definition new_conn :: redis_conn where
  "new_conn = \<lparr>rc_open = False, rc_in = [], rc_out = []\<rparr>"

definition disconnect :: "redis_conn \<Rightarrow> redis_conn" where
  "disconnect c = c\<lparr>rc_open := False, rc_in := []\<rparr>"

definition redis_connect :: "conn_answer \<Rightarrow> redis_conn \<Rightarrow> bool \<times> redis_conn" where
  "redis_connect a c =
     (if rc_open c then (True, c)
      else if \<not> ca_socket a then (False, c)
      else if \<not> ca_pton a then (False, disconnect c)
      else if \<not> ca_connect a then (False, disconnect c)
      else (True, c\<lparr>rc_open := True, rc_in := [], rc_out := []\<rparr>))"

section \<open>Requests and replies\<close>

definition resp_bulk :: "string \<Rightarrow> string" where
  "resp_bulk arg = ''$'' @ nat_str (length arg) @ [CR, LF] @ arg @ [CR, LF]"

definition resp_encode :: "string list \<Rightarrow> string" where
  "resp_encode args = ''*'' @ nat_str (length args) @ [CR, LF] @ concat (map resp_bulk args)"

definition sendCommand :: "cmd_answer \<Rightarrow> string list \<Rightarrow> redis_conn \<Rightarrow> bool \<times> redis_conn" where
  "sendCommand a args c =
     (case redis_connect (ra_conn a) c of
        (False, c1) \<Rightarrow> (False, c1)
      | (True, c1) \<Rightarrow>
          let wire = resp_encode args in
          if ra_sent a = int (length wire)
          then (True, c1\<lparr>rc_out := rc_out c1 @ wire, rc_in := rc_in c1 @ ra_reply a\<rparr>)
          else (False, disconnect c1))"

text \<open>One character at a time, up to CR LF; \<open>None\<close> where the code disconnects.\<close>

definition recv_char :: "rx list \<Rightarrow> char option \<times> rx list" where
  "recv_char q = (case recv 1 q of (Some (b # _), q1) \<Rightarrow> (Some (char_of (unat b)), q1)
                  | (_, q1) \<Rightarrow> (None, q1))"

lemma recv_char_progress:
  assumes "(Some ch, q1) = recv_char q"
  shows "rx_bytes q = of_char ch # rx_bytes q1"
proof -
  obtain b bs where r: "recv 1 q = (Some (b # bs), q1)" and ch: "ch = char_of (unat b)"
    using assms by (auto simp: recv_char_def split: prod.splits option.splits list.splits)
  have "(of_char ch :: u8) = of_nat (of_char ch)" by (rule of_nat_of_char [symmetric])
  also have "of_char ch = unat b mod 256" by (simp add: ch)
  also have "unat b mod 256 = unat b" using unsigned_less [of b, where 'a = nat] by simp
  finally show ?thesis using recv_SomeD(2,3) [OF r] by simp
qed

function readLine_loop :: "string \<Rightarrow> rx list \<Rightarrow> string option \<times> rx list" where
  "readLine_loop line q = (case recv_char q of
       (None, q1) \<Rightarrow> (None, q1)
     | (Some ch, q1) \<Rightarrow>
         if ch = CR
         then (case recv_char q1 of
                 (None, q2) \<Rightarrow> (None, q2)
               | (Some nxt, q2) \<Rightarrow> if nxt \<noteq> LF then (None, q2) else (Some line, q2))
         else readLine_loop (line @ [ch]) q1)"
  by pat_completeness auto
termination
  by (relation "measure (\<lambda>(line, q). length (rx_bytes q))") (auto dest: recv_char_progress)

declare readLine_loop.simps [simp del]

definition readLine :: "redis_conn \<Rightarrow> string option \<times> redis_conn" where
  "readLine c = (case readLine_loop [] (rc_in c) of
       (None, q) \<Rightarrow> (None, disconnect c)
     | (Some l, q) \<Rightarrow> (Some l, c\<lparr>rc_in := q\<rparr>))"

text \<open>\<open>std::stoi\<close>.\<close>

definition is_space :: "char \<Rightarrow> bool" where
  "is_space c \<longleftrightarrow> (of_char c :: nat) = 32 \<or> (9 \<le> (of_char c :: nat) \<and> (of_char c :: nat) \<le> 13)"

definition stoi :: "string \<Rightarrow> int exc" where
  "stoi s =
     (let s1 = dropWhile is_space s;
          (neg, s2) = (case s1 of
              [] \<Rightarrow> (False, [])
            | h # t \<Rightarrow> if h = CHR ''-'' then (True, t) else if h = CHR ''+'' then (False, t)
                       else (False, h # t));
          ds = takeWhile is_digit s2;
          v = (if neg then - int (digits_val ds) else int (digits_val ds))
      in if ds = [] then Throw ''invalid_argument''
         else if in_i32 v then Ret v else Throw ''out_of_range'')"

text \<open>
  \<open>readBulkString\<close> after the \<open>$\<close>: \<open>Ret None\<close> where it returns false. An unreadable length
  throws and leaves the connection open; the two bytes after the payload are not compared
  with CR LF.
\<close>

definition readBulkString :: "redis_conn \<Rightarrow> string option exc \<times> redis_conn" where
  "readBulkString c = (case readLine c of
       (None, c1) \<Rightarrow> (Ret None, c1)
     | (Some lenStr, c1) \<Rightarrow> (case stoi lenStr of
          Throw e \<Rightarrow> (Throw e, c1)
        | Ret len \<Rightarrow>
            if len < 0 then (Ret None, c1)
            else (case readExact (nat len) (rc_in c1) of
               (None, q) \<Rightarrow> (Ret None, disconnect c1)
             | (Some bs, q) \<Rightarrow> (case readExact 2 q of
                  (None, q') \<Rightarrow> (Ret None, disconnect c1)
                | (Some _, q') \<Rightarrow> (Ret (Some (string_of bs)), c1\<lparr>rc_in := q'\<rparr>)))))"

section \<open>Commands\<close>

definition line_command :: "(string \<Rightarrow> bool) \<Rightarrow> cmd_answer \<Rightarrow> string list \<Rightarrow> redis_conn \<Rightarrow> bool \<times> redis_conn" where
  "line_command good a args c = (case sendCommand a args c of
       (False, c1) \<Rightarrow> (False, c1)
     | (True, c1) \<Rightarrow> (case readLine c1 of
          (None, c2) \<Rightarrow> (False, c2)
        | (Some l, c2) \<Rightarrow> (good l, c2)))"

definition redis_ping :: "cmd_answer \<Rightarrow> redis_conn \<Rightarrow> bool \<times> redis_conn" where
  "redis_ping a c = line_command (\<lambda>l. l = ''+PONG'' \<or> l = ''PONG'') a [''PING''] c"

definition redis_set :: "cmd_answer \<Rightarrow> string \<Rightarrow> string \<Rightarrow> int \<Rightarrow> redis_conn \<Rightarrow> bool \<times> redis_conn" where
  "redis_set a key val expire c =
     (let args = [''SET'', key, val] @ (if 0 < expire then [''EX'', int_str expire] else [])
      in line_command (\<lambda>l. l = ''+OK'' \<or> l = ''OK'') a args c)"

definition redis_del :: "cmd_answer \<Rightarrow> string \<Rightarrow> redis_conn \<Rightarrow> bool \<times> redis_conn" where
  "redis_del a key c = line_command (\<lambda>l. True) a [''DEL'', key] c"

definition redis_hset ::
    "cmd_answer \<Rightarrow> string \<Rightarrow> string \<Rightarrow> string \<Rightarrow> redis_conn \<Rightarrow> bool \<times> redis_conn" where
  "redis_hset a key field val c = line_command (\<lambda>l. True) a [''HSET'', key, field, val] c"

definition bulk_command ::
    "cmd_answer \<Rightarrow> string list \<Rightarrow> redis_conn \<Rightarrow> string option exc \<times> redis_conn" where
  "bulk_command a args c = (case sendCommand a args c of
       (False, c1) \<Rightarrow> (Ret None, c1)
     | (True, c1) \<Rightarrow> (case recv_char (rc_in c1) of
          (None, q) \<Rightarrow> (Ret None, disconnect c1)
        | (Some ty, q) \<Rightarrow>
            let c2 = c1\<lparr>rc_in := q\<rparr> in
            if ty = CHR ''$'' then readBulkString c2
            else (Ret None, snd (readLine c2))))"

definition redis_get :: "cmd_answer \<Rightarrow> string \<Rightarrow> redis_conn \<Rightarrow> string option exc \<times> redis_conn" where
  "redis_get a key c = bulk_command a [''GET'', key] c"

definition redis_hget ::
    "cmd_answer \<Rightarrow> string \<Rightarrow> string \<Rightarrow> redis_conn \<Rightarrow> string option exc \<times> redis_conn" where
  "redis_hget a key field c = bulk_command a [''HGET'', key, field] c"

text \<open>
  \<open>HGETALL\<close>: the number of bulk strings, then fields and values in turn. Inside of the loop a
  failing \<open>recv\<close> does not disconnect, and the type bytes are not looked at.
\<close>

fun hgetall_loop ::
    "nat \<Rightarrow> (string, string) hmap \<Rightarrow> redis_conn \<Rightarrow> (bool \<times> (string, string) hmap) exc \<times> redis_conn" where
  "hgetall_loop 0 outMap c = (Ret (True, outMap), c)"
| "hgetall_loop (Suc n) outMap c = (case recv_char (rc_in c) of
       (None, q) \<Rightarrow> (Ret (False, outMap), c\<lparr>rc_in := q\<rparr>)
     | (Some kType, q) \<Rightarrow> (case readBulkString (c\<lparr>rc_in := q\<rparr>) of
          (Throw e, c1) \<Rightarrow> (Throw e, c1)
        | (Ret None, c1) \<Rightarrow> (Ret (False, outMap), c1)
        | (Ret (Some k), c1) \<Rightarrow> (case recv_char (rc_in c1) of
             (None, q1) \<Rightarrow> (Ret (False, outMap), c1\<lparr>rc_in := q1\<rparr>)
           | (Some vType, q1) \<Rightarrow> (case readBulkString (c1\<lparr>rc_in := q1\<rparr>) of
                (Throw e, c2) \<Rightarrow> (Throw e, c2)
              | (Ret None, c2) \<Rightarrow> (Ret (False, outMap), c2)
              | (Ret (Some v), c2) \<Rightarrow> hgetall_loop n (hm_assign k v outMap) c2))))"

definition redis_hgetall ::
    "cmd_answer \<Rightarrow> string \<Rightarrow> redis_conn \<Rightarrow> (bool \<times> (string, string) hmap) exc \<times> redis_conn" where
  "redis_hgetall a key c = (case sendCommand a [''HGETALL'', key] c of
       (False, c1) \<Rightarrow> (Ret (False, []), c1)
     | (True, c1) \<Rightarrow> (case recv_char (rc_in c1) of
          (None, q) \<Rightarrow> (Ret (False, []), disconnect c1)
        | (Some ty, q) \<Rightarrow>
            let c2 = c1\<lparr>rc_in := q\<rparr> in
            if ty \<noteq> CHR ''*'' then (Ret (False, []), snd (readLine c2))
            else (case readLine c2 of
               (None, c3) \<Rightarrow> (Ret (False, []), c3)
             | (Some countStr, c3) \<Rightarrow> (case stoi countStr of
                  Throw e \<Rightarrow> (Throw e, c3)
                | Ret count \<Rightarrow>
                    if count \<le> 0 then (Ret (True, []), c3)
                    else hgetall_loop (nat ((count + 1) div 2)) [] c3))))"

section \<open>Pool\<close>

record redis_pool =
  pl_available :: "redis_conn list"
  pl_size :: nat

text \<open>The connection at the back of the vector, or a new one; a failed connect is not reported.\<close>

definition acquire :: "conn_answer \<Rightarrow> redis_pool \<Rightarrow> redis_conn \<times> redis_pool" where
  "acquire a p =
     (let (c, p1) = (if pl_available p = [] then (new_conn, p)
                     else (last (pl_available p), p\<lparr>pl_available := butlast (pl_available p)\<rparr>));
          c1 = (if rc_open c then c else snd (redis_connect a c))
      in (c1, p1))"

definition release :: "redis_conn \<Rightarrow> redis_pool \<Rightarrow> redis_pool" where
  "release c p = (if length (pl_available p) < pl_size p
     then p\<lparr>pl_available := pl_available p @ [c]\<rparr> else p)"

record pool_answer =
  pa_acquire :: conn_answer
  pa_cmd :: cmd_answer

text \<open>One command on a pooled connection; the destructor returns it on every path.\<close>

definition with_pooled ::
    "pool_answer \<Rightarrow> (cmd_answer \<Rightarrow> redis_conn \<Rightarrow> 'r \<times> redis_conn) \<Rightarrow> redis_pool \<Rightarrow> 'r \<times> redis_pool" where
  "with_pooled a f p = (case acquire (pa_acquire a) p of
       (c, p1) \<Rightarrow> (case f (pa_cmd a) c of (r, c1) \<Rightarrow> (r, release c1 p1)))"

definition isAvailable :: "pool_answer \<Rightarrow> redis_pool \<Rightarrow> bool \<times> redis_pool" where
  "isAvailable a p = with_pooled a redis_ping p"

end
