(* ===== verification/RedisProps.thy ===== *)
theory RedisProps
  imports Redis
begin

text \<open>
  The RESP client is correct against the protocol: requests are self-delimiting whatever the
  arguments contain, a well-formed reply is read to its last byte whatever the segmentation,
  and the pool stays within its size.
\<close>

section \<open>Requests\<close>

lemma takeWhile_nat_str [simp]: "\<not> is_digit c \<Longrightarrow> takeWhile is_digit (nat_str n @ c # r) = nat_str n"
  using nat_str_digits [of n] by (simp add: takeWhile_append2)

lemma dropWhile_nat_str [simp]: "\<not> is_digit c \<Longrightarrow> dropWhile is_digit (nat_str n @ c # r) = c # r"
  using nat_str_digits [of n] by (simp add: dropWhile_append2)

text \<open>How the protocol reads a bulk string.\<close>

definition resp_read_bulk :: "string \<Rightarrow> (string \<times> string) option" where
  "resp_read_bulk b = (case b of
       [] \<Rightarrow> None
     | d # t \<Rightarrow>
         let ds = takeWhile is_digit t; t1 = dropWhile is_digit t; n = digits_val ds
         in if d = CHR ''$'' \<and> take 2 t1 = [CR, LF] \<and> take 2 (drop (2 + n) t1) = [CR, LF]
            then Some (take n (drop 2 t1), drop (4 + n) t1) else None)"

lemma resp_read_bulk_enc: "resp_read_bulk (resp_bulk a @ r) = Some (a, r)"
  by (simp add: resp_read_bulk_def resp_bulk_def Let_def add.commute [of 4] numeral_eq_Suc)

lemma take2_eqD: "take 2 t = [a, b] \<Longrightarrow> \<exists>u. t = a # b # u"
  by (cases t; cases "tl t") (auto simp: numeral_2_eq_2)

lemma resp_read_bulkD:
  assumes "resp_read_bulk b = Some (q, r)"
  obtains ds where "b = CHR ''$'' # ds @ [CR, LF] @ q @ [CR, LF] @ r"
    and "\<forall>c \<in> set ds. is_digit c" and "digits_val ds = length q"
proof -
  obtain t where b: "b = CHR ''$'' # t" using assms
    by (auto simp: resp_read_bulk_def Let_def split: list.splits if_splits)
  define ds t1 n where "ds = takeWhile is_digit t" and "t1 = dropWhile is_digit t"
    and "n = digits_val ds"
  have *: "take 2 t1 = [CR, LF]" "take 2 (drop (2 + n) t1) = [CR, LF]"
    "q = take n (drop 2 t1)" "r = drop (4 + n) t1"
    using assms by (auto simp: resp_read_bulk_def b ds_def t1_def n_def Let_def split: if_splits)
  obtain u where u: "t1 = CR # LF # u" using take2_eqD [OF *(1)] by blast
  obtain v where v: "drop n u = CR # LF # v" using take2_eqD [of "drop n u"] *(2) u by auto
  have "r = v" using v *(4) u by (metis add.commute drop_drop drop_Suc_Cons drop0 numeral_2_eq_2
      add_2_eq_Suc' numeral_Bit0 add.assoc add_Suc_shift)
  moreover have "n \<le> length u" using v by (metis drop_all list.distinct(1) nat_le_linear)
  ultimately have "t = ds @ [CR, LF] @ q @ [CR, LF] @ r" "length q = n"
    using u v *(3) append_take_drop_id [of n u] takeWhile_dropWhile_id [of is_digit t]
    by (simp_all add: ds_def t1_def numeral_2_eq_2)
  then show thesis using that [of ds] b set_takeWhileD
    by (metis append_Cons ds_def n_def)
qed

lemma resp_read_bulk_partial:
  assumes "strict_prefix b (resp_bulk a)" shows "resp_read_bulk b = None"
proof (rule ccontr)
  assume "resp_read_bulk b \<noteq> None"
  then obtain q r where "resp_read_bulk b = Some (q, r)" by auto
  then obtain ds where b: "b = CHR ''$'' # ds @ [CR, LF] @ q @ [CR, LF] @ r"
    and ds: "\<forall>c \<in> set ds. is_digit c" "digits_val ds = length q" by (rule resp_read_bulkD)
  obtain c where c: "resp_bulk a = b @ c" "c \<noteq> []"
    using assms by (auto simp: strict_prefix_def prefix_def)
  have "takeWhile is_digit (tl (resp_bulk a)) = nat_str (length a)" by (simp add: resp_bulk_def)
  moreover have "takeWhile is_digit (tl (b @ c)) = ds" using ds(1) by (simp add: b takeWhile_append2)
  ultimately have "ds = nat_str (length a)" using c(1) by simp
  then have "length q = length a" using ds(2) by simp
  then have "length (resp_bulk a) \<le> length b" using \<open>ds = _\<close> by (simp add: b resp_bulk_def)
  then show False using c by simp
qed

interpretation bulk: codec resp_bulk resp_read_bulk "\<lambda>a. True"
  by unfold_locales
     (simp_all add: resp_read_bulk_enc resp_read_bulk_partial, simp add: resp_read_bulk_def)

lemma bulk_concat_unique_rest:
  "length xs = length ys \<Longrightarrow> concat (map resp_bulk xs) @ r = concat (map resp_bulk ys) @ s \<Longrightarrow>
     xs = ys \<and> r = s"
proof (induction xs arbitrary: ys)
  case (Cons x xs)
  then obtain y ys' where ys: "ys = y # ys'" by (cases ys) auto
  then have "resp_bulk x @ (concat (map resp_bulk xs) @ r) = resp_bulk y @ (concat (map resp_bulk ys') @ s)"
    using Cons.prems by simp
  then have "x = y \<and> concat (map resp_bulk xs) @ r = concat (map resp_bulk ys') @ s"
    using bulk.enc_inj by blast
  then show ?case using Cons.prems Cons.IH [of ys'] ys by simp
qed simp

lemma resp_encode_unique:
  assumes "resp_encode xs @ r = resp_encode ys @ s" shows "xs = ys \<and> r = s"
proof -
  have "takeWhile is_digit (tl (resp_encode zs @ t)) = nat_str (length zs)" for zs t
    by (simp add: resp_encode_def)
  then have "nat_str (length xs) = nat_str (length ys)" using assms by metis
  then show ?thesis using assms bulk_concat_unique_rest [of xs ys r s]
    by (simp add: resp_encode_def)
qed

section \<open>Replies\<close>

text \<open>Events that only deliver data.\<close>

definition rx_pure :: "rx list \<Rightarrow> bool" where
  "rx_pure q \<longleftrightarrow> (\<forall>e \<in> set q. \<exists>bs. e = RxData bs \<and> bs \<noteq> [])"

lemma rx_pure_empty: "rx_pure q \<Longrightarrow> rx_bytes q = [] \<Longrightarrow> q = []"
  by (cases q) (auto simp: rx_pure_def)

lemma recv_pure: "rx_pure q \<Longrightarrow> recv n q = (r, q') \<Longrightarrow> rx_pure q'"
  by (induction n q rule: recv.induct) (auto simp: rx_pure_def split: if_splits)

lemma readExact_pure: "rx_pure q \<Longrightarrow> readExact n q = (r, q') \<Longrightarrow> rx_pure q'"
proof (induction n q arbitrary: r q' rule: readExact.induct)
  case (1 n q)
  obtain r1 q1 where q1: "recv n q = (r1, q1)" by fastforce
  then have p: "rx_pure q1" using 1(2) recv_pure by blast
  show ?case
  proof (cases "n = 0 \<or> r1 = None")
    case True
    then show ?thesis using 1(2,3) q1 p by (auto simp: readExact.simps [of n q] split: if_splits)
  next
    case False
    then obtain bs where Some: "r1 = Some bs" "n \<noteq> 0" by auto
    obtain r2 q2 where q2: "readExact (n - length bs) q1 = (r2, q2)" by fastforce
    have "rx_pure q2" using "1.IH" q1 q2 Some p by metis
    then show ?thesis using 1(3) q1 q2 Some
      by (auto simp: readExact.simps [of n q] split: option.splits)
  qed
qed

text \<open>Reading one character, one line: what is left is what was behind it.\<close>

definition consumed :: "rx list \<Rightarrow> rx list \<Rightarrow> u8 list \<Rightarrow> bool" where
  "consumed q q' r \<longleftrightarrow> rx_bytes q' = r \<and> (rx_pure q \<longrightarrow> rx_pure q')"

lemma consumed_trans: "consumed q q1 r1 \<Longrightarrow> consumed q1 q2 r2 \<Longrightarrow> consumed q q2 r2"
  by (simp add: consumed_def)

lemma recv_char_Cons:
  assumes "rx_bytes q = of_char ch # r"
  obtains q' where "recv_char q = (Some ch, q')" and "consumed q q' r"
proof -
  obtain bs q1 where r: "recv 1 q = (Some bs, q1)"
    using recv_NoneD [of 1 q] assms by (cases "recv 1 q") auto
  have "bs \<noteq> []" "length bs \<le> 1" "rx_bytes q = bs @ rx_bytes q1" using recv_SomeD [OF r] by simp_all
  then have "bs = [of_char ch]" "rx_bytes q1 = r" using assms by (cases bs; simp)+
  then show thesis using that [of q1] r recv_pure [of q 1 "Some bs" q1]
    by (simp add: recv_char_def consumed_def)
qed

lemma readLine_loop_line:
  assumes "rx_bytes q = bytes_of (l @ [CR, LF]) @ r" and "CR \<notin> set l"
  obtains q' where "readLine_loop acc q = (Some (acc @ l), q')" and "consumed q q' r"
  using assms
proof (induction l arbitrary: acc q thesis)
  case Nil
  from Nil(2) have "rx_bytes q = of_char CR # of_char LF # r" by (simp add: bytes_of_def)
  then obtain q1 where q1: "recv_char q = (Some CR, q1)" "consumed q q1 (of_char LF # r)"
    by (rule recv_char_Cons)
  then have "rx_bytes q1 = of_char LF # r" by (simp add: consumed_def)
  then obtain q2 where q2: "recv_char q1 = (Some LF, q2)" "consumed q1 q2 r" by (rule recv_char_Cons)
  show ?case
    by (rule Nil(1) [of q2])
       (use q1 q2 consumed_trans in \<open>auto simp: readLine_loop.simps [of acc q]\<close>)
next
  case (Cons c l)
  from Cons(3) have "rx_bytes q = of_char c # (bytes_of (l @ [CR, LF]) @ r)" by (simp add: bytes_of_def)
  then obtain q1 where q1: "recv_char q = (Some c, q1)" "consumed q q1 (bytes_of (l @ [CR, LF]) @ r)"
    by (rule recv_char_Cons)
  then have "rx_bytes q1 = bytes_of (l @ [CR, LF]) @ r" by (simp add: consumed_def)
  moreover have "CR \<notin> set l" "c \<noteq> CR" using Cons(4) by auto
  ultimately obtain q2 where q2: "readLine_loop (acc @ [c]) q1 = (Some ((acc @ [c]) @ l), q2)"
    "consumed q1 q2 r"
    using Cons.IH [where q = q1 and acc = "acc @ [c]"] by blast
  show ?case
    by (rule Cons(2) [of q2])
       (use q1 q2 \<open>c \<noteq> CR\<close> consumed_trans in \<open>auto simp: readLine_loop.simps [of acc q]\<close>)
qed

lemma readLine_line:
  assumes "rx_bytes (rc_in c) = bytes_of (l @ [CR, LF]) @ r" and "CR \<notin> set l"
  obtains q where "readLine c = (Some l, c\<lparr>rc_in := q\<rparr>)" and "consumed (rc_in c) q r"
proof -
  obtain q where "readLine_loop [] (rc_in c) = (Some ([] @ l), q)" "consumed (rc_in c) q r"
    using assms by (rule readLine_loop_line)
  then show thesis using that by (simp add: readLine_def)
qed

lemma CR_not_in_nat_str [simp]: "CR \<notin> set (nat_str n)"
  using nat_str_digits [of n] by auto

lemma digit_no_space: "is_digit c \<Longrightarrow> \<not> is_space c \<and> c \<noteq> CHR ''-'' \<and> c \<noteq> CHR ''+''"
  by (auto simp: is_digit_def is_space_def)

lemma stoi_nat_str: "n < 2 ^ 31 \<Longrightarrow> stoi (nat_str n) = Ret (int n)"
proof -
  assume n: "n < 2 ^ 31"
  obtain d ds where ds: "nat_str n = d # ds" by (cases "nat_str n") simp_all
  then have "is_digit d" "takeWhile is_digit (nat_str n) = nat_str n"
    using nat_str_digits [of n] by auto
  then have "dropWhile is_space (nat_str n) = d # ds" "takeWhile is_digit (d # ds) = nat_str n"
    "d \<noteq> CHR ''-''" "d \<noteq> CHR ''+''" "digits_val (d # ds) = n"
    using digit_no_space [of d] ds digits_val_nat_str [of n] by simp_all
  then show ?thesis using n ds by (simp add: stoi_def in_i32_def Let_def)
qed

lemma readBulkString_value:
  assumes "rx_bytes (rc_in c) = bytes_of (nat_str (length v) @ [CR, LF] @ v @ [CR, LF]) @ r"
    and "length v < 2 ^ 31"
  obtains q where "readBulkString c = (Ret (Some v), c\<lparr>rc_in := q\<rparr>)" and "consumed (rc_in c) q r"
proof -
  have "rx_bytes (rc_in c) = bytes_of (nat_str (length v) @ [CR, LF]) @ (bytes_of (v @ [CR, LF]) @ r)"
    using assms(1) by (simp add: bytes_of_def)
  then obtain q1 where q1: "readLine c = (Some (nat_str (length v)), c\<lparr>rc_in := q1\<rparr>)"
    "consumed (rc_in c) q1 (bytes_of (v @ [CR, LF]) @ r)"
    by (rule readLine_line) simp
  obtain q2 where q2: "readExact (length v) q1 = (Some (bytes_of v), q2)"
    "rx_bytes q2 = bytes_of [CR, LF] @ r"
    using readExact_enough [of "length v" q1] q1(2) by (auto simp: bytes_of_def consumed_def)
  obtain q3 where q3: "readExact 2 q2 = (Some (bytes_of [CR, LF]), q3)" "rx_bytes q3 = r"
    using readExact_enough [of 2 q2] q2(2) by (auto simp: bytes_of_def numeral_2_eq_2)
  show thesis
  proof (rule that [of q3])
    show "readBulkString c = (Ret (Some v), c\<lparr>rc_in := q3\<rparr>)"
      using q1 q2 q3 assms(2) by (simp add: readBulkString_def stoi_nat_str)
    show "consumed (rc_in c) q3 r"
      using q1(2) q3(2) readExact_pure [OF _ q2(1)] readExact_pure [OF _ q3(1)]
      by (auto simp: consumed_def)
  qed
qed

text \<open>A connection in step with the server: open, and nothing left to read.\<close>

definition in_step :: "redis_conn \<Rightarrow> bool" where
  "in_step c \<longleftrightarrow> rc_open c \<and> rc_in c = []"

lemma sendCommand_in_step:
  assumes "in_step c" and "ra_sent a = int (length (resp_encode args))"
  shows "sendCommand a args c =
    (True, c\<lparr>rc_out := rc_out c @ resp_encode args, rc_in := ra_reply a\<rparr>)"
  using assms by (simp add: sendCommand_def redis_connect_def in_step_def)

text \<open>
  A complete reply: the events only deliver data, and the data is exactly one reply. The
  request was taken whole by the socket.
\<close>

definition replies :: "cmd_answer \<Rightarrow> string list \<Rightarrow> string \<Rightarrow> bool" where
  "replies a args reply \<longleftrightarrow> ra_sent a = int (length (resp_encode args)) \<and> rx_pure (ra_reply a) \<and>
     rx_bytes (ra_reply a) = bytes_of reply"

lemma consumed_all: "consumed q q' [] \<Longrightarrow> rx_pure q \<Longrightarrow> q' = []"
  by (simp add: consumed_def rx_pure_empty)

lemma line_command_reply:
  assumes "in_step c" and "replies a args (l @ [CR, LF])" and "CR \<notin> set l"
  shows "line_command good a args c = (good l, c\<lparr>rc_out := rc_out c @ resp_encode args\<rparr>)"
proof -
  define c1 where "c1 = c\<lparr>rc_out := rc_out c @ resp_encode args, rc_in := ra_reply a\<rparr>"
  have "rx_bytes (rc_in c1) = bytes_of (l @ [CR, LF]) @ []" "rx_pure (rc_in c1)"
    using assms(2) by (simp_all add: replies_def c1_def)
  then obtain q where q: "readLine c1 = (Some l, c1\<lparr>rc_in := q\<rparr>)" "q = []"
    using assms(3) consumed_all by (metis readLine_line)
  show ?thesis using sendCommand_in_step [OF assms(1)] assms(1,2) q
    by (simp add: line_command_def replies_def c1_def in_step_def)
qed

text \<open>A bulk string with its type byte in front.\<close>

lemma bulk_value:
  assumes "rx_bytes (rc_in c) = bytes_of (resp_bulk v) @ r" and "length v < 2 ^ 31"
  obtains q1 q where "recv_char (rc_in c) = (Some (CHR ''$''), q1)"
    and "readBulkString (c\<lparr>rc_in := q1\<rparr>) = (Ret (Some v), c\<lparr>rc_in := q\<rparr>)" and "consumed (rc_in c) q r"
proof -
  let ?rest = "nat_str (length v) @ [CR, LF] @ v @ [CR, LF]"
  have "rx_bytes (rc_in c) = of_char (CHR ''$'') # (bytes_of ?rest @ r)"
    using assms(1) by (simp add: resp_bulk_def bytes_of_def)
  then obtain q1 where q1: "recv_char (rc_in c) = (Some (CHR ''$''), q1)"
    "consumed (rc_in c) q1 (bytes_of ?rest @ r)" by (rule recv_char_Cons)
  then have "rx_bytes (rc_in (c\<lparr>rc_in := q1\<rparr>)) = bytes_of ?rest @ r" by (simp add: consumed_def)
  then obtain q where "readBulkString (c\<lparr>rc_in := q1\<rparr>) = (Ret (Some v), c\<lparr>rc_in := q\<rparr>)"
    "consumed q1 q r" using assms(2) by (rule readBulkString_value) auto
  then show thesis using that q1 consumed_trans by blast
qed

lemma bulk_command_reply:
  assumes "in_step c" and "replies a args (resp_bulk v)" and "length v < 2 ^ 31"
  shows "bulk_command a args c = (Ret (Some v), c\<lparr>rc_out := rc_out c @ resp_encode args\<rparr>)"
proof -
  define c1 where "c1 = c\<lparr>rc_out := rc_out c @ resp_encode args, rc_in := ra_reply a\<rparr>"
  have p: "rx_pure (rc_in c1)" and "rx_bytes (rc_in c1) = bytes_of (resp_bulk v) @ []"
    using assms(2) by (simp_all add: replies_def c1_def)
  then obtain q1 q2 where "recv_char (rc_in c1) = (Some (CHR ''$''), q1)"
    "readBulkString (c1\<lparr>rc_in := q1\<rparr>) = (Ret (Some v), c1\<lparr>rc_in := q2\<rparr>)" "consumed (rc_in c1) q2 []"
    using assms(3) by (metis bulk_value)
  moreover have "q2 = []" by (rule consumed_all [OF calculation(3) p])
  ultimately show ?thesis using sendCommand_in_step [OF assms(1)] assms(1,2)
    by (simp add: bulk_command_def replies_def c1_def in_step_def Let_def)
qed

text \<open>A hash: the number of strings, then each field and its value.\<close>

definition resp_pairs :: "(string \<times> string) list \<Rightarrow> string" where
  "resp_pairs fs = concat (map (\<lambda>(k, v). resp_bulk k @ resp_bulk v) fs)"

definition resp_hash :: "(string \<times> string) list \<Rightarrow> string" where
  "resp_hash fs = ''*'' @ nat_str (2 * length fs) @ [CR, LF] @ resp_pairs fs"

definition fields_fit :: "(string \<times> string) list \<Rightarrow> bool" where
  "fields_fit fs \<longleftrightarrow> 2 * length fs < 2 ^ 31 \<and> (\<forall>(k, v) \<in> set fs. length k < 2 ^ 31 \<and> length v < 2 ^ 31)"

lemma hgetall_loop_reads:
  "rx_bytes (rc_in c) = bytes_of (resp_pairs fs) @ r \<Longrightarrow>
     \<forall>(k, v) \<in> set fs. length k < 2 ^ 31 \<and> length v < 2 ^ 31 \<Longrightarrow>
     \<exists>q. hgetall_loop (length fs) m c = (Ret (True, foldl (\<lambda>m (k, v). hm_assign k v m) m fs), c\<lparr>rc_in := q\<rparr>) \<and>
         consumed (rc_in c) q r"
proof (induction fs arbitrary: m c)
  case Nil
  then show ?case by (intro exI [of _ "rc_in c"]) (simp add: resp_pairs_def consumed_def bytes_of_def)
next
  case (Cons f fs)
  obtain k v where f: "f = (k, v)" by fastforce
  have "rx_bytes (rc_in c) = bytes_of (resp_bulk k) @ (bytes_of (resp_bulk v) @ bytes_of (resp_pairs fs) @ r)"
    using Cons.prems(1) by (simp add: resp_pairs_def f)
  then obtain q1 q2 where k: "recv_char (rc_in c) = (Some (CHR ''$''), q1)"
    "readBulkString (c\<lparr>rc_in := q1\<rparr>) = (Ret (Some k), c\<lparr>rc_in := q2\<rparr>)"
    "consumed (rc_in c) q2 (bytes_of (resp_bulk v) @ bytes_of (resp_pairs fs) @ r)"
    using Cons.prems(2) f by (elim bulk_value) auto
  define c2 where "c2 = c\<lparr>rc_in := q2\<rparr>"
  have "rx_bytes (rc_in c2) = bytes_of (resp_bulk v) @ (bytes_of (resp_pairs fs) @ r)"
    using k(3) by (simp add: c2_def consumed_def)
  then obtain q3 q4 where v: "recv_char (rc_in c2) = (Some (CHR ''$''), q3)"
    "readBulkString (c2\<lparr>rc_in := q3\<rparr>) = (Ret (Some v), c2\<lparr>rc_in := q4\<rparr>)"
    "consumed (rc_in c2) q4 (bytes_of (resp_pairs fs) @ r)"
    using Cons.prems(2) f by (elim bulk_value) auto
  define c4 where "c4 = c2\<lparr>rc_in := q4\<rparr>"
  have "rx_bytes (rc_in c4) = bytes_of (resp_pairs fs) @ r" using v(3) by (simp add: c4_def consumed_def)
  with Cons.IH [of c4 "hm_assign k v m"] Cons.prems(2) obtain q where
    "hgetall_loop (length fs) (hm_assign k v m) c4 =
       (Ret (True, foldl (\<lambda>m (k, v). hm_assign k v m) (hm_assign k v m) fs), c4\<lparr>rc_in := q\<rparr>)"
    "consumed (rc_in c4) q r" by auto
  moreover have "consumed (rc_in c) q r"
    using k(3) v(3) calculation(2) by (simp add: consumed_def c2_def c4_def)
  ultimately show ?case using k v by (auto simp: f c2_def c4_def intro!: exI [of _ q])
qed

lemma map_of_assign_all:
  "distinct (map fst fs) \<Longrightarrow> map_of (foldl (\<lambda>m (k, v). hm_assign k v m) m fs) = map_of m ++ map_of fs"
proof (induction fs arbitrary: m)
  case (Cons f fs)
  then have "map_of fs (fst f) = None" by (simp add: map_of_eq_None_iff)
  with Cons show ?case
    by (cases f) (auto simp: hm_find hm.find_assign map_add_def fun_eq_iff split: option.splits)
qed simp

text \<open>A complete reply gives the hash, and leaves the connection in step.\<close>

lemma hgetall_reply:
  assumes "in_step c" and "replies a [''HGETALL'', key] (resp_hash fs)" and "fields_fit fs"
    and "distinct (map fst fs)"
  shows "\<exists>m. redis_hgetall a key c = (Ret (True, m), c\<lparr>rc_out := rc_out c @ resp_encode [''HGETALL'', key]\<rparr>) \<and>
     map_of m = map_of fs"
proof -
  define c1 where "c1 = c\<lparr>rc_out := rc_out c @ resp_encode [''HGETALL'', key], rc_in := ra_reply a\<rparr>"
  have sent: "sendCommand a [''HGETALL'', key] c = (True, c1)" and p: "rx_pure (rc_in c1)"
    using assms(1,2) by (simp_all add: sendCommand_in_step replies_def c1_def)
  have "rx_bytes (rc_in c1) = of_char (CHR ''*'') # (bytes_of (nat_str (2 * length fs) @ [CR, LF]) @ bytes_of (resp_pairs fs))"
    using assms(2) by (simp add: replies_def c1_def resp_hash_def bytes_of_def)
  then obtain q1 where q1: "recv_char (rc_in c1) = (Some (CHR ''*''), q1)"
    "consumed (rc_in c1) q1 (bytes_of (nat_str (2 * length fs) @ [CR, LF]) @ bytes_of (resp_pairs fs))"
    by (rule recv_char_Cons)
  define c2 where "c2 = c1\<lparr>rc_in := q1\<rparr>"
  have "rx_bytes (rc_in c2) = bytes_of (nat_str (2 * length fs) @ [CR, LF]) @ bytes_of (resp_pairs fs)"
    using q1(2) by (simp add: c2_def consumed_def)
  then obtain q2 where q2: "readLine c2 = (Some (nat_str (2 * length fs)), c2\<lparr>rc_in := q2\<rparr>)"
    "consumed (rc_in c2) q2 (bytes_of (resp_pairs fs))" by (rule readLine_line) simp
  define c3 where "c3 = c2\<lparr>rc_in := q2\<rparr>"
  have c3: "rx_bytes (rc_in c3) = bytes_of (resp_pairs fs) @ []" "rx_pure (rc_in c3)"
    using q1(2) q2(2) p by (simp_all add: c3_def c2_def consumed_def)
  obtain q where q: "hgetall_loop (length fs) [] c3 =
      (Ret (True, foldl (\<lambda>m (k, v). hm_assign k v m) [] fs), c3\<lparr>rc_in := q\<rparr>)" "consumed (rc_in c3) q []"
    using hgetall_loop_reads [OF c3(1)] assms(3) by (auto simp: fields_fit_def)
  have "q = []" by (rule consumed_all [OF q(2) c3(2)])
  then have "c3\<lparr>rc_in := q\<rparr> = c\<lparr>rc_out := rc_out c @ resp_encode [''HGETALL'', key]\<rparr>"
    using assms(1) by (simp add: c3_def c2_def c1_def in_step_def)
  moreover have "redis_hgetall a key c = (Ret (True, foldl (\<lambda>m (k, v). hm_assign k v m) [] fs), c3\<lparr>rc_in := q\<rparr>)"
  proof -
    have "stoi (nat_str (2 * length fs)) = Ret (int (2 * length fs))"
      using assms(3) by (intro stoi_nat_str) (simp add: fields_fit_def)
    moreover have "nat ((int (2 * length fs) + 1) div 2) = length fs" by simp
    moreover have "fs = [] \<Longrightarrow> c3\<lparr>rc_in := q\<rparr> = c3" using q(1) by simp
    ultimately show ?thesis using sent q1(1) q2(1) q(1)
      by (cases "fs = []") (simp_all add: redis_hgetall_def Let_def c3_def flip: c2_def)
  qed
  ultimately show ?thesis using map_of_assign_all [OF assms(4), of "[]"] by simp
qed

text \<open>A server that closes inside of the reply: false, but the connection still counts as open.\<close>

lemma hgetall_keeps_broken:
  "recv_char (rc_in c) = (None, q) \<Longrightarrow> rc_open c \<Longrightarrow>
     fst (hgetall_loop (Suc n) m c) = Ret (False, m) \<and> rc_open (snd (hgetall_loop (Suc n) m c))"
  by simp

text \<open>The reply \<open>$-1\<close> for a missing key.\<close>

lemma bulk_command_missing:
  assumes "in_step c" and "replies a args (''$-1'' @ [CR, LF])"
  shows "bulk_command a args c = (Ret None, c\<lparr>rc_out := rc_out c @ resp_encode args\<rparr>)"
proof -
  define c1 where "c1 = c\<lparr>rc_out := rc_out c @ resp_encode args, rc_in := ra_reply a\<rparr>"
  have p: "rx_pure (rc_in c1)" and
    "rx_bytes (rc_in c1) = of_char (CHR ''$'') # bytes_of (''-1'' @ [CR, LF])"
    using assms(2) by (simp_all add: replies_def c1_def bytes_of_def)
  then obtain q1 where q1: "recv_char (rc_in c1) = (Some (CHR ''$''), q1)"
    "consumed (rc_in c1) q1 (bytes_of (''-1'' @ [CR, LF]))" by (metis recv_char_Cons)
  define c2 where "c2 = c1\<lparr>rc_in := q1\<rparr>"
  have "rx_bytes (rc_in c2) = bytes_of (''-1'' @ [CR, LF]) @ []"
    using q1(2) by (simp add: c2_def consumed_def)
  then obtain q2 where q2: "readLine c2 = (Some ''-1'', c2\<lparr>rc_in := q2\<rparr>)" "consumed (rc_in c2) q2 []"
    by (rule readLine_line) (simp add: CR_def)
  have "q2 = []" by (rule consumed_all [OF consumed_trans [OF q1(2)] p]) (use q2(2) in \<open>simp add: c2_def\<close>)
  moreover have "stoi ''-1'' = Ret (- 1)" by code_simp
  ultimately show ?thesis using sendCommand_in_step [OF assms(1)] assms(1,2) q1(1) q2(1)
    by (simp add: bulk_command_def readBulkString_def replies_def c1_def c2_def in_step_def Let_def)
qed

lemma replies_in_step: "in_step c \<Longrightarrow> in_step (c\<lparr>rc_out := x\<rparr>)"
  by (simp add: in_step_def)

section \<open>Pool\<close>

definition pool_ok :: "redis_pool \<Rightarrow> bool" where
  "pool_ok p \<longleftrightarrow> length (pl_available p) \<le> pl_size p"

lemma acquire_ok: "pool_ok p \<Longrightarrow> acquire a p = (c, p') \<Longrightarrow> pool_ok p' \<and> pl_size p' = pl_size p"
  by (auto simp: pool_ok_def acquire_def Let_def split: if_splits)

lemma release_ok: "pool_ok p \<Longrightarrow> pool_ok (release c p) \<and> pl_size (release c p) = pl_size p"
  by (auto simp: pool_ok_def release_def)

lemma with_pooled_ok:
  "pool_ok p \<Longrightarrow> with_pooled a f p = (r, p') \<Longrightarrow> pool_ok p' \<and> pl_size p' = pl_size p"
  using acquire_ok release_ok by (fastforce simp: with_pooled_def split: prod.splits)

end
