(* ===== verification/Metrics.thy ===== *)
theory Metrics
  imports Json
begin

text \<open>
  \<open>Metrics.cpp\<close>: the counters of the registry. Each counter is an atomic 64-bit integer and
  each update one atomic step; the sum of latencies is added with a compare-exchange loop,
  whose effect is one rounded addition.
\<close>

definition m_latencyBuckets :: "double list" where
  "m_latencyBuckets = map fl [1 / 10000, 1 / 4000, 1 / 2000, 1 / 1000, 1 / 400, 1 / 200, 1 / 100,
     1 / 40, 1 / 20, 1 / 10, 1 / 4, 1 / 2, 1]"

record metrics =
  m_requestsTotal :: u64
  m_successfulRequests :: u64
  m_failedRequests :: u64
  m_activePlayers :: u64 \<comment> \<open>an \<open>int64_t\<close>, read with \<open>sint\<close>\<close>
  m_latencyCount :: u64
  m_latencySumSeconds :: double
  m_latencyBucketCounts :: "u64 list"
  m_redisCacheHits :: u64
  m_redisCacheMisses :: u64
  m_dbOperationsTotal :: u64
  m_dbOperationsSuccess :: u64
  m_dbOperationsFailed :: u64
  m_dbLatencySumSeconds :: double

definition metrics_reset :: metrics where
  "metrics_reset = \<lparr>m_requestsTotal = 0, m_successfulRequests = 0, m_failedRequests = 0,
     m_activePlayers = 0, m_latencyCount = 0, m_latencySumSeconds = 0,
     m_latencyBucketCounts = replicate (length m_latencyBuckets + 1) 0,
     m_redisCacheHits = 0, m_redisCacheMisses = 0, m_dbOperationsTotal = 0,
     m_dbOperationsSuccess = 0, m_dbOperationsFailed = 0, m_dbLatencySumSeconds = 0\<rparr>"

definition incrementRequestsTotal :: "metrics \<Rightarrow> metrics" where
  "incrementRequestsTotal m = m\<lparr>m_requestsTotal := m_requestsTotal m + 1\<rparr>"

definition incrementSuccessfulRequests :: "metrics \<Rightarrow> metrics" where
  "incrementSuccessfulRequests m = m\<lparr>m_successfulRequests := m_successfulRequests m + 1\<rparr>"

definition incrementFailedRequests :: "metrics \<Rightarrow> metrics" where
  "incrementFailedRequests m = m\<lparr>m_failedRequests := m_failedRequests m + 1\<rparr>"

definition setActivePlayers :: "int \<Rightarrow> metrics \<Rightarrow> metrics" where
  "setActivePlayers n m = m\<lparr>m_activePlayers := of_int n\<rparr>"

definition incrementActivePlayers :: "metrics \<Rightarrow> metrics" where
  "incrementActivePlayers m = m\<lparr>m_activePlayers := m_activePlayers m + 1\<rparr>"

definition decrementActivePlayers :: "metrics \<Rightarrow> metrics" where
  "decrementActivePlayers m = m\<lparr>m_activePlayers := m_activePlayers m - 1\<rparr>"

definition incrementRedisCacheHits :: "metrics \<Rightarrow> metrics" where
  "incrementRedisCacheHits m = m\<lparr>m_redisCacheHits := m_redisCacheHits m + 1\<rparr>"

definition incrementRedisCacheMisses :: "metrics \<Rightarrow> metrics" where
  "incrementRedisCacheMisses m = m\<lparr>m_redisCacheMisses := m_redisCacheMisses m + 1\<rparr>"

text \<open>The loop over the bucket bounds, then the \<open>+Inf\<close> bucket at the back.\<close>

fun bump_buckets :: "double \<Rightarrow> double list \<Rightarrow> u64 list \<Rightarrow> u64 list" where
  "bump_buckets sec (b # bs) (c # cs) = (if sec \<le> b then c + 1 else c) # bump_buckets sec bs cs"
| "bump_buckets sec _ cs = cs"

definition recordRequestLatency :: "double \<Rightarrow> metrics \<Rightarrow> metrics" where
  "recordRequestLatency sec m =
     (let counts = bump_buckets sec m_latencyBuckets (m_latencyBucketCounts m)
      in m\<lparr>m_latencyCount := m_latencyCount m + 1,
           m_latencySumSeconds := fadd (m_latencySumSeconds m) sec,
           m_latencyBucketCounts := butlast counts @ [last counts + 1]\<rparr>)"

definition recordDatabaseOperation :: "double \<Rightarrow> bool \<Rightarrow> metrics \<Rightarrow> metrics" where
  "recordDatabaseOperation sec success m =
     (let m1 = m\<lparr>m_dbOperationsTotal := m_dbOperationsTotal m + 1\<rparr>;
          m2 = (if success then m1\<lparr>m_dbOperationsSuccess := m_dbOperationsSuccess m1 + 1\<rparr>
                else m1\<lparr>m_dbOperationsFailed := m_dbOperationsFailed m1 + 1\<rparr>)
      in m2\<lparr>m_dbLatencySumSeconds := fadd (m_dbLatencySumSeconds m2) sec\<rparr>)"

definition metrics_json :: "metrics \<Rightarrow> json" where
  "metrics_json m =
     (let total = m_requestsTotal m; count = m_latencyCount m; sum = m_latencySumSeconds m;
          avgMs = (if 0 < count then fmul (fdiv sum (fl (of_nat (unat count)))) 1000 else 0)
      in json_init [
           kv ''active_players'' (JInt (sint (m_activePlayers m))),
           kv ''requests_total'' (JUInt (unat total)),
           kv ''successful_requests'' (JUInt (unat (m_successfulRequests m))),
           kv ''failed_requests'' (JUInt (unat (m_failedRequests m))),
           kv ''avg_latency_ms'' (JFloat avgMs),
           kv ''redis_cache_hits'' (JUInt (unat (m_redisCacheHits m))),
           kv ''redis_cache_misses'' (JUInt (unat (m_redisCacheMisses m))),
           kv ''database_operations'' (JUInt (unat (m_dbOperationsTotal m)))])"

lemmas metrics_counter_defs = incrementRequestsTotal_def incrementSuccessfulRequests_def
  incrementFailedRequests_def setActivePlayers_def incrementRedisCacheHits_def
  incrementRedisCacheMisses_def recordRequestLatency_def recordDatabaseOperation_def

section \<open>The latency histogram\<close>

definition at_most :: "double \<Rightarrow> double list \<Rightarrow> nat" where
  "at_most b ls = length (filter (\<lambda>s. s \<le> b) ls)"

lemma length_buckets [simp]: "length m_latencyBuckets = 13"
  by (simp add: m_latencyBuckets_def)

lemma length_bump_buckets [simp]: "length (bump_buckets sec bs cs) = length cs"
  by (induction sec bs cs rule: bump_buckets.induct) auto

lemma bump_buckets_map:
  "bump_buckets sec bs (map f bs @ [c]) = map (\<lambda>b. if sec \<le> b then f b + 1 else f b) bs @ [c]"
  by (induction bs) auto

text \<open>The state of the histogram after the latencies \<open>ls\<close> (latest first).\<close>

definition histogram_of :: "double list \<Rightarrow> metrics \<Rightarrow> bool" where
  "histogram_of ls m \<longleftrightarrow> m_latencyCount m = of_nat (length ls) \<and>
     m_latencyBucketCounts m =
       map (\<lambda>b. of_nat (at_most b ls)) m_latencyBuckets @ [of_nat (length ls)]"

lemma histogram_reset: "histogram_of [] metrics_reset"
  by (simp add: histogram_of_def metrics_reset_def at_most_def m_latencyBuckets_def)

lemma histogram_record:
  assumes "histogram_of ls m" shows "histogram_of (sec # ls) (recordRequestLatency sec m)"
proof -
  have "bump_buckets sec m_latencyBuckets (m_latencyBucketCounts m) =
      map (\<lambda>b. of_nat (at_most b (sec # ls))) m_latencyBuckets @ [of_nat (length ls)]"
    using assms by (auto simp: histogram_of_def bump_buckets_map at_most_def add.commute)
  then show ?thesis using assms by (simp add: recordRequestLatency_def histogram_of_def add.commute)
qed

lemma histogram_runs:
  "histogram_of ls m \<Longrightarrow> histogram_of (rev ss @ ls) (fold recordRequestLatency ss m)"
  by (induction ss arbitrary: ls m) (auto dest: histogram_record)

lemma at_most_mono: "a \<le> b \<Longrightarrow> at_most a ls \<le> at_most b ls"
  by (induction ls) (auto simp: at_most_def)

lemma at_most_length: "at_most b ls \<le> length ls"
  by (simp add: at_most_def)

lemma at_most_rev [simp]: "at_most b (rev ls) = at_most b ls"
  by (simp add: at_most_def flip: rev_filter)

lemma buckets_sorted: "sorted m_latencyBuckets"
  unfolding m_latencyBuckets_def by (simp add: fl_mono)

end
