(* ===== verification/Grisu.thy ===== *)
theory Grisu
  imports Json "HOL-Library.Signed_Division"
begin

unbundle bit_operations_syntax

text \<open>
  How the JSON library prints a floating-point number (\<open>to_chars\<close> and the namespace
  \<open>dtoa_impl\<close> of \<open>nlohmann/json.hpp\<close>): the Grisu2 algorithm on 64-bit significands, then
  the layout of \<open>%g\<close>. The significand of a \<open>diyfp\<close> is a 64-bit word, its exponent an
  integer. The two loops that the code leaves by a condition on the generated digits have
  the assertions of the code in their guards, or a bound on the rounds.
\<close>

record diyfp =
  dp_f :: u64
  dp_e :: int

definition diyfp_of :: "u64 \<Rightarrow> int \<Rightarrow> diyfp" where
  "diyfp_of f e = \<lparr>dp_f = f, dp_e = e\<rparr>"

definition diyfp_sub :: "diyfp \<Rightarrow> diyfp \<Rightarrow> diyfp" where
  "diyfp_sub x y = diyfp_of (dp_f x - dp_f y) (dp_e x)"

definition diyfp_mul :: "diyfp \<Rightarrow> diyfp \<Rightarrow> diyfp" where
  "diyfp_mul x y =
     (let u_lo = dp_f x AND 0xFFFFFFFF; u_hi = drop_bit 32 (dp_f x);
          v_lo = dp_f y AND 0xFFFFFFFF; v_hi = drop_bit 32 (dp_f y);
          p0 = u_lo * v_lo; p1 = u_lo * v_hi; p2 = u_hi * v_lo; p3 = u_hi * v_hi;
          p0_hi = drop_bit 32 p0;
          p1_lo = p1 AND 0xFFFFFFFF; p1_hi = drop_bit 32 p1;
          p2_lo = p2 AND 0xFFFFFFFF; p2_hi = drop_bit 32 p2;
          Q = p0_hi + p1_lo + p2_lo;
          Q' = Q + push_bit 31 1;
          h = p3 + p2_hi + p1_hi + drop_bit 32 Q'
      in diyfp_of h (dp_e x + dp_e y + 64))"

text \<open>The loop of \<open>normalize\<close>: at most 63 shifts for a significand that is not 0.\<close>

fun diyfp_normalize_loop :: "nat \<Rightarrow> u64 \<Rightarrow> int \<Rightarrow> diyfp" where
  "diyfp_normalize_loop 0 f e = diyfp_of f e"
| "diyfp_normalize_loop (Suc n) f e =
     (if drop_bit 63 f = 0 then diyfp_normalize_loop n (push_bit 1 f) (e - 1) else diyfp_of f e)"

definition diyfp_normalize :: "diyfp \<Rightarrow> diyfp" where
  "diyfp_normalize x = diyfp_normalize_loop 63 (dp_f x) (dp_e x)"

definition diyfp_normalize_to :: "diyfp \<Rightarrow> int \<Rightarrow> diyfp" where
  "diyfp_normalize_to x e = diyfp_of (push_bit (nat (dp_e x - e)) (dp_f x)) e"

record boundaries =
  bd_w :: diyfp
  bd_minus :: diyfp
  bd_plus :: diyfp

text \<open>
  A positive double is its significand times \<open>2 ^ ulp_exp\<close>, the exponent at least -1074; a
  significand \<open>2 ^ 52\<close> is the field \<open>F = 0\<close> of a normalized number.
\<close>

definition compute_boundaries :: "double \<Rightarrow> boundaries" where
  "compute_boundaries x =
     (let v = diyfp_of (of_int (round_even (x / pow2 (ulp_exp x)))) (ulp_exp x);
          lower_boundary_is_closer = (dp_f v = 2 ^ 52 \<and> - 1074 < dp_e v);
          m_plus = diyfp_of (2 * dp_f v + 1) (dp_e v - 1);
          m_minus = (if lower_boundary_is_closer then diyfp_of (4 * dp_f v - 1) (dp_e v - 2)
                     else diyfp_of (2 * dp_f v - 1) (dp_e v - 1));
          w_plus = diyfp_normalize m_plus;
          w_minus = diyfp_normalize_to m_minus (dp_e w_plus)
      in \<lparr>bd_w = diyfp_normalize v, bd_minus = w_minus, bd_plus = w_plus\<rparr>)"

definition kAlpha :: int where "kAlpha = - 60"
definition kGamma :: int where "kGamma = - 32"

definition kCachedPowers :: "(u64 \<times> int \<times> int) list" where
  "kCachedPowers = [
     (0xAB70FE17C79AC6CA, - 1060, - 300), (0xFF77B1FCBEBCDC4F, - 1034, - 292),
     (0xBE5691EF416BD60C, - 1007, - 284), (0x8DD01FAD907FFC3C, - 980, - 276),
     (0xD3515C2831559A83, - 954, - 268), (0x9D71AC8FADA6C9B5, - 927, - 260),
     (0xEA9C227723EE8BCB, - 901, - 252), (0xAECC49914078536D, - 874, - 244),
     (0x823C12795DB6CE57, - 847, - 236), (0xC21094364DFB5637, - 821, - 228),
     (0x9096EA6F3848984F, - 794, - 220), (0xD77485CB25823AC7, - 768, - 212),
     (0xA086CFCD97BF97F4, - 741, - 204), (0xEF340A98172AACE5, - 715, - 196),
     (0xB23867FB2A35B28E, - 688, - 188), (0x84C8D4DFD2C63F3B, - 661, - 180),
     (0xC5DD44271AD3CDBA, - 635, - 172), (0x936B9FCEBB25C996, - 608, - 164),
     (0xDBAC6C247D62A584, - 582, - 156), (0xA3AB66580D5FDAF6, - 555, - 148),
     (0xF3E2F893DEC3F126, - 529, - 140), (0xB5B5ADA8AAFF80B8, - 502, - 132),
     (0x87625F056C7C4A8B, - 475, - 124), (0xC9BCFF6034C13053, - 449, - 116),
     (0x964E858C91BA2655, - 422, - 108), (0xDFF9772470297EBD, - 396, - 100),
     (0xA6DFBD9FB8E5B88F, - 369, - 92), (0xF8A95FCF88747D94, - 343, - 84),
     (0xB94470938FA89BCF, - 316, - 76), (0x8A08F0F8BF0F156B, - 289, - 68),
     (0xCDB02555653131B6, - 263, - 60), (0x993FE2C6D07B7FAC, - 236, - 52),
     (0xE45C10C42A2B3B06, - 210, - 44), (0xAA242499697392D3, - 183, - 36),
     (0xFD87B5F28300CA0E, - 157, - 28), (0xBCE5086492111AEB, - 130, - 20),
     (0x8CBCCC096F5088CC, - 103, - 12), (0xD1B71758E219652C, - 77, - 4),
     (0x9C40000000000000, - 50, 4), (0xE8D4A51000000000, - 24, 12),
     (0xAD78EBC5AC620000, 3, 20), (0x813F3978F8940984, 30, 28),
     (0xC097CE7BC90715B3, 56, 36), (0x8F7E32CE7BEA5C70, 83, 44),
     (0xD5D238A4ABE98068, 109, 52), (0x9F4F2726179A2245, 136, 60),
     (0xED63A231D4C4FB27, 162, 68), (0xB0DE65388CC8ADA8, 189, 76),
     (0x83C7088E1AAB65DB, 216, 84), (0xC45D1DF942711D9A, 242, 92),
     (0x924D692CA61BE758, 269, 100), (0xDA01EE641A708DEA, 295, 108),
     (0xA26DA3999AEF774A, 322, 116), (0xF209787BB47D6B85, 348, 124),
     (0xB454E4A179DD1877, 375, 132), (0x865B86925B9BC5C2, 402, 140),
     (0xC83553C5C8965D3D, 428, 148), (0x952AB45CFA97A0B3, 455, 156),
     (0xDE469FBD99A05FE3, 481, 164), (0xA59BC234DB398C25, 508, 172),
     (0xF6C69A72A3989F5C, 534, 180), (0xB7DCBF5354E9BECE, 561, 188),
     (0x88FCF317F22241E2, 588, 196), (0xCC20CE9BD35C78A5, 614, 204),
     (0x98165AF37B2153DF, 641, 212), (0xE2A0B5DC971F303A, 667, 220),
     (0xA8D9D1535CE3B396, 694, 228), (0xFB9B7CD9A4A7443C, 720, 236),
     (0xBB764C4CA7A44410, 747, 244), (0x8BAB8EEFB6409C1A, 774, 252),
     (0xD01FEF10A657842C, 800, 260), (0x9B10A4E5E9913129, 827, 268),
     (0xE7109BFBA19C0C9D, 853, 276), (0xAC2820D9623BF429, 880, 284),
     (0x80444B5E7AA7CF85, 907, 292), (0xBF21E44003ACDD2D, 933, 300),
     (0x8E679C2F5E44FF8F, 960, 308), (0xD433179D9C8CB841, 986, 316),
     (0x9E19DB92B4E31BA9, 1013, 324)]"

definition get_cached_power_for_binary_exponent :: "int \<Rightarrow> u64 \<times> int \<times> int" where
  "get_cached_power_for_binary_exponent e =
     (let f = kAlpha - e - 1;
          k = (f * 78913) sdiv (2 ^ 18) + (if 0 < f then 1 else 0);
          index = (300 + k + (8 - 1)) sdiv 8
      in kCachedPowers ! nat index)"

definition find_largest_pow10 :: "u32 \<Rightarrow> nat \<times> u32" where
  "find_largest_pow10 n =
     (if 1000000000 \<le> n then (10, 1000000000)
      else if 100000000 \<le> n then (9, 100000000)
      else if 10000000 \<le> n then (8, 10000000)
      else if 1000000 \<le> n then (7, 1000000)
      else if 100000 \<le> n then (6, 100000)
      else if 10000 \<le> n then (5, 10000)
      else if 1000 \<le> n then (4, 1000)
      else if 100 \<le> n then (3, 100)
      else if 10 \<le> n then (2, 10)
      else (1, 1))"

text \<open>The digits are numbers; the last one is decremented while that comes closer.\<close>

definition decrement_last :: "nat list \<Rightarrow> nat list" where
  "decrement_last buf = butlast buf @ [last buf - 1]"

lemma add_no_wrap:
  fixes rest :: u64
  assumes "0 < ten_k" and "rest \<le> delta" and "ten_k \<le> delta - rest"
  shows "unat rest < unat (rest + ten_k)"
proof -
  have "unat (delta - rest) = unat delta - unat rest" using assms(2) by (rule unat_sub)
  then have "unat rest + unat ten_k \<le> unat delta"
    using assms(2,3) by (simp add: word_le_nat_alt)
  then have "unat (rest + ten_k) = unat rest + unat ten_k"
    using unsigned_less [of delta, where 'a = nat] by (subst unat_word_ariths) (simp del: unsigned_less)
  then show ?thesis using assms(1) by (simp add: word_less_nat_alt)
qed

function grisu2_round :: "nat list \<Rightarrow> u64 \<Rightarrow> u64 \<Rightarrow> u64 \<Rightarrow> u64 \<Rightarrow> nat list" where
  "grisu2_round buf dst delta rest ten_k =
     (if 0 < ten_k \<and> rest \<le> delta \<and> rest < dst \<and> ten_k \<le> delta - rest \<and>
         (rest + ten_k < dst \<or> rest + ten_k - dst < dst - rest)
      then grisu2_round (decrement_last buf) dst delta (rest + ten_k) ten_k
      else buf)"
  by pat_completeness auto

termination
proof (relation "measure (\<lambda>(buf, dst, delta, rest, ten_k). unat dst - unat rest)")
  fix buf and dst delta rest ten_k :: u64
  assume "0 < ten_k \<and> rest \<le> delta \<and> rest < dst \<and> ten_k \<le> delta - rest \<and>
     (rest + ten_k < dst \<or> rest + ten_k - dst < dst - rest)"
  then show "((decrement_last buf, dst, delta, rest + ten_k, ten_k), (buf, dst, delta, rest, ten_k))
      \<in> measure (\<lambda>(buf, dst, delta, rest, ten_k). unat dst - unat rest)"
    using add_no_wrap [of ten_k rest delta] by (auto simp: word_less_nat_alt)
qed simp

declare grisu2_round.simps [simp del]

text \<open>
  The digits of the integral part: \<open>Inl\<close> the final digits and exponent, or \<open>Inr\<close> the digits
  when the fractional part has to go on.
\<close>

fun gen_integral ::
    "nat \<Rightarrow> nat list \<Rightarrow> u32 \<Rightarrow> u32 \<Rightarrow> u64 \<Rightarrow> nat \<Rightarrow> u64 \<Rightarrow> u64 \<Rightarrow> (nat list \<times> nat) + nat list" where
  "gen_integral 0 buf p1 pow10 p2 s dst delta = Inr buf"
| "gen_integral (Suc n) buf p1 pow10 p2 s dst delta =
     (let d = p1 div pow10; r = p1 mod pow10;
          buf' = buf @ [unat d];
          rest = push_bit s (ucast r) + p2
      in if rest \<le> delta
         then Inl (grisu2_round buf' dst delta rest (push_bit s (ucast pow10)), n)
         else gen_integral n buf' r (pow10 div 10) p2 s dst delta)"

text \<open>
  The digits of the fractional part; the first argument bounds the rounds. \<open>delta\<close> starts at
  1 or more and is multiplied by 10, and \<open>p2\<close> stays below \<open>2 ^ 60\<close>, so 20 rounds are enough.
\<close>

fun gen_fraction :: "nat \<Rightarrow> nat list \<Rightarrow> u64 \<Rightarrow> nat \<Rightarrow> u64 \<Rightarrow> u64 \<Rightarrow> nat \<Rightarrow> (nat list \<times> nat) option" where
  "gen_fraction 0 buf p2 s dst delta m = None"
| "gen_fraction (Suc fuel) buf p2 s dst delta m =
     (let q = p2 * 10; d = drop_bit s q; r = q AND (push_bit s 1 - 1);
          buf' = buf @ [unat d]; delta' = delta * 10; dst' = dst * 10
      in if r \<le> delta' then Some (grisu2_round buf' dst' delta' r (push_bit s 1), Suc m)
         else gen_fraction fuel buf' r s dst' delta' (Suc m))"

definition grisu2_digit_gen :: "int \<Rightarrow> diyfp \<Rightarrow> diyfp \<Rightarrow> diyfp \<Rightarrow> (nat list \<times> int) option" where
  "grisu2_digit_gen decimal_exponent M_minus w M_plus =
     (let delta = dp_f (diyfp_sub M_plus M_minus); dst = dp_f (diyfp_sub M_plus w);
          s = nat (- dp_e M_plus);
          p1 = (ucast (drop_bit s (dp_f M_plus)) :: u32);
          p2 = dp_f M_plus AND (push_bit s 1 - 1);
          (k, pow10) = find_largest_pow10 p1
      in case gen_integral k [] p1 pow10 p2 s dst delta of
           Inl (buf, n) \<Rightarrow> Some (buf, decimal_exponent + int n)
         | Inr buf \<Rightarrow> (case gen_fraction 20 buf p2 s dst delta 0 of
              None \<Rightarrow> None
            | Some (buf', m) \<Rightarrow> Some (buf', decimal_exponent - int m)))"

definition grisu2_of :: "diyfp \<Rightarrow> diyfp \<Rightarrow> diyfp \<Rightarrow> (nat list \<times> int) option" where
  "grisu2_of m_minus v m_plus =
     (case get_cached_power_for_binary_exponent (dp_e m_plus) of (cf, ce, ck) \<Rightarrow>
        let c = diyfp_of cf ce;
            w = diyfp_mul v c; w_minus = diyfp_mul m_minus c; w_plus = diyfp_mul m_plus c;
            M_minus = diyfp_of (dp_f w_minus + 1) (dp_e w_minus);
            M_plus = diyfp_of (dp_f w_plus - 1) (dp_e w_plus)
        in grisu2_digit_gen (- ck) M_minus w M_plus)"

definition grisu2 :: "double \<Rightarrow> (nat list \<times> int) option" where
  "grisu2 x = (let b = compute_boundaries x in grisu2_of (bd_minus b) (bd_w b) (bd_plus b))"

section \<open>Layout\<close>

text \<open>Two digits at least, three when there are.\<close>

definition append_exponent :: "int \<Rightarrow> string" where
  "append_exponent e =
     (let k = nat \<bar>e\<bar>
      in (if e < 0 then ''-'' else ''+'') @
         (if k < 10 then [CHR ''0'', digit_char k]
          else if k < 100 then [digit_char (k div 10), digit_char (k mod 10)]
          else [digit_char (k div 100), digit_char (k mod 100 div 10), digit_char (k mod 100 mod 10)]))"

definition format_buffer :: "string \<Rightarrow> int \<Rightarrow> int \<Rightarrow> int \<Rightarrow> string" where
  "format_buffer buf decimal_exponent min_exp max_exp =
     (let k = int (length buf); n = k + decimal_exponent
      in if k \<le> n \<and> n \<le> max_exp then buf @ replicate (nat (n - k)) (CHR ''0'') @ ''.0''
         else if 0 < n \<and> n \<le> max_exp then take (nat n) buf @ ''.'' @ drop (nat n) buf
         else if min_exp < n \<and> n \<le> 0 then ''0.'' @ replicate (nat (- n)) (CHR ''0'') @ buf
         else (if k = 1 then buf else take 1 buf @ ''.'' @ drop 1 buf) @ ''e'' @ append_exponent (n - 1))"

text \<open>
  \<open>to_chars_signed\<close> takes the sign bit and the magnitude, as the code does: the sign is written
  first, also that of negative zero. A \<open>double\<close> of the model is the number it stands for, so
  \<open>to_chars\<close> derives the sign bit from the number, and prints the zero without one.
\<close>

definition to_chars_signed :: "bool \<Rightarrow> double \<Rightarrow> string option" where
  "to_chars_signed signbit v =
     (let sign = (if signbit then ''-'' else [])
      in if v = 0 then Some (sign @ ''0.0'')
         else case grisu2 v of
           None \<Rightarrow> None
         | Some (ds, e) \<Rightarrow> Some (sign @ format_buffer (map digit_char ds) e (- 4) 15))"

definition to_chars :: "double \<Rightarrow> string option" where
  "to_chars x = to_chars_signed (x < 0) \<bar>x\<bar>"

end
