(* ===== verification/JsonDump.thy ===== *)
theory JsonDump
  imports Json Grisu
begin

text \<open>
  The serializer of the JSON library as \<open>dump()\<close> calls it: no indentation, \<open>ensure_ascii\<close>
  off, strict error handling. The buffer that is flushed when it is nearly full is the
  output itself here. A string that is not well-formed UTF-8 throws \<open>type_error.316\<close>, and
  the output so far is lost with the exception.
\<close>

section \<open>UTF-8\<close>

text \<open>The table of the decoder: the class of each byte, then the transitions.\<close>

definition utf8d :: "nat list" where
  "utf8d = replicate 128 0 @ replicate 16 1 @ replicate 16 9 @ replicate 32 7 @
     replicate 2 8 @ replicate 30 2 @
     [10, 3, 3, 3, 3, 3, 3, 3, 3, 3, 3, 3, 3, 4, 3, 3] @
     [11, 6, 6, 6, 5, 8, 8, 8, 8, 8, 8, 8, 8, 8, 8, 8] @
     [0, 1, 2, 3, 5, 8, 7, 1, 1, 1, 4, 6, 1, 1, 1, 1] @
     [1, 1, 1, 1, 1, 1, 1, 1, 1, 1, 1, 1, 1, 1, 1, 1] @
     [1, 0, 1, 1, 1, 1, 1, 0, 1, 0, 1, 1, 1, 1, 1, 1] @
     [1, 2, 1, 1, 1, 1, 1, 2, 1, 2, 1, 1, 1, 1, 1, 1] @
     [1, 1, 1, 1, 1, 1, 1, 2, 1, 1, 1, 1, 1, 1, 1, 1] @
     [1, 2, 1, 1, 1, 1, 1, 1, 1, 2, 1, 1, 1, 1, 1, 1] @
     [1, 1, 1, 1, 1, 1, 1, 3, 1, 3, 1, 1, 1, 1, 1, 1] @
     [1, 3, 1, 1, 1, 1, 1, 3, 1, 3, 1, 1, 1, 1, 1, 1] @
     [1, 3, 1, 1, 1, 1, 1, 1, 1, 1, 1, 1, 1, 1, 1, 1]"

definition UTF8_ACCEPT :: nat where "UTF8_ACCEPT = 0"
definition UTF8_REJECT :: nat where "UTF8_REJECT = 1"

text \<open>
  One byte. The masks and shifts of the code point select bits: \<open>byte & 0x3f\<close> is a
  remainder by 64, \<open>(0xFF >> type) & byte\<close> one by \<open>2 ^ (8 - type)\<close>.
\<close>

definition utf8_decode :: "nat \<Rightarrow> nat \<Rightarrow> nat \<Rightarrow> nat \<times> nat" where
  "utf8_decode st cp byte =
     (let ty = utf8d ! byte;
          cp' = (if st \<noteq> UTF8_ACCEPT then (cp * 64 + byte mod 64) mod 2 ^ 32
                 else byte mod 2 ^ (8 - ty))
      in (utf8d ! (256 + st * 16 + ty), cp'))"

section \<open>Strings\<close>

definition hex_char :: "nat \<Rightarrow> char" where
  "hex_char d = (if d < 10 then char_of (0x30 + d) else char_of (0x57 + d))"

definition QUOTE :: char where "QUOTE = CHR 0x22"
definition BACKSLASH :: char where "BACKSLASH = CHR 0x5C"

text \<open>What is written when a code point is complete; \<open>c\<close> is its last byte.\<close>

definition escape :: "nat \<Rightarrow> char \<Rightarrow> string" where
  "escape cp c =
     (if cp = 0x08 then [BACKSLASH, CHR ''b'']
      else if cp = 0x09 then [BACKSLASH, CHR ''t'']
      else if cp = 0x0A then [BACKSLASH, CHR ''n'']
      else if cp = 0x0C then [BACKSLASH, CHR ''f'']
      else if cp = 0x0D then [BACKSLASH, CHR ''r'']
      else if cp = 0x22 then [BACKSLASH, QUOTE]
      else if cp = 0x5C then [BACKSLASH, BACKSLASH]
      else if cp \<le> 0x1F then
        [BACKSLASH, CHR ''u'', hex_char (cp div 4096), hex_char (cp div 256 mod 16),
         hex_char (cp div 16 mod 16), hex_char (cp mod 16)]
      else [c])"

definition put :: "string \<Rightarrow> string exc \<Rightarrow> string exc" where
  "put s r = (case r of Throw e \<Rightarrow> Throw e | Ret t \<Rightarrow> Ret (s @ t))"

fun dump_escaped :: "nat \<Rightarrow> nat \<Rightarrow> string \<Rightarrow> string exc" where
  "dump_escaped st cp [] = (if st = UTF8_ACCEPT then Ret [] else Throw ''type_error.316'')"
| "dump_escaped st cp (c # s) = (case utf8_decode st cp (of_char c) of (st', cp') \<Rightarrow>
     if st' = UTF8_ACCEPT then put (escape cp' c) (dump_escaped st' cp' s)
     else if st' = UTF8_REJECT then Throw ''type_error.316''
     else put [c] (dump_escaped st' cp' s))"

definition dump_string :: "string \<Rightarrow> string exc" where
  "dump_string s = put [QUOTE] (case dump_escaped UTF8_ACCEPT 0 s of
     Throw e \<Rightarrow> Throw e | Ret t \<Rightarrow> Ret (t @ [QUOTE]))"

section \<open>Numbers\<close>

text \<open>Two digits at a time from the back, as the loop over the table \<open>digits_to_99\<close> writes them.\<close>

function dump_digits :: "nat \<Rightarrow> string" where
  "dump_digits n =
     (if 100 \<le> n then dump_digits (n div 100) @ [digit_char (n mod 100 div 10), digit_char (n mod 100 mod 10)]
      else if 10 \<le> n then [digit_char (n div 10), digit_char (n mod 10)]
      else [digit_char n])"
  by pat_completeness auto
termination
  by (relation "measure id") auto

declare dump_digits.simps [simp del]

definition dump_integer :: "int \<Rightarrow> string" where
  "dump_integer i = (if i = 0 then ''0''
     else if i < 0 then ''-'' @ dump_digits (nat (- i)) else dump_digits (nat i))"

text \<open>
  An infinite value is written as \<open>null\<close>. \<open>Throw ''grisu2''\<close> would be a digit loop that does
  not end.
\<close>

definition dump_float :: "double \<Rightarrow> string exc" where
  "dump_float x = (if pow2 1024 \<le> \<bar>x\<bar> then Ret ''null''
     else case to_chars x of Some s \<Rightarrow> Ret s | None \<Rightarrow> Throw ''grisu2'')"

section \<open>Values\<close>

text \<open>The elements one after the other, a comma between two.\<close>

fun comma_separated :: "string exc list \<Rightarrow> string exc" where
  "comma_separated [] = Ret []"
| "comma_separated [x] = x"
| "comma_separated (x # y # xs) = (case x of
      Throw e \<Rightarrow> Throw e
    | Ret s \<Rightarrow> put (s @ '','') (comma_separated (y # xs)))"

definition enclose :: "string \<Rightarrow> string \<Rightarrow> string exc \<Rightarrow> string exc" where
  "enclose l r x = (case x of Throw e \<Rightarrow> Throw e | Ret s \<Rightarrow> Ret (l @ s @ r))"

definition dump_member :: "string \<Rightarrow> string exc \<Rightarrow> string exc" where
  "dump_member k v = (case dump_string k of Throw e \<Rightarrow> Throw e | Ret s \<Rightarrow> put (s @ '':'') v)"

fun dump :: "json \<Rightarrow> string exc" where
  "dump JNull = Ret ''null''"
| "dump (JBool b) = Ret (if b then ''true'' else ''false'')"
| "dump (JInt i) = Ret (dump_integer i)"
| "dump (JUInt n) = Ret (dump_integer (int n))"
| "dump (JFloat x) = dump_float x"
| "dump (JString s) = dump_string s"
| "dump (JArray js) = enclose ''['' '']'' (comma_separated (map dump js))"
| "dump (JObject m) = enclose ''{'' ''}'' (comma_separated (map (\<lambda>(k, v). dump_member k (dump v)) m))"

end
