(* ===== verification/JsonLex.thy ===== *)
theory JsonLex
  imports Json
begin

text \<open>
  The lexer of the JSON library that ships with the server (\<open>nlohmann/json.hpp\<close>, class
  \<open>lexer\<close>), for the default options: no comments, the C locale. The state between two
  tokens is the input that is left; \<open>unget\<close> puts the character back. A token carries what
  the value getters of the lexer return for it. After an error the parser throws, so the
  input behind an error is not kept.
\<close>

datatype token =
    T_literal_true | T_literal_false | T_literal_null
  | T_string string
  | T_unsigned nat
  | T_integer int
  | T_float "double option" \<comment> \<open>\<open>None\<close> when \<open>strtod\<close> overflows\<close>
  | T_begin_array | T_end_array | T_begin_object | T_end_object
  | T_name_separator | T_value_separator
  | T_parse_error | T_end_of_input

abbreviation cv :: "char \<Rightarrow> nat" where
  "cv c \<equiv> of_char c"

section \<open>Strings\<close>

definition hex_val :: "char \<Rightarrow> nat option" where
  "hex_val c = (if 0x30 \<le> cv c \<and> cv c \<le> 0x39 then Some (cv c - 0x30)
     else if 0x41 \<le> cv c \<and> cv c \<le> 0x46 then Some (cv c - 0x37)
     else if 0x61 \<le> cv c \<and> cv c \<le> 0x66 then Some (cv c - 0x57)
     else None)"

text \<open>Four hex digits after \<open>\u\<close>; \<open>None\<close> is the result -1.\<close>

definition get_codepoint :: "string \<Rightarrow> (nat \<times> string) option" where
  "get_codepoint s = (case s of
       c1 # c2 # c3 # c4 # t \<Rightarrow> do {
         d1 \<leftarrow> hex_val c1; d2 \<leftarrow> hex_val c2; d3 \<leftarrow> hex_val c3; d4 \<leftarrow> hex_val c4;
         Some (d1 * 4096 + d2 * 256 + d3 * 16 + d4, t) }
     | _ \<Rightarrow> None)"

text \<open>The bytes added for a code point; each mask of the code selects the bits of a division.\<close>

definition add_codepoint :: "nat \<Rightarrow> string" where
  "add_codepoint cp = map char_of
     (if cp < 0x80 then [cp]
      else if cp \<le> 0x7FF then [0xC0 + cp div 64, 0x80 + cp mod 64]
      else if cp \<le> 0xFFFF then [0xE0 + cp div 4096, 0x80 + cp div 64 mod 64, 0x80 + cp mod 64]
      else [0xF0 + cp div 262144, 0x80 + cp div 4096 mod 64, 0x80 + cp div 64 mod 64,
            0x80 + cp mod 64])"

text \<open>\<open>\uXXXX\<close>, with a second escape for the low half of a surrogate pair.\<close>

definition scan_unicode :: "string \<Rightarrow> (string \<times> string) option" where
  "scan_unicode s = (case get_codepoint s of
       None \<Rightarrow> None
     | Some (cp1, s1) \<Rightarrow>
         if 0xD800 \<le> cp1 \<and> cp1 \<le> 0xDBFF then
           (case s1 of
              b # u # s2 \<Rightarrow>
                if cv b = 0x5C \<and> u = CHR ''u'' then
                  (case get_codepoint s2 of
                     None \<Rightarrow> None
                   | Some (cp2, s3) \<Rightarrow>
                       if 0xDC00 \<le> cp2 \<and> cp2 \<le> 0xDFFF
                       then Some (add_codepoint (cp1 * 1024 + cp2 - 0x35FDC00), s3) else None)
                else None
            | _ \<Rightarrow> None)
         else if 0xDC00 \<le> cp1 \<and> cp1 \<le> 0xDFFF then None
         else Some (add_codepoint cp1, s1))"

text \<open>What follows a backslash.\<close>

definition scan_escape :: "string \<Rightarrow> (string \<times> string) option" where
  "scan_escape s = (case s of
       [] \<Rightarrow> None
     | c # t \<Rightarrow>
         if cv c = 0x22 then Some ([c], t)
         else if cv c = 0x5C then Some ([c], t)
         else if c = CHR ''/'' then Some ([c], t)
         else if c = CHR ''b'' then Some ([CHR 0x08], t)
         else if c = CHR ''f'' then Some ([CHR 0x0C], t)
         else if c = CHR ''n'' then Some ([CHR 0x0A], t)
         else if c = CHR ''r'' then Some ([CHR 0x0D], t)
         else if c = CHR ''t'' then Some ([CHR 0x09], t)
         else if c = CHR ''u'' then scan_unicode t
         else None)"

text \<open>\<open>next_byte_in_range\<close>: the bytes that continue a code point.\<close>

fun next_byte_in_range :: "(nat \<times> nat) list \<Rightarrow> string \<Rightarrow> (string \<times> string) option" where
  "next_byte_in_range [] s = Some ([], s)"
| "next_byte_in_range ((lo, hi) # rs) s = (case s of
       [] \<Rightarrow> None
     | c # t \<Rightarrow> if lo \<le> cv c \<and> cv c \<le> hi
         then (case next_byte_in_range rs t of None \<Rightarrow> None | Some (bs, u) \<Rightarrow> Some (c # bs, u))
         else None)"

text \<open>Control characters are refused, ASCII characters stand for themselves.\<close>

definition is_control :: "char \<Rightarrow> bool" where
  "is_control c \<longleftrightarrow> cv c \<le> 0x1F"

definition is_plain_ascii :: "char \<Rightarrow> bool" where
  "is_plain_ascii c \<longleftrightarrow> 0x20 \<le> cv c \<and> cv c \<le> 0x7F"

text \<open>The continuation bytes each lead byte asks for; other bytes are ill-formed.\<close>

definition utf8_tail :: "nat \<Rightarrow> (nat \<times> nat) list option" where
  "utf8_tail b = (if 0xC2 \<le> b \<and> b \<le> 0xDF then Some [(0x80, 0xBF)]
     else if b = 0xE0 then Some [(0xA0, 0xBF), (0x80, 0xBF)]
     else if 0xE1 \<le> b \<and> b \<le> 0xEC \<or> b = 0xEE \<or> b = 0xEF then Some [(0x80, 0xBF), (0x80, 0xBF)]
     else if b = 0xED then Some [(0x80, 0x9F), (0x80, 0xBF)]
     else if b = 0xF0 then Some [(0x90, 0xBF), (0x80, 0xBF), (0x80, 0xBF)]
     else if 0xF1 \<le> b \<and> b \<le> 0xF3 then Some [(0x80, 0xBF), (0x80, 0xBF), (0x80, 0xBF)]
     else if b = 0xF4 then Some [(0x80, 0x8F), (0x80, 0xBF), (0x80, 0xBF)]
     else None)"

definition scan_plain :: "char \<Rightarrow> string \<Rightarrow> (string \<times> string) option" where
  "scan_plain c t =
     (if is_control c then None
      else if is_plain_ascii c then Some ([c], t)
      else case utf8_tail (cv c) of
        None \<Rightarrow> None
      | Some rs \<Rightarrow> (case next_byte_in_range rs t of
           None \<Rightarrow> None | Some (bs, u) \<Rightarrow> Some (c # bs, u)))"

lemma next_byte_in_range_length:
  "next_byte_in_range rs s = Some (bs, u) \<Longrightarrow> length u \<le> length s"
  by (induction rs s arbitrary: bs u rule: next_byte_in_range.induct)
     (fastforce split: list.splits if_splits option.splits)+

lemma scan_plain_length: "scan_plain c t = Some (bs, u) \<Longrightarrow> length u \<le> length t"
  by (auto simp: scan_plain_def split: if_splits option.splits dest: next_byte_in_range_length)

lemma get_codepoint_length: "get_codepoint s = Some (n, t) \<Longrightarrow> length t < length s"
  by (auto simp: get_codepoint_def split: list.splits Option.bind_splits)

lemma scan_unicode_length: "scan_unicode s = Some (bs, t) \<Longrightarrow> length t < length s"
  by (auto simp: scan_unicode_def split: option.splits if_splits list.splits
      dest!: get_codepoint_length)

lemma scan_escape_length: "scan_escape s = Some (bs, t) \<Longrightarrow> length t < length s"
  by (auto simp: scan_escape_def split: list.splits if_splits dest: scan_unicode_length)

text \<open>The loop of \<open>scan_string\<close>, behind the opening quote: the token buffer and the rest.\<close>

function scan_string :: "string \<Rightarrow> (string \<times> string) option" where
  "scan_string s = (case s of
       [] \<Rightarrow> None
     | c # t \<Rightarrow>
         if cv c = 0x22 then Some ([], t)
         else (case (if cv c = 0x5C then scan_escape t else scan_plain c t) of
             None \<Rightarrow> None
           | Some (bs, u) \<Rightarrow> (case scan_string u of
                None \<Rightarrow> None | Some (cs, r) \<Rightarrow> Some (bs @ cs, r))))"
  by pat_completeness auto
termination
  by (relation "measure length")
     (auto split: if_splits dest: scan_escape_length scan_plain_length)

declare scan_string.simps [simp del]

section \<open>Numbers\<close>

text \<open>The labels of the state machine, and the kind of number read so far.\<close>

datatype num_state = N_minus | N_zero | N_any1 | N_decimal1 | N_decimal2 | N_exponent | N_sign | N_any2

datatype num_type = N_unsigned | N_integer | N_float

fun num_enter :: "num_state \<Rightarrow> num_type \<Rightarrow> num_type" where
  "num_enter N_minus ty = N_integer"
| "num_enter N_decimal1 ty = N_float"
| "num_enter N_exponent ty = N_float"
| "num_enter _ ty = ty"

definition is_exp_char :: "char \<Rightarrow> bool" where
  "is_exp_char c \<longleftrightarrow> c = CHR ''e'' \<or> c = CHR ''E''"

text \<open>The state the next character leads to; \<open>None\<close> is the default branch.\<close>

fun num_next :: "num_state \<Rightarrow> char \<Rightarrow> num_state option" where
  "num_next N_minus c = (if c = CHR ''0'' then Some N_zero else if is_digit c then Some N_any1 else None)"
| "num_next N_zero c = (if c = CHR ''.'' then Some N_decimal1
     else if is_exp_char c then Some N_exponent else None)"
| "num_next N_any1 c = (if is_digit c then Some N_any1 else if c = CHR ''.'' then Some N_decimal1
     else if is_exp_char c then Some N_exponent else None)"
| "num_next N_decimal1 c = (if is_digit c then Some N_decimal2 else None)"
| "num_next N_decimal2 c = (if is_digit c then Some N_decimal2
     else if is_exp_char c then Some N_exponent else None)"
| "num_next N_exponent c = (if c = CHR ''+'' \<or> c = CHR ''-'' then Some N_sign
     else if is_digit c then Some N_any2 else None)"
| "num_next N_sign c = (if is_digit c then Some N_any2 else None)"
| "num_next N_any2 c = (if is_digit c then Some N_any2 else None)"

text \<open>The default branch is \<open>scan_number_done\<close> in these states, an error in the others.\<close>

definition num_final :: "num_state \<Rightarrow> bool" where
  "num_final st \<longleftrightarrow> st = N_zero \<or> st = N_any1 \<or> st = N_decimal2 \<or> st = N_any2"

fun scan_number_loop ::
    "num_state \<Rightarrow> num_type \<Rightarrow> string \<Rightarrow> string \<Rightarrow> (num_type \<times> string \<times> string) option" where
  "scan_number_loop st ty buf [] =
     (if num_final st then Some (num_enter st ty, buf, []) else None)"
| "scan_number_loop st ty buf (c # t) = (case num_next st c of
       Some st' \<Rightarrow> scan_number_loop st' (num_enter st ty) (buf @ [c]) t
     | None \<Rightarrow> if num_final st then Some (num_enter st ty, buf, c # t) else None)"

text \<open>\<open>strtod\<close> on the syntax the state machine accepts.\<close>

definition split_sign :: "string \<Rightarrow> bool \<times> string" where
  "split_sign s = (case s of [] \<Rightarrow> (False, [])
     | c # t \<Rightarrow> if c = CHR ''-'' then (True, t) else if c = CHR ''+'' then (False, t) else (False, s))"

definition exponent_of :: "string \<Rightarrow> int" where
  "exponent_of s = (case s of [] \<Rightarrow> 0
     | _ # t \<Rightarrow> (let (neg, ds) = split_sign t
                in if neg then - int (digits_val ds) else int (digits_val ds)))"

definition strtod :: "string \<Rightarrow> double option" where
  "strtod buf =
     (let (neg, s) = split_sign buf;
          ip = takeWhile is_digit s;
          s1 = dropWhile is_digit s;
          fp = takeWhile is_digit (if s1 \<noteq> [] \<and> hd s1 = CHR ''.'' then tl s1 else []);
          s2 = (if s1 \<noteq> [] \<and> hd s1 = CHR ''.'' then dropWhile is_digit (tl s1) else s1);
          v = of_nat (digits_val (ip @ fp)) * 10 powi (exponent_of s2 - int (length fp));
          r = fl v
      in if pow2 1024 \<le> r then None else Some (if neg then - r else r))"

definition number_token :: "num_type \<Rightarrow> string \<Rightarrow> token" where
  "number_token ty buf = (case ty of
       N_unsigned \<Rightarrow> if digits_val buf < 2 ^ 64 then T_unsigned (digits_val buf)
                    else T_float (strtod buf)
     | N_integer \<Rightarrow> if digits_val (tl buf) \<le> 2 ^ 63 then T_integer (- int (digits_val (tl buf)))
                    else T_float (strtod buf)
     | N_float \<Rightarrow> T_float (strtod buf))"

definition scan_number :: "char \<Rightarrow> string \<Rightarrow> token \<times> string" where
  "scan_number c t =
     (case scan_number_loop
             (if c = CHR ''-'' then N_minus else if c = CHR ''0'' then N_zero else N_any1)
             N_unsigned [c] t of
        None \<Rightarrow> (T_parse_error, [])
      | Some (ty, buf, r) \<Rightarrow> (number_token ty buf, r))"

section \<open>Tokens\<close>

fun scan_literal :: "string \<Rightarrow> token \<Rightarrow> string \<Rightarrow> token \<times> string" where
  "scan_literal [] tok s = (tok, s)"
| "scan_literal (l # ls) tok [] = (T_parse_error, [])"
| "scan_literal (l # ls) tok (c # s) = (if c = l then scan_literal ls tok s else (T_parse_error, []))"

definition is_ws :: "char \<Rightarrow> bool" where
  "is_ws c \<longleftrightarrow> c = CHR '' '' \<or> c = CHR 0x09 \<or> c = CHR 0x0A \<or> c = CHR 0x0D"

definition skip_whitespace :: "string \<Rightarrow> string" where
  "skip_whitespace s = dropWhile is_ws s"

definition structural :: "char \<Rightarrow> token option" where
  "structural c =
     (if c = CHR ''['' then Some T_begin_array
      else if c = CHR '']'' then Some T_end_array
      else if c = CHR ''{'' then Some T_begin_object
      else if c = CHR ''}'' then Some T_end_object
      else if c = CHR '':'' then Some T_name_separator
      else if c = CHR '','' then Some T_value_separator
      else None)"

definition literal :: "char \<Rightarrow> (string \<times> token) option" where
  "literal c =
     (if c = CHR ''t'' then Some (''rue'', T_literal_true)
      else if c = CHR ''f'' then Some (''alse'', T_literal_false)
      else if c = CHR ''n'' then Some (''ull'', T_literal_null)
      else None)"

definition scan_token :: "char \<Rightarrow> string \<Rightarrow> token \<times> string" where
  "scan_token c t = (case structural c of
       Some tok \<Rightarrow> (tok, t)
     | None \<Rightarrow> (case literal c of
          Some (ls, tok) \<Rightarrow> scan_literal ls tok t
        | None \<Rightarrow>
            if cv c = 0x22 then
              (case scan_string t of None \<Rightarrow> (T_parse_error, []) | Some (v, r) \<Rightarrow> (T_string v, r))
            else if c = CHR ''-'' \<or> is_digit c then scan_number c t
            else if cv c = 0 then (T_end_of_input, t)
            else (T_parse_error, [])))"

text \<open>
  At the end of the input every further token is \<open>T_end_of_input\<close>. A NUL character ends
  the input too, whatever follows it.
\<close>

definition scan :: "string \<Rightarrow> token \<times> string" where
  "scan s = (case skip_whitespace s of [] \<Rightarrow> (T_end_of_input, []) | c # t \<Rightarrow> scan_token c t)"

text \<open>The first token: a byte order mark is skipped, a part of one is an error.\<close>

definition skip_bom :: "string \<Rightarrow> string option" where
  "skip_bom s = (case s of
       [] \<Rightarrow> Some s
     | c # t \<Rightarrow>
         if cv c = 0xEF then
           (case t of c2 # c3 # u \<Rightarrow> if cv c2 = 0xBB \<and> cv c3 = 0xBF then Some u else None | _ \<Rightarrow> None)
         else Some s)"

definition scan_first :: "string \<Rightarrow> token \<times> string" where
  "scan_first s = (case skip_bom s of None \<Rightarrow> (T_parse_error, []) | Some u \<Rightarrow> scan u)"

section \<open>Every token consumes input\<close>

definition tok_ends :: "token \<Rightarrow> bool" where
  "tok_ends t \<longleftrightarrow> t = T_parse_error \<or> t = T_end_of_input"

lemma scan_string_length: "scan_string s = Some (v, r) \<Longrightarrow> length r < length s"
proof (induction s arbitrary: v r rule: scan_string.induct)
  case (1 s)
  show ?case
  proof (cases s)
    case Nil
    then show ?thesis using 1 by (simp add: scan_string.simps)
  next
    case (Cons c t)
    show ?thesis
    proof (cases "cv c = 0x22")
      case True
      then show ?thesis using 1(2) Cons by (simp add: scan_string.simps [of "c # t"])
    next
      case False
      then obtain bs u cs where u: "(if cv c = 0x5C then scan_escape t else scan_plain c t) = Some (bs, u)"
        "scan_string u = Some (cs, r)"
        using 1(2) Cons
        by (auto simp: scan_string.simps [of "c # t"] simp del: if_split split: option.splits)
      then have "length u \<le> length t"
        by (auto split: if_splits dest: scan_escape_length scan_plain_length)
      moreover have "length r < length u" using 1(1) [OF Cons False u(1) refl u(2)] .
      ultimately show ?thesis using Cons by simp
    qed
  qed
qed

lemma scan_number_loop_length:
  "scan_number_loop st ty buf s = Some (ty', buf', r) \<Longrightarrow> length r \<le> length s"
  by (induction st ty buf s rule: scan_number_loop.induct)
     (fastforce split: if_splits option.splits)+

lemma scan_literal_length: "scan_literal ls tok s = (t, r) \<Longrightarrow> length r \<le> length s"
  by (induction ls tok s rule: scan_literal.induct) (fastforce split: if_splits)+

lemma number_token_not_end [simp]: "\<not> tok_ends (number_token ty buf)"
  by (simp add: number_token_def tok_ends_def split: num_type.split)

lemma scan_token_length:
  assumes "scan_token c t = (tok, r)" shows "length r \<le> length t"
proof -
  have l: "length r \<le> length t" if "scan_literal ls k t = (tok, r)" for ls k
    using that by (rule scan_literal_length)
  have n: "length r \<le> length t" if "scan_number c t = (tok, r)"
    using that by (auto simp: scan_number_def split: option.splits dest: scan_number_loop_length)
  have s: "length r \<le> length t"
    if "(case scan_string t of None \<Rightarrow> (T_parse_error, []) | Some (v, r) \<Rightarrow> (T_string v, r)) = (tok, r)"
    using that by (auto split: option.splits dest: scan_string_length)
  show ?thesis using assms unfolding scan_token_def
    by (auto split: if_split_asm option.split_asm [where option = "structural c"] option.split_asm [where option = "literal c"]
        intro: l n s)
qed

lemma scan_length:
  assumes "scan s = (tok, r)"
  shows "length r \<le> length s" and "\<not> tok_ends tok \<Longrightarrow> length r < length s"
proof -
  have "length (skip_whitespace s) \<le> length s"
    unfolding skip_whitespace_def by (rule length_dropWhile_le)
  then show "length r \<le> length s" "\<not> tok_ends tok \<Longrightarrow> length r < length s" using assms
    by (auto simp: scan_def tok_ends_def split: list.splits dest!: scan_token_length)
qed

end
