(* ===== verification/JsonParse.thy ===== *)
theory JsonParse
  imports JsonLex
begin

text \<open>
  The parser of the JSON library (class \<open>parser\<close>, with \<open>json_sax_dom_parser\<close> building the
  value). It is iterative: a stack remembers the arrays and objects that are open. The
  builder keeps a pointer to the element it fills next; here an open container is a frame
  that holds what it has so far, and its value is stored when it is closed. The stack of
  booleans of the parser and the stack of pointers of the builder always have the same
  height and are one stack of frames.
\<close>

datatype frame = Open_array "json list" | Open_object "(string \<times> json) list" string

definition parse_error_101 :: string where "parse_error_101 = ''parse_error.101''"
definition out_of_range_406 :: string where "out_of_range_406 = ''out_of_range.406''"

text \<open>
  The two halves of the loop: \<open>parse_value\<close> looks at the last token, \<open>parse_after\<close> goes on
  after a value (\<open>skip_to_state_evaluation\<close>). A key and the colon behind it are read in
  both.
\<close>

definition parse_key :: "string \<Rightarrow> (string \<times> token \<times> string) option" where
  "parse_key s = (case scan s of
       (T_string k, s1) \<Rightarrow> (case scan s1 of
          (T_name_separator, s2) \<Rightarrow> Some (k, scan s2)
        | _ \<Rightarrow> None)
     | _ \<Rightarrow> None)"

text \<open>A token that is a value by itself.\<close>

fun scalar :: "token \<Rightarrow> json option" where
  "scalar T_literal_true = Some (JBool True)"
| "scalar T_literal_false = Some (JBool False)"
| "scalar T_literal_null = Some JNull"
| "scalar (T_string s) = Some (JString s)"
| "scalar (T_unsigned n) = Some (JUInt n)"
| "scalar (T_integer i) = Some (JInt i)"
| "scalar (T_float (Some r)) = Some (JFloat r)"
| "scalar _ = None"

lemma scalar_not_end: "scalar t = Some v \<Longrightarrow> \<not> tok_ends t"
  by (cases t) (auto simp: tok_ends_def)

lemma scan_le: "(t, r) = scan s \<Longrightarrow> length r \<le> length s"
  using scan_length(1) [of s t r] by simp

lemma scan_less: "(t, r) = scan s \<Longrightarrow> \<not> tok_ends t \<Longrightarrow> length r < length s"
  using scan_length(2) [of s t r] by simp

lemma scan_weight: "(t, r) = scan s \<Longrightarrow> 2 * length r + (if tok_ends t then 0 else 2) \<le> 2 * length s"
  using scan_le [of t r s] scan_less [of t r s] by auto

lemma parse_key_weight:
  assumes "parse_key s = Some (k, t, r)"
  shows "2 * length r + (if tok_ends t then 0 else 2) < 2 * length s"
proof -
  obtain t1 s1 t2 s2 where s: "scan s = (t1, s1)" "scan s1 = (t2, s2)" by fastforce
  then have "t1 = T_string k" "t2 = T_name_separator" "scan s2 = (t, r)" using assms
    by (auto simp: parse_key_def split: token.splits)
  then show ?thesis using scan_less [of t1 s1 s] scan_less [of t2 s2 s1] scan_weight [of t r s2] s
    by (simp add: tok_ends_def)
qed

definition parse_measure :: "(frame list \<times> token \<times> string) + (frame list \<times> json \<times> string) \<Rightarrow> nat" where
  "parse_measure x = (case x of
       Inl (fs, t, s) \<Rightarrow> 2 * length s + (if tok_ends t then 0 else 2)
     | Inr (fs, v, s) \<Rightarrow> 2 * length s + 1)"

lemma tok_ends_simps [simp]: "\<not> tok_ends T_begin_object" "\<not> tok_ends T_end_object"
  "\<not> tok_ends T_begin_array" "\<not> tok_ends T_end_array" "\<not> tok_ends T_value_separator"
  "\<not> tok_ends T_name_separator" "\<not> tok_ends T_literal_true" "\<not> tok_ends T_literal_false"
  "\<not> tok_ends T_literal_null" "\<not> tok_ends (T_string s)" "\<not> tok_ends (T_unsigned n)"
  "\<not> tok_ends (T_integer i)" "\<not> tok_ends (T_float r)" "tok_ends T_parse_error" "tok_ends T_end_of_input"
  by (simp_all add: tok_ends_def)

lemma scan_weight_case:
  "(case scan s of (t, r) \<Rightarrow> 2 * length r + (if tok_ends t then 0 else 2)) \<le> 2 * length s"
  using scan_weight [of _ _ s] by (auto split: prod.split)

function (sequential)
  parse_value :: "frame list \<Rightarrow> token \<Rightarrow> string \<Rightarrow> (json \<times> string) exc" and
  parse_after :: "frame list \<Rightarrow> json \<Rightarrow> string \<Rightarrow> (json \<times> string) exc"
where
  "parse_value fs T_begin_object s = (case scan s of (t1, s1) \<Rightarrow>
       if t1 = T_end_object then parse_after fs (JObject []) s1
       else (case parse_key s of
          None \<Rightarrow> Throw parse_error_101
        | Some (k, t2, s2) \<Rightarrow> parse_value (Open_object [] k # fs) t2 s2))"
| "parse_value fs T_begin_array s = (case scan s of (t1, s1) \<Rightarrow>
       if t1 = T_end_array then parse_after fs (JArray []) s1
       else parse_value (Open_array [] # fs) t1 s1)"
| "parse_value fs (T_float None) s = Throw out_of_range_406"
| "parse_value fs t s = (case scalar t of
       Some v \<Rightarrow> parse_after fs v s
     | None \<Rightarrow> Throw parse_error_101)"
| "parse_after [] v s = Ret (v, s)"
| "parse_after (Open_array xs # fs) v s = (case scan s of (t1, s1) \<Rightarrow>
       if t1 = T_value_separator
       then (case scan s1 of (t2, s2) \<Rightarrow> parse_value (Open_array (xs @ [v]) # fs) t2 s2)
       else if t1 = T_end_array then parse_after fs (JArray (xs @ [v])) s1
       else Throw parse_error_101)"
| "parse_after (Open_object m k # fs) v s = (case scan s of (t1, s1) \<Rightarrow>
       if t1 = T_value_separator
       then (case parse_key s1 of
          None \<Rightarrow> Throw parse_error_101
        | Some (k', t2, s2) \<Rightarrow> parse_value (Open_object (obj_assign k v m) k' # fs) t2 s2)
       else if t1 = T_end_object then parse_after fs (JObject (obj_assign k v m)) s1
       else Throw parse_error_101)"
  by pat_completeness auto

termination
  by (relation "measure parse_measure")
     (auto simp: parse_measure_def dest!: scan_weight parse_key_weight split: if_splits
        intro!: le_less_trans [OF scan_weight_case])

declare parse_value.simps [simp del] parse_after.simps [simp del]

definition parse :: "string \<Rightarrow> json exc" where
  "parse raw = (case scan_first raw of (t, s) \<Rightarrow> (case parse_value [] t s of
       Throw e \<Rightarrow> Throw e
     | Ret (v, r) \<Rightarrow> if fst (scan r) = T_end_of_input then Ret v else Throw parse_error_101))"

end
