(* ===== verification/Cache.thy ===== *)
theory Cache
  imports RedisProps Metrics JsonDump JsonParse
begin

text \<open>
  \<open>CacheManager.cpp\<close>: sessions and positions in Redis, each operation one command on a
  pooled connection. An exception leaves the operation after the connection has gone back.
\<close>

record cache_manager =
  m_enabled :: bool
  m_pool :: "redis_pool option"

definition new_cache :: "bool \<Rightarrow> cache_manager" where
  "new_cache enabled = \<lparr>m_enabled = enabled,
     m_pool = (if enabled then Some \<lparr>pl_available = [], pl_size = 64\<rparr> else None)\<rparr>"

definition session_key :: "int \<Rightarrow> string" where
  "session_key pid = ''session:player:'' @ int_str pid"

definition position_key :: "int \<Rightarrow> string" where
  "position_key pid = ''pos:player:'' @ int_str pid"

definition position_value :: "int \<Rightarrow> int \<Rightarrow> string" where
  "position_value x y = int_str x @ '','' @ int_str y"

text \<open>The guard every operation starts with, and the use of one connection.\<close>

definition on_pool ::
    "pool_answer \<Rightarrow> 'r \<Rightarrow> (cmd_answer \<Rightarrow> redis_conn \<Rightarrow> 'r \<times> redis_conn) \<Rightarrow> cache_manager
      \<Rightarrow> 'r \<times> cache_manager" where
  "on_pool a off f c = (case (m_enabled c, m_pool c) of
       (True, Some p) \<Rightarrow> (case with_pooled a f p of (r, p') \<Rightarrow> (r, c\<lparr>m_pool := Some p'\<rparr>))
     | _ \<Rightarrow> (off, c))"

definition cache_ping :: "pool_answer \<Rightarrow> cache_manager \<Rightarrow> bool \<times> cache_manager" where
  "cache_ping a c = on_pool a False redis_ping c"

definition setPlayerSession ::
    "pool_answer \<Rightarrow> int \<Rightarrow> json \<Rightarrow> int \<Rightarrow> cache_manager
      \<Rightarrow> bool exc \<times> cache_manager" where
  "setPlayerSession a pid session ttl c =
     on_pool a (Ret False)
       (\<lambda>r conn. case dump session of
           Throw e \<Rightarrow> (Throw e, conn)
         | Ret s \<Rightarrow> (case redis_set r (session_key pid) s ttl conn of (ok, conn') \<Rightarrow> (Ret ok, conn'))) c"

definition getPlayerSession ::
    "pool_answer \<Rightarrow> int \<Rightarrow> cache_manager \<times> metrics
      \<Rightarrow> json option exc \<times> cache_manager \<times> metrics" where
  "getPlayerSession a pid cm =
     (let (c, m) = cm
      in case on_pool a (Ret None) (\<lambda>r conn. redis_get r (session_key pid) conn) c of
        (Throw e, c') \<Rightarrow> (Throw e, c', m)
      | (Ret None, c') \<Rightarrow> (Ret None, c', incrementRedisCacheMisses m)
      | (Ret (Some raw), c') \<Rightarrow> (case parse raw of
           Ret j \<Rightarrow> (Ret (Some j), c', incrementRedisCacheHits m)
         | Throw _ \<Rightarrow> (Ret None, c', incrementRedisCacheMisses m)))"

definition deletePlayerSession :: "pool_answer \<Rightarrow> int \<Rightarrow> cache_manager \<Rightarrow> bool \<times> cache_manager" where
  "deletePlayerSession a pid c = on_pool a False (\<lambda>r conn. redis_del r (session_key pid) conn) c"

definition setPlayerPosition ::
    "pool_answer \<Rightarrow> int \<Rightarrow> int \<Rightarrow> int \<Rightarrow> cache_manager \<Rightarrow> bool \<times> cache_manager" where
  "setPlayerPosition a pid x y c =
     on_pool a False (\<lambda>r conn. redis_set r (position_key pid) (position_value x y) 60 conn) c"

text \<open>The text around the first comma; a missing comma is a miss, a non-number throws.\<close>

definition parse_position :: "string \<Rightarrow> (int \<times> int) option exc" where
  "parse_position v = (case dropWhile (\<lambda>ch. ch \<noteq> CHR '','') v of
       [] \<Rightarrow> Ret None
     | _ # rest \<Rightarrow> (case stoi (takeWhile (\<lambda>ch. ch \<noteq> CHR '','') v) of
          Throw e \<Rightarrow> Throw e
        | Ret x \<Rightarrow> (case stoi rest of Throw e \<Rightarrow> Throw e | Ret y \<Rightarrow> Ret (Some (x, y)))))"

definition getPlayerPosition ::
    "pool_answer \<Rightarrow> int \<Rightarrow> cache_manager \<times> metrics
      \<Rightarrow> (int \<times> int) option exc \<times> cache_manager \<times> metrics" where
  "getPlayerPosition a pid cm =
     (let (c, m) = cm
      in case on_pool a (Ret None) (\<lambda>r conn. redis_get r (position_key pid) conn) c of
        (Throw e, c') \<Rightarrow> (Throw e, c', m)
      | (Ret None, c') \<Rightarrow> (Ret None, c', incrementRedisCacheMisses m)
      | (Ret (Some v), c') \<Rightarrow> (case parse_position v of
           Throw e \<Rightarrow> (Throw e, c', m)
         | Ret None \<Rightarrow> (Ret None, c', incrementRedisCacheMisses m)
         | Ret (Some xy) \<Rightarrow> (Ret (Some xy), c', incrementRedisCacheHits m)))"

lemmas cache_op_defs = cache_ping_def setPlayerSession_def getPlayerSession_def
  deletePlayerSession_def setPlayerPosition_def getPlayerPosition_def

section \<open>The pool stays within its size\<close>

definition cache_ok :: "cache_manager \<Rightarrow> bool" where
  "cache_ok c \<longleftrightarrow> (case m_pool c of None \<Rightarrow> True | Some p \<Rightarrow> pool_ok p \<and> pl_size p = 64)"

lemma cache_ok_new [simp]: "cache_ok (new_cache b)"
  by (simp add: cache_ok_def new_cache_def pool_ok_def)

lemma on_pool_ok: "cache_ok c \<Longrightarrow> on_pool a d f c = (r, c') \<Longrightarrow>
    cache_ok c' \<and> m_enabled c' = m_enabled c"
  by (auto simp: on_pool_def cache_ok_def split: bool.splits option.splits prod.splits
      dest: with_pooled_ok)

text \<open>A disabled cache, or one without a pool, does nothing.\<close>

definition cache_off :: "cache_manager \<Rightarrow> bool" where
  "cache_off c \<longleftrightarrow> \<not> m_enabled c \<or> m_pool c = None"

lemma on_pool_off: "cache_off c \<Longrightarrow> on_pool a d f c = (d, c)"
  by (auto simp: cache_off_def on_pool_def split: bool.splits option.splits)

section \<open>Keys and values\<close>

lemma session_key_inj: "session_key i = session_key j \<longleftrightarrow> i = j"
  by (simp add: session_key_def)

lemma position_key_inj: "position_key i = position_key j \<longleftrightarrow> i = j"
  by (simp add: position_key_def)

lemma keys_disjoint: "session_key i \<noteq> position_key j"
  by (simp add: session_key_def position_key_def)

lemma no_comma_nat_str [simp]: "CHR '','' \<notin> set (nat_str n)"
  using nat_str_digits [of n] by (auto simp: is_digit_def)

lemma no_comma_int_str: "CHR '','' \<notin> set (int_str i)"
  by (auto simp: int_str_def)

lemma stoi_int_str:
  assumes "in_i32 i" shows "stoi (int_str i) = Ret i"
proof (cases "i < 0")
  case True
  have "is_space (CHR ''-'') = False" by (simp add: is_space_def)
  then show ?thesis using True assms by (simp add: int_str_def stoi_def Let_def)
next
  case False
  then have "nat i < 2 ^ 31" using assms by (simp add: in_i32_def nat_less_iff)
  then show ?thesis using stoi_nat_str [of "nat i"] False by (simp add: int_str_def)
qed

lemma parse_position_value:
  assumes "in_i32 x" and "in_i32 y"
  shows "parse_position (position_value x y) = Ret (Some (x, y))"
proof -
  have "\<forall>c \<in> set (int_str x). c \<noteq> CHR '',''" using no_comma_int_str by metis
  then have "takeWhile (\<lambda>ch. ch \<noteq> CHR '','') (position_value x y) = int_str x"
    "dropWhile (\<lambda>ch. ch \<noteq> CHR '','') (position_value x y) = CHR '','' # int_str y"
    by (simp_all add: position_value_def takeWhile_append2 dropWhile_append2)
  then show ?thesis using assms by (simp add: parse_position_def stoi_int_str)
qed

section \<open>Stored values come back\<close>

text \<open>The connection the pool would hand out is in step, and the cache is on.\<close>

definition cache_ready :: "cache_manager \<Rightarrow> bool" where
  "cache_ready c \<longleftrightarrow> m_enabled c \<and> (\<exists>p. m_pool c = Some p \<and> pl_available p \<noteq> [] \<and> pool_ok p \<and>
     in_step (last (pl_available p)))"

lemma on_pool_ready:
  assumes "cache_ready c"
    and "\<And>conn. in_step conn \<Longrightarrow> \<exists>out. f (pa_cmd a) conn = (r, conn\<lparr>rc_out := out\<rparr>)"
  shows "\<exists>c'. on_pool a d f c = (r, c') \<and> cache_ready c'"
proof -
  obtain p where p: "m_enabled c" "m_pool c = Some p" "pl_available p \<noteq> []" "pool_ok p"
    "in_step (last (pl_available p))" using assms(1) by (auto simp: cache_ready_def)
  then obtain out where out: "f (pa_cmd a) (last (pl_available p)) = (r, (last (pl_available p))\<lparr>rc_out := out\<rparr>)"
    using assms(2) by blast
  define p' where "p' = p\<lparr>pl_available := butlast (pl_available p) @ [(last (pl_available p))\<lparr>rc_out := out\<rparr>]\<rparr>"
  have open_c: "rc_open (last (pl_available p))" using p(5) by (simp add: in_step_def)
  have "length (butlast (pl_available p)) < pl_size p"
    using p(3,4) by (cases "pl_available p" rule: rev_cases) (auto simp: pool_ok_def)
  then have "with_pooled a f p = (r, p')"
    using p(3) open_c out by (simp add: with_pooled_def acquire_def release_def p'_def Let_def)
  moreover have "pool_ok p'" using p(3,4) by (simp add: p'_def pool_ok_def)
  moreover have "in_step (last (pl_available p'))" using p(5) by (simp add: p'_def in_step_def)
  ultimately show ?thesis using p(1,2)
    by (auto simp: on_pool_def cache_ready_def p'_def)
qed

end
