(* ===== verification/Database.thy ===== *)
theory Database
  imports HashMap Metrics "HOL-Library.Sublist"
begin

text \<open>
  \<open>DatabaseManager.cpp\<close>. The MySQL client library and the server behind it are not part of
  the repository: what their calls answer during one method is an argument (\<open>mysql_answers\<close>).
  The statements the code executes are its own text, and the tables they act on are part of
  the state; a statement that fails leaves them alone. The tables belong to the MySQL server,
  so losing the connection does not lose them.
\<close>

record mysql_answers =
  a_ping :: bool
  a_init :: bool
  a_connect :: bool
  a_stmt_init :: bool
  a_prepare :: bool
  a_bind :: bool
  a_execute :: bool
  a_t0 :: int
  a_t1 :: int
  a_now :: string

record player_row =
  pr_username :: string
  pr_score :: int
  pr_high_score :: int
  pr_kills :: int
  pr_created_at :: string
  pr_updated_at :: string

record event_row =
  er_match_id :: string
  er_player_id :: int
  er_event_type :: string
  er_event_data :: string
  er_created_at :: string

record match_row =
  mr_match_status :: string
  mr_end_time :: string
  mr_total_players :: int
  mr_total_kills :: int
  mr_winner_player_id :: int

record player_db_record =
  rec_player_id :: int
  rec_username :: string
  rec_score :: int
  rec_high_score :: int
  rec_kills :: int
  rec_created_at :: string
  rec_updated_at :: string

record test_run =
  tr_test_name :: string
  tr_concurrent_users :: int
  tr_duration_seconds :: int
  tr_total_requests :: int
  tr_successful_requests :: int
  tr_failed_requests :: int
  tr_requests_per_second :: double
  tr_avg_latency_ms :: double
  tr_p50_latency_ms :: double
  tr_p95_latency_ms :: double
  tr_p99_latency_ms :: double
  tr_max_latency_ms :: double
  tr_error_rate_percent :: double

record database =
  m_conn :: bool
  m_connected :: bool
  t_players :: "(int, player_row) hmap"
  t_events :: "event_row list"
  t_matches :: "(string, match_row) hmap"
  t_test_runs :: "(string, test_run) hmap"

section \<open>Connection\<close>

definition db_open :: "mysql_answers \<Rightarrow> database \<Rightarrow> bool \<times> database" where
  "db_open a d =
     (if m_connected d \<and> m_conn d \<and> a_ping a then (True, d)
      else if \<not> a_init a then (False, d\<lparr>m_conn := False, m_connected := False\<rparr>)
      else if \<not> a_connect a then (False, d\<lparr>m_conn := False, m_connected := False\<rparr>)
      else (True, d\<lparr>m_conn := True, m_connected := True\<rparr>))"

definition db_close :: "database \<Rightarrow> database" where
  "db_close d = d\<lparr>m_conn := False, m_connected := False\<rparr>"

section \<open>Statements\<close>

definition sql_upsert_player ::
    "string \<Rightarrow> int \<Rightarrow> string \<Rightarrow> int \<Rightarrow> int \<Rightarrow> database \<Rightarrow> database" where
  "sql_upsert_player now pid user score kills d =
     (case map_of (t_players d) pid of
        None \<Rightarrow> d\<lparr>t_players := hm_emplace pid
          \<lparr>pr_username = user, pr_score = score, pr_high_score = score, pr_kills = kills,
           pr_created_at = now, pr_updated_at = now\<rparr> (t_players d)\<rparr>
      | Some r \<Rightarrow> d\<lparr>t_players := hm_assign pid
          (r\<lparr>pr_score := score, pr_high_score := max (pr_high_score r) score,
             pr_kills := max (pr_kills r) kills, pr_updated_at := now\<rparr>) (t_players d)\<rparr>)"

definition sql_insert_event ::
    "string \<Rightarrow> string \<Rightarrow> int \<Rightarrow> string \<Rightarrow> string \<Rightarrow> database \<Rightarrow> database" where
  "sql_insert_event now mid pid ty dat d = d\<lparr>t_events := t_events d @
     [\<lparr>er_match_id = mid, er_player_id = pid, er_event_type = ty, er_event_data = dat,
       er_created_at = now\<rparr>]\<rparr>"

definition sql_upsert_match ::
    "string \<Rightarrow> string \<Rightarrow> string \<Rightarrow> int \<Rightarrow> int \<Rightarrow> int \<Rightarrow> database \<Rightarrow> database" where
  "sql_upsert_match now mid st players kills winner d =
     (let row = \<lparr>mr_match_status = st, mr_end_time = now, mr_total_players = players,
                 mr_total_kills = kills, mr_winner_player_id = winner\<rparr>
      in d\<lparr>t_matches := (if hm_count (t_matches d) mid then hm_assign mid row (t_matches d)
                         else hm_emplace mid row (t_matches d))\<rparr>)"

definition db_seconds :: "mysql_answers \<Rightarrow> double" where
  "db_seconds a = duration_seconds (a_t1 a - a_t0 a)"

section \<open>Operations\<close>

definition upsertPlayer ::
    "mysql_answers \<Rightarrow> int \<Rightarrow> string \<Rightarrow> int \<Rightarrow> int \<Rightarrow> database \<Rightarrow> metrics
      \<Rightarrow> bool \<times> database \<times> metrics" where
  "upsertPlayer a pid user score kills d m =
     (case db_open a d of
        (False, d1) \<Rightarrow> (False, d1, m)
      | (True, d1) \<Rightarrow>
          if \<not> a_stmt_init a then (False, d1, recordDatabaseOperation 0 False m)
          else if \<not> a_prepare a then (False, d1, recordDatabaseOperation 0 False m)
          else if \<not> a_bind a then (False, d1, recordDatabaseOperation 0 False m)
          else let d2 = (if a_execute a then sql_upsert_player (a_now a) pid user score kills d1
                         else d1)
               in (a_execute a, d2, recordDatabaseOperation (db_seconds a) (a_execute a) m))"

text \<open>
  A row whose user name does not fit the 64-byte result buffer is fetched as truncated, a
  non-zero result, and so not returned. The results of binding are not looked at.
\<close>

definition getPlayer ::
    "mysql_answers \<Rightarrow> int \<Rightarrow> database \<Rightarrow> metrics \<Rightarrow> player_db_record option \<times> database \<times> metrics" where
  "getPlayer a pid d m =
     (case db_open a d of
        (False, d1) \<Rightarrow> (None, d1, m)
      | (True, d1) \<Rightarrow>
          if \<not> a_stmt_init a then (None, d1, m)
          else if \<not> a_prepare a then (None, d1, recordDatabaseOperation 0 False m)
          else if \<not> a_execute a then (None, d1, recordDatabaseOperation 0 False m)
          else let res = (case map_of (t_players d1) pid of
                   None \<Rightarrow> None
                 | Some r \<Rightarrow>
                     if length (pr_username r) \<le> 64 \<and> length (pr_created_at r) \<le> 63
                        \<and> length (pr_updated_at r) \<le> 63
                     then Some \<lparr>rec_player_id = pid, rec_username = pr_username r,
                       rec_score = pr_score r, rec_high_score = pr_high_score r,
                       rec_kills = pr_kills r, rec_created_at = pr_created_at r,
                       rec_updated_at = pr_updated_at r\<rparr>
                     else None)
               in (res, d1, recordDatabaseOperation (db_seconds a) True m))"

definition db_recordEvent ::
    "mysql_answers \<Rightarrow> string \<Rightarrow> int \<Rightarrow> string \<Rightarrow> string \<Rightarrow> database \<Rightarrow> metrics
      \<Rightarrow> bool \<times> database \<times> metrics" where
  "db_recordEvent a mid pid ty dat d m =
     (case db_open a d of
        (False, d1) \<Rightarrow> (False, d1, m)
      | (True, d1) \<Rightarrow>
          if \<not> a_stmt_init a then (False, d1, m)
          else if \<not> a_prepare a then (False, d1, recordDatabaseOperation 0 False m)
          else let d2 = (if a_execute a then sql_insert_event (a_now a) mid pid ty dat d1 else d1)
               in (a_execute a, d2, recordDatabaseOperation (db_seconds a) (a_execute a) m))"

definition saveMatch ::
    "mysql_answers \<Rightarrow> string \<Rightarrow> string \<Rightarrow> int \<Rightarrow> int \<Rightarrow> int \<Rightarrow> database \<Rightarrow> metrics
      \<Rightarrow> bool \<times> database \<times> metrics" where
  "saveMatch a mid st players kills winner d m =
     (case db_open a d of
        (False, d1) \<Rightarrow> (False, d1, m)
      | (True, d1) \<Rightarrow>
          if \<not> a_stmt_init a then (False, d1, m)
          else if \<not> a_prepare a then (False, d1, recordDatabaseOperation 0 False m)
          else let d2 = (if a_execute a
                         then sql_upsert_match (a_now a) mid st players kills winner d1 else d1)
               in (a_execute a, d2, recordDatabaseOperation (db_seconds a) (a_execute a) m))"

text \<open>
  The run id is the primary key: a second run with the same id fails in the server whatever
  else it answers. This method counts nothing in the metrics.
\<close>

definition saveTestRun :: "mysql_answers \<Rightarrow> string \<Rightarrow> test_run \<Rightarrow> database \<Rightarrow> bool \<times> database" where
  "saveTestRun a run_id run d =
     (case db_open a d of
        (False, d1) \<Rightarrow> (False, d1)
      | (True, d1) \<Rightarrow>
          if \<not> a_stmt_init a then (False, d1)
          else if \<not> a_prepare a then (False, d1)
          else let ok = a_execute a \<and> \<not> hm_count (t_test_runs d1) run_id
               in (ok, if ok then d1\<lparr>t_test_runs := hm_emplace run_id run (t_test_runs d1)\<rparr> else d1))"

text \<open>What \<open>mysql_query\<close>, \<open>mysql_store_result\<close> and \<open>mysql_fetch_row\<close> answer to a count.\<close>

record count_answers =
  ct_query :: bool
  ct_store :: bool
  ct_row :: bool

definition counted_rows :: "count_answers \<Rightarrow> nat \<Rightarrow> int" where
  "counted_rows q rows = (if \<not> ct_query q then 0 else if \<not> ct_store q then 0
     else if ct_row q then int (digits_val (nat_str rows)) else 0)"

definition getPlayerCount :: "mysql_answers \<Rightarrow> count_answers \<Rightarrow> database \<Rightarrow> int \<times> database" where
  "getPlayerCount a q d = (case db_open a d of
       (False, d1) \<Rightarrow> (0, d1)
     | (True, d1) \<Rightarrow> (counted_rows q (length (t_players d1)), d1))"

definition getEventCount :: "mysql_answers \<Rightarrow> count_answers \<Rightarrow> database \<Rightarrow> int \<times> database" where
  "getEventCount a q d = (case db_open a d of
       (False, d1) \<Rightarrow> (0, d1)
     | (True, d1) \<Rightarrow> (counted_rows q (length (t_events d1)), d1))"

section \<open>The schema file\<close>

text \<open>
  Lines are collected until one holds a semicolon; a line that begins with two dashes is
  skipped, and what follows the last semicolon is not executed.
\<close>

fun schema_loop :: "string \<Rightarrow> string list \<Rightarrow> string list" where
  "schema_loop statement [] = []"
| "schema_loop statement (line # ls) =
     (if prefix ''--'' line then schema_loop statement ls
      else let statement = statement @ line @ [LF]
           in if CHR '';'' \<in> set line then statement # schema_loop [] ls
              else schema_loop statement ls)"

definition schema_statements :: "string \<Rightarrow> string list" where
  "schema_statements sql = schema_loop [] (text_lines sql)"

text \<open>
  The result, the statements sent to the server (a refused one is only logged), and the
  state; \<open>None\<close> is a file that cannot be opened. The statements only create tables.
\<close>

definition initSchema :: "mysql_answers \<Rightarrow> string option \<Rightarrow> database \<Rightarrow> bool \<times> string list \<times> database" where
  "initSchema a file d = (case db_open a d of
       (False, d1) \<Rightarrow> (False, [], d1)
     | (True, d1) \<Rightarrow> (case file of
          None \<Rightarrow> (True, [], d1)
        | Some sql \<Rightarrow> (True, schema_statements sql, d1)))"

text \<open>
  The statements are the text without its comment lines, up to the last line with a semicolon,
  cut behind such lines: nothing else is dropped and nothing is executed twice.
\<close>

lemma schema_loop_text:
  "\<exists>rest. statement @ concat (map (\<lambda>l. l @ [LF]) (filter (\<lambda>l. \<not> prefix ''--'' l) ls)) =
     concat (schema_loop statement ls) @ rest"
proof (induction statement ls rule: schema_loop.induct)
  case (2 statement line ls)
  then show ?case by (auto simp: Let_def)
qed simp

lemma schema_loop_complete: "s \<in> set (schema_loop statement ls) \<Longrightarrow> CHR '';'' \<in> set s"
  by (induction statement ls rule: schema_loop.induct) (auto simp: Let_def split: if_splits)

text \<open>A run is stored once: the second one with its id is refused and changes nothing.\<close>

lemma saveTestRun_once:
  assumes "saveTestRun a i run d = (True, d1)"
  shows "map_of (t_test_runs d1) i = Some run" and "saveTestRun b i run' d1 = (ok, d2) \<Longrightarrow>
     \<not> ok \<and> t_test_runs d2 = t_test_runs d1"
proof -
  obtain x d0 where o: "db_open a d = (x, d0)" by fastforce
  then show m: "map_of (t_test_runs d1) i = Some run" using assms
    by (auto simp: saveTestRun_def Let_def hm_count_def hm_find map_of_hm_emplace split: bool.splits if_splits)
  assume "saveTestRun b i run' d1 = (ok, d2)"
  then show "\<not> ok \<and> t_test_runs d2 = t_test_runs d1"
    using m by (auto simp: saveTestRun_def Let_def hm_count_def db_open_def split: bool.splits if_splits)
qed

lemma counts_are_rows: "a_init a \<and> a_connect a \<Longrightarrow> ct_query q \<and> ct_store q \<and> ct_row q \<Longrightarrow>
    fst (getPlayerCount a q d) = int (length (t_players d)) \<and>
    fst (getEventCount a q d) = int (length (t_events d))"
  by (simp add: getPlayerCount_def getEventCount_def counted_rows_def db_open_def split: bool.split)

lemmas db_op_defs = upsertPlayer_def getPlayer_def db_recordEvent_def saveMatch_def

section \<open>What the operations keep\<close>

text \<open>The best score on record is never below the current one, and keys are unique.\<close>

definition db_ok :: "database \<Rightarrow> bool" where
  "db_ok d \<longleftrightarrow> hm_wf (t_players d) \<and>
     (\<forall>pid r. map_of (t_players d) pid = Some r \<longrightarrow> pr_score r \<le> pr_high_score r)"

lemma db_open_tables [simp]:
  "t_players (snd (db_open a d)) = t_players d" "t_events (snd (db_open a d)) = t_events d"
  "t_matches (snd (db_open a d)) = t_matches d"
  by (simp_all add: db_open_def)

lemma db_open_split: "db_open a d = (ok, d1) \<Longrightarrow>
    t_players d1 = t_players d \<and> t_events d1 = t_events d \<and> t_matches d1 = t_matches d"
  by (auto simp: db_open_def split: if_splits)

lemma db_ok_upsert: "db_ok d \<Longrightarrow> db_ok (sql_upsert_player now pid user score kills d)"
  by (auto simp: db_ok_def sql_upsert_player_def hm.wf_ops hm_find split: option.splits if_splits)

lemma upsertPlayer_ok:
  assumes "upsertPlayer a pid user score kills d m = (ok, d', m')" and "db_ok d"
  shows "db_ok d'"
proof -
  obtain b d1 where o: "db_open a d = (b, d1)" by fastforce
  then have "db_ok d1" using assms(2) db_open_split by (simp add: db_ok_def)
  then show ?thesis using assms(1) o db_ok_upsert
    by (auto simp: upsertPlayer_def Let_def split: bool.splits if_splits)
qed

text \<open>A successful write executed its statement, a failed one left the tables alone.\<close>

lemma upsertPlayer_effect:
  assumes "upsertPlayer a pid user score kills d m = (ok, d', m')"
  shows "t_players d' = (if ok then t_players (sql_upsert_player (a_now a) pid user score kills d)
           else t_players d)" and "t_events d' = t_events d" and "t_matches d' = t_matches d"
proof -
  obtain b d1 where o: "db_open a d = (b, d1)" by fastforce
  have "t_players d' = (if ok then t_players (sql_upsert_player (a_now a) pid user score kills d)
           else t_players d) \<and> t_events d' = t_events d \<and> t_matches d' = t_matches d"
    using assms o db_open_split [OF o]
    by (auto simp: upsertPlayer_def sql_upsert_player_def Let_def split: bool.splits if_splits option.splits)
  then show "t_players d' = (if ok then t_players (sql_upsert_player (a_now a) pid user score kills d)
           else t_players d)" "t_events d' = t_events d" "t_matches d' = t_matches d" by auto
qed

end
