(* ===== verification/JsonUtf8.thy ===== *)
theory JsonUtf8
  imports JsonLex JsonDump
begin

text \<open>
  The lexer checks UTF-8 by ranges of bytes, the serializer by a state machine with a table.
  They accept the same strings: what has been read can be written.
\<close>

definition in_ranges :: "(nat \<times> nat) list \<Rightarrow> string \<Rightarrow> bool" where
  "in_ranges rs bs \<longleftrightarrow> list_all2 (\<lambda>(lo, hi) c. lo \<le> cv c \<and> cv c \<le> hi) rs bs"

inductive utf8 :: "string \<Rightarrow> bool" where
  utf8_Nil: "utf8 []"
| utf8_ascii: "cv c < 0x80 \<Longrightarrow> utf8 s \<Longrightarrow> utf8 (c # s)"
| utf8_multi: "utf8_tail (cv c) = Some rs \<Longrightarrow> in_ranges rs bs \<Longrightarrow> utf8 s \<Longrightarrow> utf8 (c # bs @ s)"

lemma in_ranges_simps [simp]: "in_ranges [] bs \<longleftrightarrow> bs = []"
  "in_ranges ((lo, hi) # rs) (c # bs) \<longleftrightarrow> lo \<le> cv c \<and> cv c \<le> hi \<and> in_ranges rs bs"
  "\<not> in_ranges ((lo, hi) # rs) []"
  by (auto simp: in_ranges_def)

lemma next_byte_in_rangeI: "in_ranges rs bs \<Longrightarrow> next_byte_in_range rs (bs @ u) = Some (bs, u)"
proof (induction rs arbitrary: bs)
  case (Cons r rs)
  obtain lo hi where r: "r = (lo, hi)" by fastforce
  from Cons r show ?case by (cases bs) auto
qed simp

lemma next_byte_in_rangeD: "next_byte_in_range rs t = Some (bs, u) \<Longrightarrow> t = bs @ u \<and> in_ranges rs bs"
proof (induction rs arbitrary: t bs)
  case (Cons r rs)
  obtain lo hi where r: "r = (lo, hi)" by fastforce
  from Cons r show ?case by (cases t) (auto split: if_splits option.splits)
qed simp

lemma cv_less [simp]: "cv c < 256"
  by (metis of_char_mod_256 mod_less_divisor zero_less_numeral)

section \<open>The table\<close>

lemma utf8_class:
  "b < 128 \<Longrightarrow> utf8d ! b = 0"
  "128 \<le> b \<Longrightarrow> b < 144 \<Longrightarrow> utf8d ! b = 1"
  "144 \<le> b \<Longrightarrow> b < 160 \<Longrightarrow> utf8d ! b = 9"
  "160 \<le> b \<Longrightarrow> b < 192 \<Longrightarrow> utf8d ! b = 7"
  "192 \<le> b \<Longrightarrow> b < 194 \<Longrightarrow> utf8d ! b = 8"
  "194 \<le> b \<Longrightarrow> b < 224 \<Longrightarrow> utf8d ! b = 2"
  by (auto simp: utf8d_def nth_append)

lemma utf8_class_E:
  assumes "224 \<le> b" and "b < 240"
  shows "utf8d ! b = (if b = 224 then 10 else if b = 237 then 4 else 3)"
proof -
  have "b = 224 \<or> b = 225 \<or> b = 226 \<or> b = 227 \<or> b = 228 \<or> b = 229 \<or> b = 230 \<or> b = 231 \<or>
      b = 232 \<or> b = 233 \<or> b = 234 \<or> b = 235 \<or> b = 236 \<or> b = 237 \<or> b = 238 \<or> b = 239" using assms by presburger
  then show ?thesis by (elim disjE) (simp_all add: utf8d_def nth_append)
qed

lemma utf8_class_F:
  assumes "240 \<le> b" and "b < 256"
  shows "utf8d ! b = (if b = 240 then 11 else if b \<le> 243 then 6 else if b = 244 then 5 else 8)"
proof -
  have "b = 240 \<or> b = 241 \<or> b = 242 \<or> b = 243 \<or> b = 244 \<or> b = 245 \<or> b = 246 \<or> b = 247 \<or>
      b = 248 \<or> b = 249 \<or> b = 250 \<or> b = 251 \<or> b = 252 \<or> b = 253 \<or> b = 254 \<or> b = 255" using assms by presburger
  then show ?thesis by (elim disjE) (simp_all add: utf8d_def nth_append)
qed

definition utf8_next :: "nat \<Rightarrow> nat \<Rightarrow> nat" where
  "utf8_next st ty = utf8d ! (256 + st * 16 + ty)"

lemma utf8_next_0 [simp]: "utf8_next 0 0 = 0" "utf8_next 0 (Suc 0) = 1" "utf8_next 0 2 = 2"
  "utf8_next 0 3 = 3" "utf8_next 0 4 = 5" "utf8_next 0 5 = 8" "utf8_next 0 6 = 7"
  "utf8_next 0 7 = 1" "utf8_next 0 8 = 1" "utf8_next 0 9 = 1" "utf8_next 0 10 = 4"
  "utf8_next 0 11 = 6"
  by (simp_all add: utf8_next_def utf8d_def nth_append)

lemma utf8_next_cont:
  assumes "ty < 12"
  shows "utf8_next 2 ty = (if ty = 1 \<or> ty = 7 \<or> ty = 9 then 0 else 1)"
    and "utf8_next 3 ty = (if ty = 1 \<or> ty = 7 \<or> ty = 9 then 2 else 1)"
    and "utf8_next 4 ty = (if ty = 7 then 2 else 1)"
    and "utf8_next 5 ty = (if ty = 1 \<or> ty = 9 then 2 else 1)"
    and "utf8_next 6 ty = (if ty = 7 \<or> ty = 9 then 3 else 1)"
    and "utf8_next 7 ty = (if ty = 1 \<or> ty = 7 \<or> ty = 9 then 3 else 1)"
    and "utf8_next 8 ty = (if ty = 1 then 3 else 1)"
proof -
  have "ty = 0 \<or> ty = 1 \<or> ty = 2 \<or> ty = 3 \<or> ty = 4 \<or> ty = 5 \<or> ty = 6 \<or> ty = 7 \<or> ty = 8 \<or>
      ty = 9 \<or> ty = 10 \<or> ty = 11" using assms by presburger
  then show "utf8_next 2 ty = (if ty = 1 \<or> ty = 7 \<or> ty = 9 then 0 else 1)"
    and "utf8_next 3 ty = (if ty = 1 \<or> ty = 7 \<or> ty = 9 then 2 else 1)"
    and "utf8_next 4 ty = (if ty = 7 then 2 else 1)"
    and "utf8_next 5 ty = (if ty = 1 \<or> ty = 9 then 2 else 1)"
    and "utf8_next 6 ty = (if ty = 7 \<or> ty = 9 then 3 else 1)"
    and "utf8_next 7 ty = (if ty = 1 \<or> ty = 7 \<or> ty = 9 then 3 else 1)"
    and "utf8_next 8 ty = (if ty = 1 then 3 else 1)"
    by (elim disjE; simp add: utf8_next_def utf8d_def nth_append)+
qed

text \<open>The classes of all bytes at once.\<close>

lemma utf8_class_all: "b < 256 \<Longrightarrow> utf8d ! b =
   (if b < 128 then 0 else if b < 144 then 1 else if b < 160 then 9 else if b < 192 then 7
    else if b < 194 then 8 else if b < 224 then 2 else if b = 224 then 10 else if b = 237 then 4
    else if b < 240 then 3 else if b = 240 then 11 else if b \<le> 243 then 6
    else if b = 244 then 5 else 8)"
  by (cases "b < 224"; cases "b < 240") (auto simp: utf8_class utf8_class_E utf8_class_F)

section \<open>One code point\<close>

text \<open>The ranges of the bytes that a state waits for, and the bounds on the code point so far.\<close>

fun state_ranges :: "nat \<Rightarrow> (nat \<times> nat) list" where
  "state_ranges st = (if st = 2 then [(0x80, 0xBF)]
     else if st = 3 then [(0x80, 0xBF), (0x80, 0xBF)]
     else if st = 4 then [(0xA0, 0xBF), (0x80, 0xBF)]
     else if st = 5 then [(0x80, 0x9F), (0x80, 0xBF)]
     else if st = 6 then [(0x90, 0xBF), (0x80, 0xBF), (0x80, 0xBF)]
     else if st = 7 then [(0x80, 0xBF), (0x80, 0xBF), (0x80, 0xBF)]
     else if st = 8 then [(0x80, 0x8F), (0x80, 0xBF), (0x80, 0xBF)]
     else [])"

definition open_state :: "nat \<Rightarrow> nat \<Rightarrow> bool" where
  "open_state st cp \<longleftrightarrow> st = 2 \<and> 2 \<le> cp \<and> cp < 2 ^ 15 \<or> st = 3 \<and> 1 \<le> cp \<and> cp < 2 ^ 9 \<or>
     st = 4 \<and> cp = 0 \<or> st = 5 \<and> 1 \<le> cp \<and> cp < 32 \<or> st = 6 \<and> cp = 0 \<or>
     st = 7 \<and> 1 \<le> cp \<and> cp < 4 \<or> st = 8 \<and> 1 \<le> cp \<and> cp < 8"

lemma utf8_decode_lead:
  assumes "b < 256" and "utf8_decode UTF8_ACCEPT cp b = (st', cp')"
  shows "if b < 128 then st' = UTF8_ACCEPT \<and> cp' = b
     else case utf8_tail b of None \<Rightarrow> st' = UTF8_REJECT
       | Some rs \<Rightarrow> open_state st' cp' \<and> state_ranges st' = rs"
proof -
  have st: "st' = utf8_next 0 (utf8d ! b)" and cp: "cp' = b mod 2 ^ (8 - utf8d ! b)"
    using assms(2) by (auto simp: utf8_decode_def utf8_next_def UTF8_ACCEPT_def Let_def)
  consider "b < 128" | "128 \<le> b" "b < 194" | "194 \<le> b" "b < 224" | "b = 224" | "b = 237"
    | "225 \<le> b" "b < 240" "b \<noteq> 237" | "b = 240" | "241 \<le> b" "b \<le> 243" | "b = 244" | "245 \<le> b"
    by linarith
  then show ?thesis
  proof cases
    case 3
    then have "b mod 64 = b - 192" by (simp add: mod_nat_eqI)
    then show ?thesis using 3 st cp
      by (auto simp: utf8_class_all utf8_tail_def open_state_def)
  next
    case 6
    then have "b mod 32 = b - 224" by (simp add: mod_nat_eqI)
    then show ?thesis using 6 st cp
      by (auto simp: utf8_class_all utf8_tail_def open_state_def)
  next
    case 8
    then have "b mod 4 = b - 240" by (simp add: mod_nat_eqI)
    then show ?thesis using 8 st cp
      by (auto simp: utf8_class_all utf8_tail_def open_state_def)
  qed (use assms(1) st cp in \<open>auto simp: utf8_class_all utf8_tail_def open_state_def UTF8_ACCEPT_def
      UTF8_REJECT_def\<close>)
qed

lemma mod64: "128 \<le> b \<Longrightarrow> b < 192 \<Longrightarrow> b mod 64 = b - (128::nat)"
  by (simp add: mod_nat_eqI)

lemma utf8_class_cont:
  assumes "b < 256"
  shows "utf8d ! b = 1 \<longleftrightarrow> 128 \<le> b \<and> b < 144" and "utf8d ! b = 9 \<longleftrightarrow> 144 \<le> b \<and> b < 160"
    and "utf8d ! b = 7 \<longleftrightarrow> 160 \<le> b \<and> b < 192"
  by (auto simp: utf8_class_all [OF assms])

lemma utf8_decode_cont:
  assumes "b < 256" and "open_state st cp" and "utf8_decode st cp b = (st', cp')"
    and "state_ranges st = (lo, hi) # rs"
  shows "if lo \<le> b \<and> b \<le> hi
         then (if rs = [] then st' = UTF8_ACCEPT \<and> 0x80 \<le> cp'
               else open_state st' cp' \<and> state_ranges st' = rs)
         else st' = UTF8_REJECT"
proof -
  have st0: "st \<noteq> 0" "cp < 2 ^ 15" using assms(2) by (auto simp: open_state_def)
  then have st: "st' = utf8_next st (utf8d ! b)" and "cp' = (cp * 64 + b mod 64) mod 2 ^ 32"
    using assms(3) by (auto simp: utf8_decode_def utf8_next_def UTF8_ACCEPT_def Let_def)
  moreover have "b mod 64 < 64" by simp
  ultimately have cp: "cp' = cp * 64 + b mod 64" using st0(2) by simp
  have ty: "utf8d ! b < 12" using assms(1) by (simp add: utf8_class_all)
  note next_st = utf8_next_cont [OF ty] utf8_class_cont [OF assms(1)]
  note defs = cp open_state_def UTF8_ACCEPT_def UTF8_REJECT_def mod64
  consider "st = 2" | "st = 3" | "st = 4" | "st = 5" | "st = 6" | "st = 7" | "st = 8"
    using assms(2) by (auto simp: open_state_def)
  then show ?thesis
  proof cases
    case 1
    then have "st' = (if 128 \<le> b \<and> b < 192 then 0 else 1)" by (auto simp: st next_st simp del: One_nat_def)
    then show ?thesis using 1 assms(2,4) by (auto simp: defs)
  next
    case 2
    then have "st' = (if 128 \<le> b \<and> b < 192 then 2 else 1)" by (auto simp: st next_st simp del: One_nat_def)
    then show ?thesis using 2 assms(2,4) by (auto simp: defs)
  next
    case 3
    then have "st' = (if 160 \<le> b \<and> b < 192 then 2 else 1)" by (auto simp: st next_st simp del: One_nat_def)
    then show ?thesis using 3 assms(2,4) by (auto simp: defs)
  next
    case 4
    then have "st' = (if 128 \<le> b \<and> b < 160 then 2 else 1)" by (auto simp: st next_st simp del: One_nat_def)
    then show ?thesis using 4 assms(2,4) by (auto simp: defs)
  next
    case 5
    then have "st' = (if 144 \<le> b \<and> b < 192 then 3 else 1)" by (auto simp: st next_st simp del: One_nat_def)
    then show ?thesis using 5 assms(2,4) by (auto simp: defs)
  next
    case 6
    then have "st' = (if 128 \<le> b \<and> b < 192 then 3 else 1)" by (auto simp: st next_st simp del: One_nat_def)
    then show ?thesis using 6 assms(2,4) by (auto simp: defs)
  next
    case 7
    then have "st' = (if 128 \<le> b \<and> b < 144 then 3 else 1)" by (auto simp: st next_st simp del: One_nat_def)
    then show ?thesis using 7 assms(2,4) by (auto simp: defs)
  qed
qed

lemma open_state_ranges: "open_state st cp \<Longrightarrow> state_ranges st \<noteq> []"
  by (auto simp: open_state_def)

lemma open_state_not_final: "open_state st cp \<Longrightarrow> st \<noteq> UTF8_ACCEPT \<and> st \<noteq> UTF8_REJECT"
  by (auto simp: open_state_def UTF8_ACCEPT_def UTF8_REJECT_def)

lemma put_Ret [simp]: "put s (Ret t) = Ret (s @ t)" and put_Throw [simp]: "put s (Throw e) = Throw e"
  and put_put [simp]: "put s (put t r) = put (s @ t) r"
  by (simp_all add: put_def split: exc.split)

lemma put_eq_Ret: "put s r = Ret t \<longleftrightarrow> (\<exists>u. r = Ret u \<and> t = s @ u)"
  by (auto simp: put_def split: exc.splits)

lemma escape_multi: "0x80 \<le> cp \<Longrightarrow> escape cp c = [c]"
  by (simp add: escape_def)

text \<open>The bytes of a code point that is well-formed are copied, and the machine accepts.\<close>

lemma dump_escaped_open:
  assumes "open_state st cp" and "in_ranges (state_ranges st) bs"
  shows "\<exists>cp'. dump_escaped st cp (bs @ s) = put bs (dump_escaped UTF8_ACCEPT cp' s)"
  using assms
proof (induction bs arbitrary: st cp)
  case Nil
  obtain r rs where "state_ranges st = r # rs"
    using open_state_ranges [OF Nil(1)] by (meson neq_Nil_conv)
  then show ?case using Nil(2) by (cases r) (simp del: state_ranges.simps)
next
  case (Cons c bs)
  obtain lo hi rs where r: "state_ranges st = (lo, hi) # rs"
    using open_state_ranges [OF Cons(2)] by (metis neq_Nil_conv surj_pair)
  obtain st' cp' where d: "utf8_decode st cp (cv c) = (st', cp')" by fastforce
  have rng: "lo \<le> cv c" "cv c \<le> hi" "in_ranges rs bs"
    using Cons(3) r by (simp_all del: state_ranges.simps)
  note step = utf8_decode_cont [OF cv_less Cons(2) d r]
  show ?case
  proof (cases "rs = []")
    case True
    then have "st' = UTF8_ACCEPT" "0x80 \<le> cp'" "bs = []" using step rng by auto
    then show ?thesis using d by (auto simp: escape_multi)
  next
    case False
    then have "open_state st' cp'" "state_ranges st' = rs" using step rng by auto
    then obtain cp'' where "dump_escaped st' cp' (bs @ s) = put bs (dump_escaped UTF8_ACCEPT cp'' s)"
      using Cons.IH [of st' cp'] rng(3) by auto
    then show ?thesis using d open_state_not_final [OF \<open>open_state st' cp'\<close>] by auto
  qed
qed

lemma dump_escaped_openD:
  assumes "open_state st cp" and "dump_escaped st cp t = Ret u"
  obtains bs s cp' where "t = bs @ s" and "in_ranges (state_ranges st) bs"
    and "\<exists>v. dump_escaped UTF8_ACCEPT cp' s = Ret v"
  using assms
proof (induction t arbitrary: st cp u thesis)
  case Nil
  then show ?case using open_state_not_final by (auto split: if_splits)
next
  case (Cons c t)
  obtain lo hi rs where r: "state_ranges st = (lo, hi) # rs"
    using open_state_ranges [OF Cons(3)] by (metis neq_Nil_conv surj_pair)
  obtain st' cp' where d: "utf8_decode st cp (cv c) = (st', cp')" by fastforce
  note step = utf8_decode_cont [OF cv_less Cons(3) d r]
  have rng: "lo \<le> cv c \<and> cv c \<le> hi"
    using step Cons(4) d by (auto simp: UTF8_ACCEPT_def UTF8_REJECT_def split: if_splits)
  show ?case
  proof (cases "rs = []")
    case True
    then have "st' = UTF8_ACCEPT" using step rng by simp
    then have "\<exists>v. dump_escaped UTF8_ACCEPT cp' t = Ret v" using Cons(4) d by (auto simp: put_eq_Ret)
    moreover have "in_ranges (state_ranges st) [c]" using r rng True by (simp del: state_ranges.simps)
    ultimately show ?thesis using Cons(2) [of "[c]" t cp'] by simp
  next
    case False
    then have o: "open_state st' cp'" "state_ranges st' = rs" using step rng by auto
    then have "\<exists>v. dump_escaped st' cp' t = Ret v"
      using Cons(4) d open_state_not_final [OF o(1)] by (auto simp: put_eq_Ret)
    then obtain bs s cp'' where s: "t = bs @ s" "in_ranges (state_ranges st') bs"
      "\<exists>v. dump_escaped UTF8_ACCEPT cp'' s = Ret v" using Cons.IH [OF _ o(1)] by metis
    then have "in_ranges (state_ranges st) (c # bs)" using r rng o(2) by (simp del: state_ranges.simps)
    then show ?thesis using Cons(2) [of "c # bs" s cp''] s by simp
  qed
qed

text \<open>In the accepting state the code point does not matter.\<close>

lemma dump_escaped_cp: "dump_escaped UTF8_ACCEPT cp s = dump_escaped UTF8_ACCEPT 0 s"
  by (cases s) (simp_all add: utf8_decode_def Let_def)

lemma dump_escaped_ascii:
  "cv c < 0x80 \<Longrightarrow> dump_escaped UTF8_ACCEPT cp (c # s) =
     put (escape (cv c) c) (dump_escaped UTF8_ACCEPT 0 s)"
  using utf8_decode_lead [OF cv_less, of cp c] dump_escaped_cp [of "cv c"]
  by (auto split: prod.splits)

lemma dump_escaped_multi:
  assumes "utf8_tail (cv c) = Some rs" and "in_ranges rs bs"
  shows "dump_escaped UTF8_ACCEPT cp (c # bs @ s) = put (c # bs) (dump_escaped UTF8_ACCEPT 0 s)"
proof -
  obtain st' cp' where d: "utf8_decode UTF8_ACCEPT cp (cv c) = (st', cp')" by fastforce
  have "\<not> cv c < 0x80" using assms(1) by (auto simp: utf8_tail_def split: if_splits)
  then have o: "open_state st' cp'" "state_ranges st' = rs"
    using utf8_decode_lead [OF cv_less d] assms(1) by (simp_all del: state_ranges.simps)
  obtain cp'' where "dump_escaped st' cp' (bs @ s) = put bs (dump_escaped UTF8_ACCEPT cp'' s)"
    using dump_escaped_open [OF o(1)] o(2) assms(2) by metis
  then show ?thesis using d open_state_not_final [OF o(1)] dump_escaped_cp [of cp''] by simp
qed

lemma utf8_dump: "utf8 s \<Longrightarrow> \<exists>t. dump_escaped UTF8_ACCEPT cp s = Ret t"
proof (induction arbitrary: cp rule: utf8.induct)
  case (utf8_ascii c s)
  obtain t where "dump_escaped UTF8_ACCEPT 0 s = Ret t" using utf8_ascii.IH by blast
  then show ?case by (simp only: dump_escaped_ascii [OF utf8_ascii.hyps(1)]) simp
next
  case (utf8_multi c rs bs s)
  obtain t where "dump_escaped UTF8_ACCEPT 0 s = Ret t" using utf8_multi.IH by blast
  then show ?case by (simp only: dump_escaped_multi [OF utf8_multi.hyps(1,2)]) simp
qed simp

lemma dump_utf8: "dump_escaped UTF8_ACCEPT cp s = Ret t \<Longrightarrow> utf8 s"
proof (induction "length s" arbitrary: s cp t rule: less_induct)
  case less
  show ?case
  proof (cases s)
    case (Cons c u)
    obtain st' cp' where d: "utf8_decode UTF8_ACCEPT cp (cv c) = (st', cp')" by fastforce
    note lead = utf8_decode_lead [OF cv_less d]
    show ?thesis
    proof (cases "cv c < 0x80")
      case True
      then have "\<exists>v. dump_escaped UTF8_ACCEPT 0 u = Ret v"
        using less(2) Cons dump_escaped_ascii [OF True] by (auto simp: put_eq_Ret)
      then show ?thesis using True less(1) [of u] Cons by (auto intro: utf8_ascii)
    next
      case False
      then obtain rs where rs: "utf8_tail (cv c) = Some rs" "open_state st' cp'" "state_ranges st' = rs"
        using lead less(2) Cons d
        by (auto simp: UTF8_ACCEPT_def UTF8_REJECT_def simp del: state_ranges.simps split: option.splits)
      then have "\<exists>v. dump_escaped st' cp' u = Ret v"
        using less(2) Cons d open_state_not_final [OF rs(2)] by (auto simp: put_eq_Ret)
      then obtain bs v cp'' where bs: "u = bs @ v" "in_ranges rs bs"
        "\<exists>w. dump_escaped UTF8_ACCEPT cp'' v = Ret w"
        using dump_escaped_openD [OF rs(2)] rs(3) by metis
      then have "utf8 v" using less(1) [of v cp''] Cons by auto
      then show ?thesis using Cons bs utf8_multi [OF rs(1)] by simp
    qed
  qed (simp add: utf8_Nil)
qed

end
