(* ===== verification/GrisuProps.thy ===== *)
theory GrisuProps
  imports Grisu
begin

text \<open>
  The digit generation of \<open>to_chars\<close> always ends: the interval between the scaled boundaries
  is never empty, so the bound on the rounds is not reached.
\<close>

section \<open>The table of powers\<close>

definition cached_exponents :: "int list" where
  "cached_exponents = [
     - 1060, - 1034, - 1007, - 980, - 954, - 927, - 901, - 874, - 847, - 821, - 794, - 768, - 741,
     - 715, - 688, - 661, - 635, - 608, - 582, - 555, - 529, - 502, - 475, - 449, - 422, - 396,
     - 369, - 343, - 316, - 289, - 263, - 236, - 210, - 183, - 157, - 130, - 103, - 77, - 50,
     - 24, 3, 30, 56, 83, 109, 136, 162, 189, 216, 242, 269, 295,
     322, 348, 375, 402, 428, 455, 481, 508, 534, 561, 588, 614, 641,
     667, 694, 720, 747, 774, 800, 827, 853, 880, 907, 933, 960, 986,
     1013]"

lemma kCachedPowers_exponents: "map (\<lambda>c. fst (snd c)) kCachedPowers = cached_exponents"
  by (simp only: kCachedPowers_def cached_exponents_def list.map fst_conv snd_conv)

lemma length_cached_exponents: "length cached_exponents = 79"
  by (simp add: cached_exponents_def)

lemma length_kCachedPowers: "length kCachedPowers = 79"
  using kCachedPowers_exponents length_cached_exponents by (metis length_map)

lemma cached_exponents_ok:
  "list_all (\<lambda>(i, e). (8 * int i - 300) * 262144 div 78913 \<le> e + 63 \<and>
     (e + 34) * 78913 < (8 * int i - 308) * 262144) (enumerate 0 cached_exponents)"
  by code_simp

lemma cached_normalized: "list_all (\<lambda>c. 2 ^ 63 \<le> unat (fst c)) kCachedPowers"
  by (simp add: kCachedPowers_def)

lemma get_cached_power:
  assumes "- 1137 \<le> e" and "e \<le> 961" and "get_cached_power_for_binary_exponent e = (cf, ce, ck)"
  shows "2 ^ 63 \<le> unat cf" and "- 60 \<le> ce + e + 64" and "ce + e + 64 \<le> - 32"
    and "(cf, ce, ck) \<in> set kCachedPowers"
proof -
  define f k i where "f = - 61 - e" and "k = (f * 78913) sdiv (2 ^ 18) + (if 0 < f then 1 else 0)"
    and "i = (307 + k) sdiv 8"
  have k: "f * 78913 \<le> k * 262144" "k * 262144 \<le> f * 78913 + 262144"
    by (cases "0 < f"; simp add: k_def signed_divide_int_def sgn_if; linarith?)+
  have "- 307 \<le> k" "k \<le> 324" using k assms(1,2) by (auto simp: f_def)
  then have i1: "i = (307 + k) div 8"
    by (cases "k = - 307") (simp_all add: i_def signed_divide_int_def sgn_if)
  have i: "i = (307 + k) div 8" "0 \<le> i" "i < 79"
    using i1 \<open>- 307 \<le> k\<close> \<open>k \<le> 324\<close> by (simp_all add: pos_imp_zdiv_nonneg_iff div_less_iff_less_mult)
  have el: "kCachedPowers ! nat i = (cf, ce, ck)"
    using assms(3) by (simp add: get_cached_power_for_binary_exponent_def i_def k_def f_def kAlpha_def Let_def)
  have len: "nat i < length kCachedPowers" using i by (simp add: length_kCachedPowers)
  show "2 ^ 63 \<le> unat cf"
    using cached_normalized nth_mem [OF len] el by (fastforce simp: list_all_iff)
  have ce: "cached_exponents ! nat i = ce"
    using len el by (simp flip: kCachedPowers_exponents)
  have "(nat i, ce) \<in> set (enumerate 0 cached_exponents)"
    using i(2,3) ce by (simp add: in_set_enumerate_eq length_cached_exponents)
  then have "(8 * int (nat i) - 300) * 262144 div 78913 \<le> ce + 63"
    "(ce + 34) * 78913 < (8 * int (nat i) - 308) * 262144"
    using cached_exponents_ok unfolding list_all_iff by blast+
  then have bounds: "(8 * i - 300) * 262144 div 78913 \<le> ce + 63" "(ce + 34) * 78913 < (8 * i - 308) * 262144"
    using i(2) by simp_all
  have "8 * i \<le> 307 + k" using i(1) by linarith
  then have "(8 * i - 308) * 262144 \<le> (k - 1) * 262144" by simp
  also have "\<dots> \<le> f * 78913" using k(2) by simp
  finally have "(8 * i - 308) * 262144 \<le> f * 78913" .
  with bounds(2) have "(ce + 34) * 78913 < f * 78913" by (rule less_le_trans)
  then have "ce + 34 < f" by simp
  then show "ce + e + 64 \<le> - 32" by (simp add: f_def)
  show "(cf, ce, ck) \<in> set kCachedPowers" using nth_mem [OF len] el by simp
  note bounds(1)
  moreover have "k \<le> 8 * i - 300" using i by linarith
  moreover have "f * 78913 \<le> (8 * i - 300) * 262144" 
    using k(1) mult_right_mono [OF \<open>k \<le> 8 * i - 300\<close>, of 262144] by simp
  then have "f * 78913 div 78913 \<le> (8 * i - 300) * 262144 div 78913" by (rule zdiv_mono1) simp
  ultimately show "- 60 \<le> ce + e + 64" by (simp add: f_def)
qed

section \<open>Word arithmetic\<close>

lemma unat_low_half: "unat (x AND 0xFFFFFFFF :: u64) = unat x mod 2 ^ 32"
proof -
  have "(0xFFFFFFFF :: u64) = mask 32" by (simp add: mask_eq_exp_minus_1)
  then have "x AND 0xFFFFFFFF = take_bit 32 x" by (simp add: take_bit_eq_mask)
  then have "unat (x AND 0xFFFFFFFF) = take_bit 32 (unat x)" by (simp only: unsigned_take_bit_eq)
  then show ?thesis by (simp only: take_bit_eq_mod)
qed

lemma unat_high_half: "unat (drop_bit n x :: u64) = unat x div 2 ^ n"
  by (subst unat_drop_bit_eq) (rule drop_bit_eq_div)

lemma unat_add_lt: "unat (a :: u64) + unat b < 2 ^ 64 \<Longrightarrow> unat (a + b) = unat a + unat b"
  by (simp add: unat_word_ariths)

lemma unat_mult_lt: "unat (a :: u64) * unat b < 2 ^ 64 \<Longrightarrow> unat (a * b) = unat a * unat b"
  by (simp add: unat_word_ariths)

lemma unat_less64: "unat (x :: u64) < 2 ^ 64"
  using unsigned_less [of x] by simp

text \<open>The product of two significands, rounded to its upper 64 bits.\<close>

lemma diyfp_mul_exact:
  obtains l where "unat (dp_f (diyfp_mul x y)) * 2 ^ 64 + l = unat (dp_f x) * unat (dp_f y) + 2 ^ 63"
    and "l < 2 ^ 64"
proof -
  define X Y where "X = unat (dp_f x)" and "Y = unat (dp_f y)"
  define ul uh vl vh where "ul = X mod 2 ^ 32" and "uh = X div 2 ^ 32" and "vl = Y mod 2 ^ 32"
    and "vh = Y div 2 ^ 32"
  have lt: "ul < 2 ^ 32" "vl < 2 ^ 32" "uh < 2 ^ 32" "vh < 2 ^ 32"
    using unat_less64 [of "dp_f x"] unat_less64 [of "dp_f y"]
    by (simp_all add: ul_def uh_def vl_def vh_def X_def Y_def div_less_iff_less_mult)
  have prod: "a * b \<le> (2 ^ 32 - 1) * (2 ^ 32 - 1)" if "a < 2 ^ 32" "b < 2 ^ 32" for a b :: nat
    using that by (intro mult_mono) simp_all
  note p = prod [OF lt(1,2)] prod [OF lt(1,4)] prod [OF lt(3,2)] prod [OF lt(3,4)]
  define d0 m0 d1 m1 d2 m2 where "d0 = ul * vl div 2 ^ 32" and "m0 = ul * vl mod 2 ^ 32"
    and "d1 = ul * vh div 2 ^ 32" and "m1 = ul * vh mod 2 ^ 32"
    and "d2 = uh * vl div 2 ^ 32" and "m2 = uh * vl mod 2 ^ 32"
  define Q where "Q = d0 + m1 + m2 + 2 ^ 31"
  define e r where "e = Q div 2 ^ 32" and "r = Q mod 2 ^ 32"
  define h where "h = uh * vh + d2 + d1 + e"
  have X: "X = uh * 2 ^ 32 + ul" and Y: "Y = vh * 2 ^ 32 + vl"
    by (simp_all add: ul_def uh_def vl_def vh_def)
  have split: "ul * vl = d0 * 2 ^ 32 + m0" "ul * vh = d1 * 2 ^ 32 + m1" "uh * vl = d2 * 2 ^ 32 + m2"
    "Q = e * 2 ^ 32 + r"
    by (simp_all add: d0_def m0_def d1_def m1_def d2_def m2_def e_def r_def)
  have small: "m0 < 2 ^ 32" "m1 < 2 ^ 32" "m2 < 2 ^ 32" "r < 2 ^ 32"
    by (simp_all add: m0_def m1_def m2_def r_def)
  have "X * Y = uh * vh * 2 ^ 64 + (ul * vh + uh * vl) * 2 ^ 32 + ul * vl"
    by (simp add: X Y algebra_simps)
  then have eq: "h * 2 ^ 64 + (m0 + r * 2 ^ 32) = X * Y + 2 ^ 63"
    unfolding split(1-3) using split(4) by (simp add: h_def Q_def algebra_simps)
  have l: "m0 + r * 2 ^ 32 < 2 ^ 64" using small by simp
  have "X * Y \<le> (2 ^ 64 - 1) * (2 ^ 64 - 1)"
    using unat_less64 [of "dp_f x"] unat_less64 [of "dp_f y"] by (intro mult_mono) (simp_all add: X_def Y_def)
  then have h: "h < 2 ^ 64" using eq by simp
  let ?x = "dp_f x" and ?y = "dp_f y"
  let ?M = "0xFFFFFFFF :: u64"
  have halves: "unat (?x AND ?M) = ul" "unat (drop_bit 32 ?x) = uh" "unat (?y AND ?M) = vl"
    "unat (drop_bit 32 ?y) = vh"
    by (simp_all only: unat_low_half unat_high_half ul_def uh_def vl_def vh_def X_def Y_def)
  have p0: "unat ((?x AND ?M) * (?y AND ?M)) = ul * vl"
    and p1: "unat ((?x AND ?M) * drop_bit 32 ?y) = ul * vh"
    and p2: "unat (drop_bit 32 ?x * (?y AND ?M)) = uh * vl"
    and p3: "unat (drop_bit 32 ?x * drop_bit 32 ?y) = uh * vh"
    using p by (subst unat_mult_lt; simp only: halves; simp)+
  define P0 P1 P2 P3 where "P0 = (?x AND ?M) * (?y AND ?M)" and "P1 = (?x AND ?M) * drop_bit 32 ?y"
    and "P2 = drop_bit 32 ?x * (?y AND ?M)" and "P3 = drop_bit 32 ?x * drop_bit 32 ?y"
  have d: "d0 < 2 ^ 32" using p(1) split(1) by simp
  have parts: "unat (drop_bit 32 P0) = d0" "unat (P1 AND ?M) = m1" "unat (drop_bit 32 P1) = d1"
    "unat (P2 AND ?M) = m2" "unat (drop_bit 32 P2) = d2" "unat P3 = uh * vh"
    by (simp_all only: unat_low_half unat_high_half P0_def P1_def P2_def P3_def p0 p1 p2 p3
        d0_def m1_def d1_def m2_def d2_def)
  define W where "W = drop_bit 32 P0 + (P1 AND ?M) + (P2 AND ?M) + push_bit 31 1"
  have "unat (drop_bit 32 P0 + (P1 AND ?M)) = d0 + m1"
    using d small by (subst unat_add_lt) (simp_all only: parts, simp)
  moreover have "unat (drop_bit 32 P0 + (P1 AND ?M) + (P2 AND ?M)) = d0 + m1 + m2"
    using d small calculation by (subst unat_add_lt) (simp_all only: parts, simp)
  moreover have "unat (push_bit 31 1 :: u64) = 2 ^ 31" by (simp add: push_bit_eq_mult)
  ultimately have W: "unat W = Q"
    using d small unfolding W_def by (subst unat_add_lt) (simp_all add: Q_def)
  have hW: "unat (drop_bit 32 W) = e" by (simp only: unat_high_half W e_def)
  have "unat (P3 + drop_bit 32 P2) = uh * vh + d2"
    using h by (subst unat_add_lt) (simp_all only: parts, simp add: h_def)
  moreover have "unat (P3 + drop_bit 32 P2 + drop_bit 32 P1) = uh * vh + d2 + d1"
    using h calculation by (subst unat_add_lt) (simp_all only: parts, simp add: h_def)
  ultimately have "unat (P3 + drop_bit 32 P2 + drop_bit 32 P1 + drop_bit 32 W) = h"
    using h by (subst unat_add_lt) (simp_all only: hW, simp_all add: h_def)
  moreover have "dp_f (diyfp_mul x y) = P3 + drop_bit 32 P2 + drop_bit 32 P1 + drop_bit 32 W"
    by (simp add: diyfp_mul_def diyfp_of_def Let_def P0_def P1_def P2_def P3_def W_def)
  ultimately have "unat (dp_f (diyfp_mul x y)) = h" by simp
  then show thesis using that [of "m0 + r * 2 ^ 32"] eq l by (simp add: X_def Y_def)
qed

lemma diyfp_mul_diff:
  assumes "2 ^ 63 \<le> unat (dp_f c)" and "unat (dp_f y) + 768 \<le> unat (dp_f x)"
  shows "unat (dp_f (diyfp_mul y c)) + 3 \<le> unat (dp_f (diyfp_mul x c))"
proof (rule ccontr)
  define C X Y where "C = unat (dp_f c)" and "X = unat (dp_f x)" and "Y = unat (dp_f y)"
  obtain l1 where l1: "unat (dp_f (diyfp_mul x c)) * 2 ^ 64 + l1 = X * C + 2 ^ 63" "l1 < 2 ^ 64"
    using diyfp_mul_exact [of x c] by (auto simp: X_def C_def)
  obtain l2 where l2: "unat (dp_f (diyfp_mul y c)) * 2 ^ 64 + l2 = Y * C + 2 ^ 63" "l2 < 2 ^ 64"
    using diyfp_mul_exact [of y c] by (auto simp: Y_def C_def)
  assume "\<not> ?thesis"
  then have "unat (dp_f (diyfp_mul x c)) * 2 ^ 64 \<le> (unat (dp_f (diyfp_mul y c)) + 2) * 2 ^ 64"
    by (intro mult_right_mono) simp_all
  moreover have "(Y + 768) * C \<le> X * C" using assms(2) by (intro mult_right_mono) (simp_all add: X_def Y_def)
  moreover have "768 * 2 ^ 63 \<le> 768 * C" using assms(1) by (intro mult_left_mono) (simp_all add: C_def)
  ultimately show False using l1 l2 by (simp add: algebra_simps)
qed

section \<open>Normalization\<close>

lemma drop_bit_63: "drop_bit 63 (f :: u64) = 0 \<longleftrightarrow> unat f < 2 ^ 63"
proof -
  have "drop_bit 63 f = 0 \<longleftrightarrow> unat f div 2 ^ 63 = 0"
    by (metis unat_high_half unat_eq_zero)
  then show ?thesis by (simp add: div_eq_0_iff)
qed

lemma unat_push_bit: "unat (f :: u64) * 2 ^ n < 2 ^ 64 \<Longrightarrow> unat (push_bit n f) = unat f * 2 ^ n"
proof -
  assume a: "unat f * 2 ^ n < 2 ^ 64"
  have "unat (push_bit n f) = take_bit 64 (push_bit n (unat f))"
    by (simp add: unsigned_push_bit_eq)
  then show ?thesis using a by (simp add: push_bit_eq_mult take_bit_nat_eq_self)
qed

lemma diyfp_normalize_loop_spec:
  "0 < unat f \<Longrightarrow> 2 ^ 63 \<le> unat f * 2 ^ n \<Longrightarrow>
     \<exists>t \<le> n. unat (dp_f (diyfp_normalize_loop n f e)) = unat f * 2 ^ t \<and> 2 ^ 63 \<le> unat f * 2 ^ t \<and>
       unat f * 2 ^ t < 2 ^ 64 \<and> dp_e (diyfp_normalize_loop n f e) = e - int t"
proof (induction n f e rule: diyfp_normalize_loop.induct)
  case (1 f e)
  then show ?case using unat_less64 [of f] by (simp add: diyfp_of_def)
next
  case (2 n f e)
  show ?case
  proof (cases "drop_bit 63 f = 0")
    case False
    then show ?thesis using unat_less64 [of f] drop_bit_63 [of f] by (auto simp: diyfp_of_def intro: exI [of _ 0])
  next
    case True
    then have p: "unat (push_bit 1 f) = unat f * 2" using unat_push_bit [of f 1] drop_bit_63 [of f] by simp
    then obtain t where "t \<le> n" "unat (dp_f (diyfp_normalize_loop n (push_bit 1 f) (e - 1))) = unat f * 2 * 2 ^ t"
      "2 ^ 63 \<le> unat f * 2 * 2 ^ t" "unat f * 2 * 2 ^ t < 2 ^ 64"
      "dp_e (diyfp_normalize_loop n (push_bit 1 f) (e - 1)) = e - 1 - int t"
      using 2(1) [OF True] 2(2,3) by (auto simp: mult.assoc)
    then show ?thesis using True by (intro exI [of _ "Suc t"]) simp
  qed
qed

lemma diyfp_normalize_spec:
  assumes "0 < unat (dp_f x)"
  obtains t where "t \<le> 63" and "unat (dp_f (diyfp_normalize x)) = unat (dp_f x) * 2 ^ t"
    and "2 ^ 63 \<le> unat (dp_f x) * 2 ^ t" and "unat (dp_f x) * 2 ^ t < 2 ^ 64"
    and "dp_e (diyfp_normalize x) = dp_e x - int t"
  using diyfp_normalize_loop_spec [of "dp_f x" 63 "dp_e x"] assms unfolding diyfp_normalize_def by auto

section \<open>The boundaries\<close>

text \<open>The significand and the exponent of a positive double.\<close>

definition double_parts :: "double \<Rightarrow> nat \<Rightarrow> int \<Rightarrow> bool" where
  "double_parts x f e \<longleftrightarrow> 0 < f \<and> f \<le> 2 ^ 53 \<and> - 1074 \<le> e \<and> e \<le> 971 \<and>
     round_even (x / pow2 e) = int f \<and> ulp_exp x = e"

lemma compute_boundaries_parts:
  assumes "double_parts x f e"
  obtains t where "9 \<le> t" and "t \<le> 62"
    and "unat (dp_f (bd_plus (compute_boundaries x))) = (2 * f + 1) * 2 ^ t"
    and "2 ^ 63 \<le> (2 * f + 1) * 2 ^ t"
    and "dp_e (bd_plus (compute_boundaries x)) = e - 1 - int t"
    and "dp_e (bd_minus (compute_boundaries x)) = e - 1 - int t"
    and "unat (dp_f (bd_minus (compute_boundaries x))) =
      (if f = 2 ^ 52 \<and> - 1074 < e then (4 * f - 1) * 2 ^ (t - 1) else (2 * f - 1) * 2 ^ t)"
proof -
  have f: "0 < f" "f \<le> 2 ^ 53" "- 1074 \<le> e" "e \<le> 971" and r: "round_even (x / pow2 e) = int f"
    and u: "ulp_exp x = e"
    using assms by (simp_all add: double_parts_def)
  define v :: u64 where "v = of_nat f"
  have v: "unat v = f" using f(2) by (simp add: v_def unat_of_nat)
  have plus: "unat (2 * v + 1) = 2 * f + 1" using f(2) by (simp add: unat_word_ariths v)
  obtain t where t: "t \<le> 63" "unat (dp_f (diyfp_normalize (diyfp_of (2 * v + 1) (e - 1)))) = (2 * f + 1) * 2 ^ t"
    "2 ^ 63 \<le> (2 * f + 1) * 2 ^ t" "(2 * f + 1) * 2 ^ t < 2 ^ 64"
    "dp_e (diyfp_normalize (diyfp_of (2 * v + 1) (e - 1))) = e - 1 - int t"
    using diyfp_normalize_spec [of "diyfp_of (2 * v + 1) (e - 1)"] plus by (auto simp: diyfp_of_def)
  have t9: "9 \<le> t"
  proof (rule ccontr)
    assume "\<not> 9 \<le> t"
    then have "(2 * f + 1) * 2 ^ t \<le> (2 * 2 ^ 53 + 1) * 2 ^ (8 :: nat)"
      using f(2) by (intro mult_mono power_increasing) simp_all
    then show False using t(3) by simp
  qed
  have t62: "t \<le> 62"
  proof (rule ccontr)
    assume "\<not> t \<le> 62"
    then have "t = 63" using t(1) by simp
    then have "3 * 2 ^ 63 \<le> (2 * f + 1) * 2 ^ t" using f(1) by (simp only:) (intro mult_right_mono, simp_all)
    then show False using t(4) by simp
  qed
  have be: "dp_e (bd_plus (compute_boundaries x)) = e - 1 - int t"
    "dp_e (bd_minus (compute_boundaries x)) = e - 1 - int t"
    using t(5) r u by (simp_all add: compute_boundaries_def Let_def v_def diyfp_of_def diyfp_normalize_to_def)
  obtain d where d: "t = Suc (8 + d)" using t9 by (metis add_Suc eval_nat_numeral(3) nat_le_iff_add)
  define p :: nat where "p = 2 ^ (8 + d)"
  have p: "2 ^ t = 2 * p" "256 \<le> p" by (simp_all add: d p_def power_add)
  have bp: "unat (dp_f (bd_plus (compute_boundaries x))) = (2 * f + 1) * 2 ^ t"
    using t(2) r u by (simp add: compute_boundaries_def Let_def v_def diyfp_of_def)
  have "unat (dp_f (bd_minus (compute_boundaries x))) =
      (if f = 2 ^ 52 \<and> - 1074 < e then (4 * f - 1) * 2 ^ (t - 1) else (2 * f - 1) * 2 ^ t)"
  proof (cases "v = 2 ^ 52 \<and> - 1074 < e")
    case True
    then have f52: "f = 2 ^ 52" using v by simp
    have m: "unat (4 * v - 1) = 4 * f - 1" using True f52 by simp
    have "nat (e - 2 - (e - 1 - int t)) = 8 + d" by (simp add: d)
    moreover have "(4 * f - 1) * p < 2 ^ 64" using t(4) p by (simp add: f52)
    ultimately have "unat (dp_f (bd_minus (compute_boundaries x))) = (4 * f - 1) * p"
      using True t(5) r u m unat_push_bit [of "4 * v - 1" "8 + d"]
      by (simp add: compute_boundaries_def Let_def v_def diyfp_of_def diyfp_normalize_to_def p_def)
    then show ?thesis using True by (simp add: f52 p_def d)
  next
    case False
    have m: "unat (2 * v - 1) = 2 * f - 1"
    proof -
      have "unat (2 * v) = 2 * f" using f(2) by (simp add: unat_word_ariths v)
      then have "1 \<le> 2 * v" using f(1) by (simp add: word_le_nat_alt)
      then show ?thesis using \<open>unat (2 * v) = 2 * f\<close> by (simp add: unat_sub)
    qed
    have "nat (e - 1 - (e - 1 - int t)) = t" by simp
    moreover have le: "(2 * f - 1) * 2 ^ t + 2 * 2 ^ t = (2 * f + 1) * 2 ^ t"
      using f(1) by (cases f) (simp_all add: algebra_simps)
    moreover have "(2 * f - 1) * 2 ^ t < 2 ^ 64" using t(4) le by linarith
    ultimately have "unat (dp_f (bd_minus (compute_boundaries x))) = (2 * f - 1) * 2 ^ t"
      using False t(5) r u m unat_push_bit [of "2 * v - 1" t]
      by (auto simp add: compute_boundaries_def Let_def v_def diyfp_of_def diyfp_normalize_to_def)
    moreover have "\<not> (f = 2 ^ 52 \<and> - 1074 < e)" using False v by (auto simp: word_unat_eq_iff)
    ultimately show ?thesis by (simp only: if_False simp_thms)
  qed
  with that [OF t9 t62 bp t(3) be] show thesis by blast
qed

lemma compute_boundaries_gap:
  assumes "double_parts x f e"
  shows "unat (dp_f (bd_minus (compute_boundaries x))) + 768 \<le> unat (dp_f (bd_plus (compute_boundaries x)))"
    and "- 1137 \<le> dp_e (bd_plus (compute_boundaries x))" and "dp_e (bd_plus (compute_boundaries x)) \<le> 961"
proof -
  have f: "0 < f" "- 1074 \<le> e" "e \<le> 971" using assms by (simp_all add: double_parts_def)
  obtain t where t: "9 \<le> t" "t \<le> 62"
    and p: "unat (dp_f (bd_plus (compute_boundaries x))) = (2 * f + 1) * 2 ^ t"
    and e: "dp_e (bd_plus (compute_boundaries x)) = e - 1 - int t"
    and m: "unat (dp_f (bd_minus (compute_boundaries x))) =
      (if f = 2 ^ 52 \<and> - 1074 < e then (4 * f - 1) * 2 ^ (t - 1) else (2 * f - 1) * 2 ^ t)"
    by (rule compute_boundaries_parts [OF assms]) blast
  show "- 1137 \<le> dp_e (bd_plus (compute_boundaries x))" "dp_e (bd_plus (compute_boundaries x)) \<le> 961"
    using f t e by simp_all
  define q :: nat where "q = 2 ^ (t - 1)"
  have "(2::nat) ^ 8 \<le> q" unfolding q_def using t(1) by (intro power_increasing) simp_all
  moreover have "2 ^ t = 2 * q" using t(1) by (cases t) (simp_all add: q_def)
  moreover obtain g where "f = Suc g" using f(1) by (cases f) auto
  ultimately show "unat (dp_f (bd_minus (compute_boundaries x))) + 768
      \<le> unat (dp_f (bd_plus (compute_boundaries x)))"
    unfolding p m q_def [symmetric] by (auto simp: algebra_simps)
qed


section \<open>Digits\<close>

lemma find_largest_pow10_spec:
  "find_largest_pow10 n = (k, p) \<Longrightarrow> 1 \<le> k \<and> k \<le> 10 \<and> unat p = 10 ^ (k - 1)"
  by (auto simp: find_largest_pow10_def split: if_splits)

lemma gen_integral_rest:
  "gen_integral k buf p1 pow10 p2 s dst delta = Inr buf' \<Longrightarrow> 1 \<le> k \<Longrightarrow> k \<le> 10 \<Longrightarrow>
     unat pow10 = 10 ^ (k - 1) \<Longrightarrow> delta < p2"
proof (induction k buf p1 pow10 p2 s dst delta rule: gen_integral.induct)
  case (2 n buf p1 pow10 p2 s dst delta)
  let ?r = "p1 mod pow10"
  have step: "\<not> push_bit s (ucast ?r) + p2 \<le> delta"
    "gen_integral n (buf @ [unat (p1 div pow10)]) ?r (pow10 div 10) p2 s dst delta = Inr buf'"
    using 2(2) by (auto simp: Let_def split: if_splits)
  show ?case
  proof (cases n)
    case 0
    then have "pow10 = 1" using 2(5) by (simp add: word_unat_eq_iff)
    then have "?r = 0" by simp
    then show ?thesis using step(1) by simp
  next
    case (Suc m)
    have "unat (pow10 div 10) = 10 ^ (n - 1)" using 2(5) Suc by (simp add: unat_div)
    then show ?thesis using 2(1) [OF refl refl refl refl step(1) step(2)] 2(4) Suc by simp
  qed
qed simp

lemma unat_low_bits:
  assumes "s < 64" shows "unat (q AND (push_bit s 1 - 1) :: u64) < 2 ^ s"
proof -
  have "(push_bit s 1 - 1 :: u64) = mask s" by (simp add: mask_eq_exp_minus_1 push_bit_eq_mult)
  then have "q AND (push_bit s 1 - 1) = take_bit s q" by (simp add: take_bit_eq_mask)
  then have "unat (q AND (push_bit s 1 - 1)) = take_bit s (unat q)" by (simp only: unsigned_take_bit_eq)
  then show ?thesis by (simp add: take_bit_eq_mod)
qed

lemma gen_fraction_ends:
  "s \<le> 60 \<Longrightarrow> 0 < delta \<Longrightarrow> delta < p2 \<Longrightarrow> unat p2 < 2 ^ s \<Longrightarrow> 2 ^ 60 \<le> unat delta * 10 ^ fuel \<Longrightarrow>
     gen_fraction fuel buf p2 s dst delta m \<noteq> None"
proof (induction fuel buf p2 s dst delta m rule: gen_fraction.induct)
  case (1 buf p2 s dst delta m)
  have "(2::nat) ^ s \<le> 2 ^ 60" using 1(1) by (intro power_increasing) simp_all
  then show ?case using 1 by (simp add: word_less_nat_alt)
next
  case (2 fuel buf p2 s dst delta m)
  let ?r = "p2 * 10 AND (push_bit s 1 - 1)"
  have "(2::nat) ^ s \<le> 2 ^ 60" using 2(2) by (intro power_increasing) simp_all
  then have small: "unat delta < 2 ^ 60" using 2(4,5) by (simp add: word_less_nat_alt)
  then have ten: "unat (delta * 10) = unat delta * 10" by (subst unat_mult_lt) simp_all
  then have pos: "0 < delta * 10" using 2(3) by (simp add: word_less_nat_alt)
  show ?case
  proof (cases "?r \<le> delta * 10")
    case False
    then have "delta * 10 < ?r" by simp
    moreover have "unat ?r < 2 ^ s" using 2(2) by (intro unat_low_bits) simp
    moreover have "2 ^ 60 \<le> unat (delta * 10) * 10 ^ fuel" using 2(6) ten by (simp add: mult.assoc)
    ultimately have "gen_fraction fuel (buf @ [unat (drop_bit s (p2 * 10))]) ?r s (dst * 10) (delta * 10) (Suc m)
        \<noteq> None"
      using 2(1) [OF refl refl refl refl refl refl False] 2(2) pos by blast
    then show ?thesis using False by (simp add: Let_def)
  qed (simp add: Let_def)
qed

text \<open>Every positive double has digits.\<close>

lemma grisu2_total:
  assumes "double_parts x f e" shows "grisu2 x \<noteq> None"
proof -
  define b where "b = compute_boundaries x"
  note gap = compute_boundaries_gap [OF assms, folded b_def]
  obtain cf ce ck where c: "get_cached_power_for_binary_exponent (dp_e (bd_plus b)) = (cf, ce, ck)"
    by (metis prod.collapse)
  note pow = get_cached_power [OF gap(2,3) c]
  let ?c = "diyfp_of cf ce"
  define P M where "P = diyfp_mul (bd_plus b) ?c" and "M = diyfp_mul (bd_minus b) ?c"
  have "unat (dp_f M) + 3 \<le> unat (dp_f P)"
    unfolding P_def M_def by (rule diyfp_mul_diff) (use pow gap in \<open>simp_all add: diyfp_of_def\<close>)
  moreover have "unat (dp_f P - 1) = unat (dp_f P) - 1" "unat (dp_f M + 1) = unat (dp_f M) + 1"
    using calculation unat_less64 [of "dp_f P"] by (simp_all add: unat_sub word_le_nat_alt unat_add_lt)
  ultimately have delta: "0 < (dp_f P - 1) - (dp_f M + 1)"
    by (simp add: word_less_nat_alt word_le_nat_alt unat_sub)
  define s where "s = nat (- dp_e P)"
  have "dp_e P = ce + dp_e (bd_plus b) + 64" by (simp add: P_def diyfp_mul_def diyfp_of_def Let_def)
  then have s: "s \<le> 60" using pow(2) by (simp add: s_def)
  define W where "W = diyfp_mul (bd_w b) ?c"
  define M' P' where "M' = diyfp_of (dp_f M + 1) (dp_e M)" and "P' = diyfp_of (dp_f P - 1) (dp_e P)"
  have g: "grisu2 x = grisu2_digit_gen (- ck) M' W P'"
    by (simp add: grisu2_def grisu2_of_def c P_def M_def W_def M'_def P'_def Let_def flip: b_def)
  define dlt where "dlt = dp_f (diyfp_sub P' M')"
  define p2 where "p2 = dp_f P' AND (push_bit s 1 - 1)"
  define p1 where "p1 = (ucast (drop_bit s (dp_f P')) :: u32)"
  define dst where "dst = dp_f (diyfp_sub P' W)"
  obtain k pow10 where kp: "find_largest_pow10 p1 = (k, pow10)" by fastforce
  have dlt: "0 < dlt" using delta by (simp add: dlt_def diyfp_sub_def P'_def M'_def diyfp_of_def)
  have sP: "nat (- dp_e P') = s" by (simp add: s_def P'_def diyfp_of_def)
  have eq: "grisu2 x = (case gen_integral k [] p1 pow10 p2 s dst dlt of
       Inl (buf, n) \<Rightarrow> Some (buf, - ck + int n)
     | Inr buf \<Rightarrow> (case gen_fraction 20 buf p2 s dst dlt 0 of
          None \<Rightarrow> None | Some (buf', m) \<Rightarrow> Some (buf', - ck - int m)))"
    unfolding g grisu2_digit_gen_def Let_def sP
    unfolding p1_def [symmetric] p2_def [symmetric] dst_def [symmetric] dlt_def [symmetric] kp prod.case
    by (rule refl)
  show ?thesis
  proof (cases "gen_integral k [] p1 pow10 p2 s dst dlt")
    case (Inl r)
    then show ?thesis by (cases r) (simp add: eq)
  next
    case (Inr buf)
    then have "dlt < p2" using gen_integral_rest find_largest_pow10_spec [OF kp] by blast
    moreover have "unat p2 < 2 ^ s" unfolding p2_def by (rule unat_low_bits) (use s in simp)
    moreover have "2 ^ 60 \<le> unat dlt * 10 ^ 20" using dlt by (simp add: word_less_nat_alt)
    ultimately have "gen_fraction 20 buf p2 s dst dlt 0 \<noteq> None"
      using gen_fraction_ends s dlt by blast
    then show ?thesis using Inr by (auto simp: eq)
  qed
qed

text \<open>The digits of every finite double; infinities are printed as \<open>null\<close>.\<close>

lemma double_parts_ex:
  assumes "fl x = x" and "0 < x" and "x < pow2 1024"
  shows "\<exists>f e. double_parts x f e"
proof -
  obtain n where n: "fl_pos x = of_int n * pow2 (ulp_exp x)" "0 \<le> n" "n \<le> 2 ^ 53"
    using fl_pos_parts [OF assms(2)] by blast
  have x: "x = of_int n * pow2 (ulp_exp x)" using n(1) assms(1,2) by (simp add: fl_def)
  then have "n \<noteq> 0" using assms(2) by auto
  have "x / pow2 (ulp_exp x) = of_int n" by (subst x) simp
  then have r: "round_even (x / pow2 (ulp_exp x)) = n" by (metis round_even_of_int)
  have "pow2 (ilog2 x) < pow2 1024" using ilog2_bounds(1) [OF assms(2)] assms(3) by linarith
  then have "ulp_exp x \<le> 971" by (simp add: ulp_exp_def)
  then have "double_parts x (nat n) (ulp_exp x)"
    using n(2,3) \<open>n \<noteq> 0\<close> r ulp_exp_min [of x] by (simp add: double_parts_def nat_le_iff)
  then show ?thesis by blast
qed

lemma to_chars_total:
  assumes "fl x = x" and "\<bar>x\<bar> < pow2 1024" shows "to_chars x \<noteq> None"
proof (cases "x = 0")
  case False
  then obtain f e where "double_parts \<bar>x\<bar> f e"
    using double_parts_ex [of "\<bar>x\<bar>"] fl_abs [OF assms(1)] assms(2) by auto
  then have "grisu2 \<bar>x\<bar> \<noteq> None" by (rule grisu2_total)
  then show ?thesis using False by (auto simp: to_chars_def to_chars_signed_def Let_def)
qed (simp add: to_chars_def to_chars_signed_def)

end
