(* ===== verification/GrisuExact.thy ===== *)
theory GrisuExact
  imports GrisuProps
begin

text \<open>
  The digits of Grisu2 lie strictly between the boundaries of the double they are made for, so
  they are read back as that double. The cached powers are correctly rounded, the products
  lose less than one unit, and the boundaries are drawn in by one unit on either side.
\<close>

section \<open>The cached powers\<close>

definition integral :: "u64 \<times> int \<times> int \<Rightarrow> int \<times> int \<times> int" where
  "integral c = (uint (fst c), fst (snd c), snd (snd c))"

text \<open>
  Each entry is compared with the exact power: \<open>p\<close> is the power of 5 and \<open>q\<close> the power of 2
  of the next entry, which are carried along.
\<close>

fun neg_powers_ok :: "int \<Rightarrow> int \<Rightarrow> int \<Rightarrow> int \<Rightarrow> (int \<times> int \<times> int) list \<Rightarrow> bool" where
  "neg_powers_ok p q e0 k [] = True"
| "neg_powers_ok p q e0 k ((f, e, d) # cs) =
     (d = k \<and> (if e = e0
       then 2 * abs (f * p - q) \<le> p \<and> neg_powers_ok (p * 390625) (q * 262144) (e - 26) (k - 8) cs
       else e = e0 - 1 \<and> 2 * abs (f * p - 2 * q) \<le> p \<and>
            neg_powers_ok (p * 390625) (q * 524288) (e - 26) (k - 8) cs))"

fun pos_powers_ok :: "int \<Rightarrow> int \<Rightarrow> int \<Rightarrow> int \<Rightarrow> (int \<times> int \<times> int) list \<Rightarrow> bool" where
  "pos_powers_ok p q e0 k [] = True"
| "pos_powers_ok p q e0 k ((f, e, d) # cs) =
     (d = k \<and> (if e = e0
       then 2 * abs (f * q - p) \<le> q \<and> pos_powers_ok (p * 390625) (q * 262144) (e + 26) (k + 8) cs
       else e = e0 + 1 \<and> 2 * abs (f * (2 * q) - p) \<le> 2 * q \<and>
            pos_powers_ok (p * 390625) (q * 524288) (e + 26) (k + 8) cs))"

lemma neg_powers: "neg_powers_ok 625 (2 ^ 73) (- 77) (- 4) (map integral (rev (take 38 kCachedPowers)))"
proof -
  note [simp del] = neg_powers_ok.simps
  show ?thesis by (simp add: kCachedPowers_def integral_def) code_simp
qed

lemma pos_powers: "pos_powers_ok (5 ^ 28) 4 30 28 (map integral (drop 41 kCachedPowers))"
proof -
  note [simp del] = pos_powers_ok.simps
  show ?thesis by (simp add: kCachedPowers_def integral_def) code_simp
qed

definition power_close :: "int \<times> int \<times> int \<Rightarrow> bool" where
  "power_close c = (case c of (f, e, k) \<Rightarrow>
     2 * \<bar>(of_int f :: rat) * pow2 e - 10 powi k\<bar> \<le> pow2 e)"

lemma ten_powi: "(10 :: rat) powi (- int n) * 5 ^ n = pow2 (- int n)" "(10 :: rat) ^ n = 5 ^ n * pow2 (int n)"
proof -
  have "(10 :: rat) ^ n = (5 * 2) ^ n" by simp
  also have "\<dots> = 5 ^ n * 2 ^ n" by (rule power_mult_distrib)
  finally show t: "(10 :: rat) ^ n = 5 ^ n * pow2 (int n)" by (simp only: pow2_nat)
  show "(10 :: rat) powi (- int n) * 5 ^ n = pow2 (- int n)"
    using t by (simp add: power_int_minus pow2_def field_simps)
qed

lemma power_close_neg:
  assumes "2 * \<bar>f * 5 ^ n - 2 ^ j\<bar> \<le> 5 ^ n" and "e = - int n - int j"
  shows "power_close (f, e, - int n)"
proof -
  define r :: rat where "r = pow2 e / 5 ^ n"
  have r: "0 < r" by (simp add: r_def)
  have "2 * \<bar>of_int f * 5 ^ n - 2 ^ j\<bar> \<le> (5 ^ n :: rat)"
    using assms(1) by (simp flip: of_int_le_iff [where 'a = rat])
  then have "2 * \<bar>of_int f * 5 ^ n - 2 ^ j\<bar> * r \<le> 5 ^ n * r" using r by (intro mult_right_mono) auto
  moreover have "5 ^ n * r = pow2 e" by (simp add: r_def)
  moreover have "\<bar>of_int f * 5 ^ n - 2 ^ j\<bar> * r = \<bar>(of_int f * 5 ^ n - 2 ^ j) * r\<bar>"
    using r by (simp add: abs_mult)
  moreover have "pow2 (int j) * pow2 e = pow2 (- int n)" using assms(2) by (simp flip: pow2_add)
  then have "(of_int f * 5 ^ n - 2 ^ j) * r = of_int f * pow2 e - 10 powi (- int n)"
    using ten_powi(1) [of n] by (simp add: r_def pow2_nat left_diff_distrib divide_eq_eq)
  ultimately show ?thesis by (simp add: power_close_def)
qed

lemma power_close_pos:
  assumes "2 * \<bar>f * 2 ^ j - 5 ^ n\<bar> \<le> 2 ^ j" and "e = int n + int j"
  shows "power_close (f, e, int n)"
proof -
  define r :: rat where "r = pow2 (int n)"
  have r: "0 < r" by (simp add: r_def)
  have "2 * \<bar>of_int f * 2 ^ j - 5 ^ n\<bar> \<le> (2 ^ j :: rat)"
    using assms(1) by (simp flip: of_int_le_iff [where 'a = rat])
  then have "2 * \<bar>of_int f * 2 ^ j - 5 ^ n\<bar> * r \<le> 2 ^ j * r" using r by (intro mult_right_mono) auto
  moreover have "2 ^ j * r = pow2 e" using assms(2) by (simp add: r_def pow2_add pow2_nat)
  moreover have "\<bar>of_int f * 2 ^ j - 5 ^ n\<bar> * r = \<bar>(of_int f * 2 ^ j - 5 ^ n) * r\<bar>"
    using r by (simp add: abs_mult)
  moreover have "(of_int f * 2 ^ j - 5 ^ n) * r = of_int f * pow2 e - 10 powi (int n)"
    using ten_powi(2) [of n] assms(2) by (simp add: r_def pow2_add pow2_nat left_diff_distrib)
  ultimately show ?thesis by (simp add: power_close_def)
qed

lemma neg_powers_close:
  "neg_powers_ok (5 ^ n) (2 ^ j) e0 (- int n) cs \<Longrightarrow> e0 = - int n - int j \<Longrightarrow> list_all power_close cs"
proof (induction cs arbitrary: n j e0)
  case (Cons c cs)
  obtain f e d where c: "c = (f, e, d)" by (cases c)
  define j' where "j' = (if e = e0 then j else Suc j)"
  have ok: "2 * \<bar>f * 5 ^ n - 2 ^ j'\<bar> \<le> 5 ^ n" "d = - int n" and e: "e = - int n - int j'"
    and rest: "neg_powers_ok (5 ^ n * 390625) (2 ^ j' * 262144) (e - 26) (- int n - 8) cs"
    using Cons.prems by (auto simp: c j'_def mult.commute split: if_splits)
  have "neg_powers_ok (5 ^ (n + 8)) (2 ^ (j' + 18)) (e - 26) (- int (n + 8)) cs"
    using rest by (simp add: power_add)
  moreover have "e - 26 = - int (n + 8) - int (j' + 18)" using e by simp
  ultimately have "list_all power_close cs" by (rule Cons.IH)
  moreover have "power_close c" unfolding c ok(2) by (rule power_close_neg [OF ok(1) e])
  ultimately show ?case by simp
qed simp

lemma pos_powers_close:
  "pos_powers_ok (5 ^ n) (2 ^ j) e0 (int n) cs \<Longrightarrow> e0 = int n + int j \<Longrightarrow> list_all power_close cs"
proof (induction cs arbitrary: n j e0)
  case (Cons c cs)
  obtain f e d where c: "c = (f, e, d)" by (cases c)
  define j' where "j' = (if e = e0 then j else Suc j)"
  have ok: "2 * \<bar>f * 2 ^ j' - 5 ^ n\<bar> \<le> 2 ^ j'" "d = int n" and e: "e = int n + int j'"
    and rest: "pos_powers_ok (5 ^ n * 390625) (2 ^ j' * 262144) (e + 26) (int n + 8) cs"
    using Cons.prems by (auto simp: c j'_def mult.commute split: if_splits)
  have "pos_powers_ok (5 ^ (n + 8)) (2 ^ (j' + 18)) (e + 26) (int (n + 8)) cs"
    using rest by (simp add: power_add)
  moreover have "e + 26 = int (n + 8) + int (j' + 18)" using e by simp
  ultimately have "list_all power_close cs" by (rule Cons.IH)
  moreover have "power_close c" unfolding c ok(2) by (rule power_close_pos [OF ok(1) e])
  ultimately show ?case by simp
qed simp

lemma kCachedPowers_close: "c \<in> set kCachedPowers \<Longrightarrow> power_close (integral c)"
proof -
  assume c: "c \<in> set kCachedPowers"
  have "list_all power_close (map integral (rev (take 38 kCachedPowers)))"
    using neg_powers_close [of 4 73] neg_powers by simp
  moreover have "list_all power_close (map integral (drop 41 kCachedPowers))"
    using pos_powers_close [of 28 2] pos_powers by simp
  moreover have "list_all power_close (map integral (take 3 (drop 38 kCachedPowers)))"
    by (simp add: kCachedPowers_def integral_def power_close_def pow2_def power_int_minus)
  moreover have "drop 38 kCachedPowers = take 3 (drop 38 kCachedPowers) @ drop 41 kCachedPowers"
    using append_take_drop_id [of 3 "drop 38 kCachedPowers"] by simp
  then have "kCachedPowers = take 38 kCachedPowers @ take 3 (drop 38 kCachedPowers) @ drop 41 kCachedPowers"
    using append_take_drop_id [of 38 kCachedPowers] by simp
  then have "set kCachedPowers = set (rev (take 38 kCachedPowers)) \<union>
      set (take 3 (drop 38 kCachedPowers)) \<union> set (drop 41 kCachedPowers)"
    by (metis set_append set_rev Un_assoc)
  ultimately show ?thesis using c by (auto simp: list_all_iff)
qed

section \<open>The rounding of the last digit\<close>

definition digits_nat :: "nat list \<Rightarrow> nat" where
  "digits_nat ds = foldl (\<lambda>a d. 10 * a + d) 0 ds"

lemma digits_nat_snoc [simp]: "digits_nat (ds @ [d]) = 10 * digits_nat ds + d"
  and digits_nat_Nil [simp]: "digits_nat [] = 0"
  by (simp_all add: digits_nat_def)

text \<open>
  The last digit \<open>d\<close> is lowered as long as the digits stay above the lower boundary, which
  they reach before \<open>d\<close> is used up.
\<close>

lemma grisu2_round_spec:
  "rest \<le> delta \<Longrightarrow> unat delta < unat rest + d * unat ten_k \<Longrightarrow>
     \<exists>j < d. grisu2_round (buf @ [d]) dst delta rest ten_k = buf @ [d - j] \<and>
       unat rest + j * unat ten_k \<le> unat delta"
proof (induction "buf @ [d]" dst delta rest ten_k arbitrary: d rule: grisu2_round.induct)
  case (1 dst delta rest ten_k)
  let ?go = "0 < ten_k \<and> rest \<le> delta \<and> rest < dst \<and> ten_k \<le> delta - rest \<and>
         (rest + ten_k < dst \<or> rest + ten_k - dst < dst - rest)"
  have d: "0 < d" using 1(2,3) by (cases d) (simp_all add: word_le_nat_alt)
  show ?case
  proof (cases ?go)
    case False
    then have "grisu2_round (buf @ [d]) dst delta rest ten_k = buf @ [d]"
      by (subst grisu2_round.simps) (rule if_not_P)
    then show ?thesis using d 1(2) by (intro exI [of _ 0]) (simp add: word_le_nat_alt)
  next
    case True
    have "unat (delta - rest) = unat delta - unat rest" using 1(2) by (rule unat_sub)
    with True 1(2) have le: "unat rest + unat ten_k \<le> unat delta"
      unfolding word_le_nat_alt by linarith
    then have add: "unat (rest + ten_k) = unat rest + unat ten_k"
      using unat_less64 [of delta] by (intro unat_add_lt) linarith
    have dec: "decrement_last (buf @ [d]) = buf @ [d - 1]" by (simp add: decrement_last_def)
    have "rest + ten_k \<le> delta" using le add by (simp add: word_le_nat_alt)
    moreover have "unat delta < unat (rest + ten_k) + (d - 1) * unat ten_k"
      using 1(3) add d by (cases d) simp_all
    ultimately obtain j where j: "j < d - 1"
      "grisu2_round (buf @ [d - 1]) dst delta (rest + ten_k) ten_k = buf @ [d - 1 - j]"
      "unat (rest + ten_k) + j * unat ten_k \<le> unat delta"
      using 1(1) [OF True dec] by blast
    have "grisu2_round (buf @ [d]) dst delta rest ten_k =
        grisu2_round (buf @ [d - 1]) dst delta (rest + ten_k) ten_k"
      using True by (subst grisu2_round.simps) (simp only: dec if_True simp_thms)
    then show ?thesis using j add by (intro exI [of _ "Suc j"]) simp
  qed
qed

section \<open>Digit generation\<close>

text \<open>
  Digits in the scale of the boundaries: \<open>n\<close> places are left in the integral part, and the
  rest of the upper boundary \<open>F\<close> behind the digits is at most \<open>delta\<close>.
\<close>

lemma unat_shifted_rest:
  fixes r :: u32
  assumes "unat r * 2 ^ s + unat p2 < 2 ^ 64"
  shows "unat (push_bit s (ucast r) + p2 :: u64) = unat r * 2 ^ s + unat p2"
proof -
  have "unat r < 2 ^ 32" using unsigned_less [of r, where 'a = nat] by simp
  then have r: "unat (ucast r :: u64) = unat r" by (simp add: unsigned_ucast_eq take_bit_nat_eq_self)
  then have "unat (push_bit s (ucast r) :: u64) = unat r * 2 ^ s" using assms by (subst unat_push_bit) simp_all
  then show ?thesis using assms by (subst unat_add_lt) simp_all
qed

lemma digits_nat_Cons: "digits_nat (d # ds) = d * 10 ^ length ds + digits_nat ds"
  by (induction ds rule: rev_induct) (simp_all add: digits_nat_def algebra_simps)

lemma gen_integral_spec:
  "unat pow10 = 10 ^ (k - 1) \<Longrightarrow> 1 \<le> k \<Longrightarrow> unat p1 < 10 ^ k \<Longrightarrow> s \<le> 60 \<Longrightarrow>
     unat p1 * 2 ^ s + unat p2 < 2 ^ 64 \<Longrightarrow> unat delta < unat p1 * 2 ^ s + unat p2 \<Longrightarrow>
   case gen_integral k buf p1 pow10 p2 s dst delta of
     Inl (b, n) \<Rightarrow> n < k \<and> (\<exists>ds r. b = buf @ ds \<and> length ds = k - n \<and> (\<forall>d \<in> set ds. d < 10) \<and>
       (10 ^ (k - 1) \<le> unat p1 \<longrightarrow> hd ds \<noteq> 0) \<and> r \<le> unat delta \<and>
       digits_nat ds * 10 ^ n * 2 ^ s + r = unat p1 * 2 ^ s + unat p2)
   | Inr b \<Rightarrow> \<exists>ds. b = buf @ ds \<and> length ds = k \<and> (\<forall>d \<in> set ds. d < 10) \<and>
       (10 ^ (k - 1) \<le> unat p1 \<longrightarrow> hd ds \<noteq> 0) \<and> digits_nat ds = unat p1 \<and> unat delta < unat p2"
proof (induction k buf p1 pow10 p2 s dst delta rule: gen_integral.induct)
  case (2 n buf p1 pow10 p2 s dst delta)
  define d r where "d = unat (p1 div pow10)" and "r = p1 mod pow10"
  have p10: "unat pow10 = 10 ^ n" using 2(2) by simp
  have d: "d = unat p1 div 10 ^ n" and r: "unat r = unat p1 mod 10 ^ n"
    by (simp_all add: d_def r_def unat_div unat_mod p10)
  have split: "unat p1 = d * 10 ^ n + unat r" by (simp only: d r div_mult_mod_eq)
  have "unat p1 < 10 * 10 ^ n" using 2(4) by simp
  then have d10: "d < 10" by (simp add: d div_less_iff_less_mult)
  have dpos: "10 ^ n \<le> unat p1 \<Longrightarrow> 0 < d" by (simp add: d div_greater_zero_iff)
  have "unat r * 2 ^ s \<le> unat p1 * 2 ^ s" using split by simp
  then have small: "unat r * 2 ^ s + unat p2 < 2 ^ 64" using 2(6) by linarith
  note rest = unat_shifted_rest [OF small]
  have step: "gen_integral (Suc n) buf p1 pow10 p2 s dst delta =
      (if push_bit s (ucast r) + p2 \<le> delta
       then Inl (grisu2_round (buf @ [d]) dst delta (push_bit s (ucast r) + p2) (push_bit s (ucast pow10)), n)
       else gen_integral n (buf @ [d]) r (pow10 div 10) p2 s dst delta)"
    by (simp add: Let_def d_def r_def)
  show ?case
  proof (cases "push_bit s (ucast r) + p2 \<le> delta")
    case True
    have "0 < d" using True rest 2(7) split by (cases d) (simp_all add: word_le_nat_alt)
    then have "10 ^ n * 2 ^ s \<le> unat p1 * 2 ^ s" using split by (cases d) simp_all
    then have "unat pow10 * 2 ^ s + unat (0 :: u64) < 2 ^ 64" using 2(6) unfolding p10 unat_0 by linarith
    then have ten: "unat (push_bit s (ucast pow10) :: u64) = 10 ^ n * 2 ^ s"
      using unat_shifted_rest [of pow10 s 0] by (simp add: p10)
    have "unat p1 * 2 ^ s = d * (10 ^ n * 2 ^ s) + unat r * 2 ^ s" by (simp add: split algebra_simps)
    with 2(7) have "unat delta < unat (push_bit s (ucast r) + p2 :: u64) + d * unat (push_bit s (ucast pow10) :: u64)"
      by (simp add: rest ten)
    from grisu2_round_spec [OF True this] obtain j where j: "j < d"
      "grisu2_round (buf @ [d]) dst delta (push_bit s (ucast r) + p2) (push_bit s (ucast pow10)) = buf @ [d - j]"
      "unat r * 2 ^ s + unat p2 + j * (10 ^ n * 2 ^ s) \<le> unat delta"
      unfolding rest ten by blast
    obtain i where i: "d = j + i" "0 < i" using j(1) less_imp_add_positive by blast
    have "i * 10 ^ n * 2 ^ s + (unat r * 2 ^ s + unat p2 + j * (10 ^ n * 2 ^ s)) = unat p1 * 2 ^ s + unat p2"
      using split i(1) by (simp add: algebra_simps)
    moreover have "digits_nat [i] = i" by (simp add: digits_nat_def)
    ultimately show ?thesis unfolding step using True j i d10
      by (auto intro!: exI [of _ "unat r * 2 ^ s + unat p2 + j * (10 ^ n * 2 ^ s)"])
  next
    case False
    then have lt: "unat delta < unat r * 2 ^ s + unat p2" using rest by (simp add: word_le_nat_alt)
    show ?thesis
    proof (cases n)
      case 0
      then have "unat r = 0" using r by simp
      then show ?thesis unfolding step using False lt 0 d10 dpos split
        by (auto simp: digits_nat_def intro!: exI [of _ "[d]"])
    next
      case (Suc n')
      have pw: "unat (pow10 div 10) = 10 ^ (n - 1)" using Suc by (simp add: unat_div p10)
      have rl: "unat r < 10 ^ n" by (simp add: r)
      have "0 < n" using Suc by simp
      have IH: "case gen_integral n (buf @ [d]) r (pow10 div 10) p2 s dst delta of
          Inl (b, n') \<Rightarrow> n' < n \<and> (\<exists>ds r'. b = (buf @ [d]) @ ds \<and> length ds = n - n' \<and> (\<forall>d \<in> set ds. d < 10) \<and>
            (10 ^ (n - 1) \<le> unat r \<longrightarrow> hd ds \<noteq> 0) \<and> r' \<le> unat delta \<and>
            digits_nat ds * 10 ^ n' * 2 ^ s + r' = unat r * 2 ^ s + unat p2)
        | Inr b \<Rightarrow> \<exists>ds. b = (buf @ [d]) @ ds \<and> length ds = n \<and> (\<forall>d \<in> set ds. d < 10) \<and>
            (10 ^ (n - 1) \<le> unat r \<longrightarrow> hd ds \<noteq> 0) \<and> digits_nat ds = unat r \<and> unat delta < unat p2"
        using 2(1) [of "p1 div pow10" r "buf @ [d]" "push_bit s (ucast r) + p2"] False pw rl small lt 2(5) \<open>0 < n\<close>
        by (simp add: d_def r_def)
      show ?thesis
      proof (cases "gen_integral n (buf @ [d]) r (pow10 div 10) p2 s dst delta")
        case (Inl bn)
        then obtain b i ds r' where res: "bn = (b, i)" "i < n" "b = buf @ d # ds" "length ds = n - i"
          "\<forall>d \<in> set ds. d < 10" "r' \<le> unat delta"
          "digits_nat ds * 10 ^ i * 2 ^ s + r' = unat r * 2 ^ s + unat p2"
          using IH by (cases bn) auto
        have "10 ^ length ds * 10 ^ i = (10 ^ n :: nat)" using res(2,4) by (simp flip: power_add)
        then have "digits_nat (d # ds) * 10 ^ i * 2 ^ s + r' = d * 10 ^ n * 2 ^ s + (digits_nat ds * 10 ^ i * 2 ^ s + r')"
          by (simp add: digits_nat_Cons algebra_simps)
        also have "\<dots> = unat p1 * 2 ^ s + unat p2" unfolding res(7) split by (simp add: algebra_simps)
        finally show ?thesis unfolding step using False d10 dpos res Inl
          by (auto intro!: exI [of _ "d # ds"] exI [of _ r'])
      next
        case (Inr b)
        then obtain ds where res: "b = buf @ d # ds" "length ds = n" "\<forall>d \<in> set ds. d < 10"
          "digits_nat ds = unat r" "unat delta < unat p2"
          using IH by auto
        have "digits_nat (d # ds) = unat p1" using res(2,4) split by (simp add: digits_nat_Cons)
        then show ?thesis unfolding step using False d10 dpos res Inr
          by (auto intro!: exI [of _ "d # ds"])
      qed
    qed
  qed
qed simp

lemma gen_fraction_spec:
  "gen_fraction fuel buf p2 s dst delta m = Some (b, m') \<Longrightarrow> s \<le> 60 \<Longrightarrow> unat p2 < 2 ^ s \<Longrightarrow> delta < p2 \<Longrightarrow>
   \<exists>ds r. b = buf @ ds \<and> m' = m + length ds \<and> (\<forall>d \<in> set ds. d < 10) \<and>
     digits_nat ds * 2 ^ s + r = unat p2 * 10 ^ length ds \<and> r \<le> unat delta * 10 ^ length ds"
proof (induction fuel buf p2 s dst delta m rule: gen_fraction.induct)
  case (2 fuel buf p2 s dst delta m)
  define q where "q = p2 * 10"
  define r where "r = q AND (push_bit s 1 - 1)"
  define d where "d = unat (drop_bit s q)"
  have s: "(2::nat) ^ s \<le> 2 ^ 60" using 2(3) by (intro power_increasing) simp_all
  have q: "unat q = unat p2 * 10" unfolding q_def using 2(4) s by (subst unat_mult_lt) simp_all
  have delta: "unat (delta * 10) = unat delta * 10"
    using 2(4,5) s by (subst unat_mult_lt) (simp_all add: word_less_nat_alt)
  have r: "unat r = unat q mod 2 ^ s"
  proof -
    have "(push_bit s 1 - 1 :: u64) = mask s" by (simp add: mask_eq_exp_minus_1 push_bit_eq_mult)
    then have "r = take_bit s q" by (simp add: r_def take_bit_eq_mask)
    then show ?thesis by (metis take_bit_eq_mod unsigned_take_bit_eq)
  qed
  have d: "d = unat q div 2 ^ s" by (simp add: d_def unat_high_half)
  have split: "unat q = d * 2 ^ s + unat r" by (simp only: d r div_mult_mod_eq)
  have d10: "d < 10" using 2(4) q by (simp add: d div_less_iff_less_mult)
  have step: "gen_fraction (Suc fuel) buf p2 s dst delta m =
      (if r \<le> delta * 10 then Some (grisu2_round (buf @ [d]) (dst * 10) (delta * 10) r (push_bit s 1), Suc m)
       else gen_fraction fuel (buf @ [d]) r s (dst * 10) (delta * 10) (Suc m))"
    by (simp add: Let_def r_def d_def q_def)
  show ?case
  proof (cases "r \<le> delta * 10")
    case True
    have one: "unat (push_bit s 1 :: u64) = 2 ^ s" using s by (subst unat_push_bit) simp_all
    have "unat (delta * 10) < unat r + d * unat (push_bit s 1 :: u64)"
      using 2(5) split q delta one by (simp add: word_less_nat_alt)
    from grisu2_round_spec [OF True this] obtain j where j: "j < d"
      "grisu2_round (buf @ [d]) (dst * 10) (delta * 10) r (push_bit s 1) = buf @ [d - j]"
      "unat r + j * 2 ^ s \<le> unat delta * 10"
      unfolding one delta by blast
    obtain i where i: "d = j + i" using j(1) less_imp_add_positive by blast
    have "digits_nat [i] = i" by (simp add: digits_nat_def)
    moreover have "i * 2 ^ s + (unat r + j * 2 ^ s) = unat p2 * 10"
      using split i by (simp add: q algebra_simps)
    ultimately show ?thesis using 2(2) step True j i d10
      by (auto intro!: exI [of _ "[i]"] exI [of _ "unat r + j * 2 ^ s"])
  next
    case False
    have "unat r < 2 ^ s" by (simp add: r)
    moreover have "delta * 10 < r" using False by simp
    moreover have "gen_fraction fuel (buf @ [d]) r s (dst * 10) (delta * 10) (Suc m) = Some (b, m')"
      using 2(2) step False by simp
    ultimately obtain ds r' where ds: "b = (buf @ [d]) @ ds" "m' = Suc m + length ds" "\<forall>d \<in> set ds. d < 10"
      "digits_nat ds * 2 ^ s + r' = unat r * 10 ^ length ds" "r' \<le> unat (delta * 10) * 10 ^ length ds"
      using 2(1) [of q "drop_bit s q" r "buf @ [d]" "delta * 10" "dst * 10"] False 2(3)
      by (simp add: q_def r_def d_def) blast
    have "digits_nat (d # ds) * 2 ^ s + r' = (d * 2 ^ s + unat r) * 10 ^ length ds"
      using ds(4) by (simp add: digits_nat_Cons algebra_simps)
    also have "\<dots> = unat p2 * 10 ^ length (d # ds)" using split q by simp
    finally show ?thesis using ds d10 delta
      by (intro exI [of _ "d # ds"] exI [of _ r']) (simp add: mult.assoc)
  qed
qed simp

lemma find_largest_pow10_bounds:
  assumes "find_largest_pow10 n = (k, p)" and "0 < n"
  shows "10 ^ (k - 1) \<le> unat n" and "unat n < 10 ^ k"
proof -
  have "unat n < 10 ^ 10" using unsigned_less [of n, where 'a = nat] by simp
  then show "10 ^ (k - 1) \<le> unat n" "unat n < 10 ^ k" using assms
    by (auto simp: find_largest_pow10_def word_le_nat_alt word_less_nat_alt not_le split: if_splits)
qed

lemma grisu2_digit_gen_spec:
  assumes gen: "grisu2_digit_gen de m w p = Some (ds, e)"
    and s: "dp_e p = - int s" "32 \<le> s" "s \<le> 60"
    and F: "F = unat (dp_f p)" "2 ^ s \<le> F" and M: "M = unat (dp_f m)" "0 < M" "M \<le> F"
  shows "ds \<noteq> []" and "\<forall>d \<in> set ds. d < 10" and "hd ds \<noteq> 0"
    and "of_nat M \<le> of_nat (digits_nat ds) * 10 powi (e - de) * (2 ^ s :: rat)"
    and "of_nat (digits_nat ds) * 10 powi (e - de) * (2 ^ s :: rat) \<le> of_nat F"
proof -
  define p1 where "p1 = (ucast (drop_bit s (dp_f p)) :: u32)"
  define p2 where "p2 = dp_f p AND (push_bit s 1 - 1)"
  define delta where "delta = dp_f (diyfp_sub p m)"
  define dst where "dst = dp_f (diyfp_sub p w)"
  obtain k pow10 where kp: "find_largest_pow10 p1 = (k, pow10)" by fastforce
  have "(2::nat) ^ 32 \<le> 2 ^ s" using s(2) by (intro power_increasing) simp_all
  have p1: "unat p1 = F div 2 ^ s"
  proof -
    have "F div 2 ^ s < 2 ^ 32"
    proof -
      have "F < 2 ^ 32 * 2 ^ 32" using unat_less64 [of "dp_f p"] by (simp add: F(1))
      also have "\<dots> \<le> 2 ^ 32 * 2 ^ s" using \<open>(2::nat) ^ 32 \<le> 2 ^ s\<close> by (rule mult_le_mono2)
      finally show ?thesis by (simp add: div_less_iff_less_mult)
    qed
    then show ?thesis
      by (simp add: p1_def unsigned_ucast_eq unat_high_half F(1) take_bit_nat_eq_self_iff)
  qed
  have p2: "unat p2 = F mod 2 ^ s"
  proof -
    have "(push_bit s 1 - 1 :: u64) = mask s" by (simp add: mask_eq_exp_minus_1 push_bit_eq_mult)
    then have "p2 = take_bit s (dp_f p)" by (simp add: p2_def take_bit_eq_mask)
    then show ?thesis by (metis F(1) take_bit_eq_mod unsigned_take_bit_eq)
  qed
  have F12: "F = unat p1 * 2 ^ s + unat p2" by (simp only: p1 p2 div_mult_mod_eq)
  have "1 \<le> F div 2 ^ s" using F(2) by (simp add: div_greater_zero_iff Suc_le_eq)
  then have "0 < p1" using p1 by (simp add: word_less_nat_alt)
  note k = find_largest_pow10_spec [OF kp] find_largest_pow10_bounds [OF kp this]
  have delta: "unat delta = F - M"
    using M(3) by (simp add: delta_def diyfp_sub_def diyfp_of_def F(1) M(1) unat_sub word_le_nat_alt)
  have F64: "unat p1 * 2 ^ s + unat p2 < 2 ^ 64" using unat_less64 [of "dp_f p"] F12 F(1) by simp
  have small: "unat delta < unat p1 * 2 ^ s + unat p2" using delta M F12 by linarith
  have sP: "nat (- dp_e p) = s" using s(1) by simp
  have eq: "(case gen_integral k [] p1 pow10 p2 s dst delta of
       Inl (buf, n) \<Rightarrow> Some (buf, de + int n)
     | Inr buf \<Rightarrow> (case gen_fraction 20 buf p2 s dst delta 0 of
          None \<Rightarrow> None | Some (buf', m) \<Rightarrow> Some (buf', de - int m))) = Some (ds, e)"
    using gen unfolding grisu2_digit_gen_def Let_def sP
    unfolding p1_def [symmetric] p2_def [symmetric] dst_def [symmetric] delta_def [symmetric] kp prod.case .
  note spec = gen_integral_spec [of pow10 k p1 s p2 delta "[]" dst, OF _ _ k(3) s(3) F64 small]
  have "ds \<noteq> [] \<and> (\<forall>d \<in> set ds. d < 10) \<and> hd ds \<noteq> 0 \<and>
    of_nat M \<le> of_nat (digits_nat ds) * 10 powi (e - de) * (2 ^ s :: rat) \<and>
    of_nat (digits_nat ds) * 10 powi (e - de) * (2 ^ s :: rat) \<le> of_nat F"
  proof (cases "gen_integral k [] p1 pow10 p2 s dst delta")
    case (Inl bn)
    then obtain n r where n: "e = de + int n" "n < k" "length ds = k - n" "\<forall>d \<in> set ds. d < 10" "hd ds \<noteq> 0"
      "r \<le> unat delta" "digits_nat ds * 10 ^ n * 2 ^ s + r = F"
      using spec k eq F12 by (cases bn) auto
    have "M \<le> digits_nat ds * 10 ^ n * 2 ^ s" "digits_nat ds * 10 ^ n * 2 ^ s \<le> F"
      using n(6,7) delta M(3) by linarith+
    then have "of_nat M \<le> (of_nat (digits_nat ds * 10 ^ n * 2 ^ s) :: rat)"
      "of_nat (digits_nat ds * 10 ^ n * 2 ^ s) \<le> (of_nat F :: rat)" by (simp_all only: of_nat_le_iff)
    moreover have "ds \<noteq> []" using n(2,3) by auto
    ultimately show ?thesis using n(1,4,5) by simp
  next
    case (Inr buf)
    then obtain m where buf: "length buf = k" "\<forall>d \<in> set buf. d < 10" "hd buf \<noteq> 0" "digits_nat buf = unat p1"
      "unat delta < unat p2" and frac: "gen_fraction 20 buf p2 s dst delta 0 = Some (ds, m)" "e = de - int m"
      using spec k eq by (auto split: option.splits)
    have "unat p2 < 2 ^ s" by (simp add: p2)
    from gen_fraction_spec [OF frac(1) s(3) this] buf(5) obtain es r where
      es: "ds = buf @ es" "m = length es" "\<forall>d \<in> set es. d < 10"
        "digits_nat es * 2 ^ s + r = unat p2 * 10 ^ m" "r \<le> unat delta * 10 ^ m"
      by (auto simp: word_less_nat_alt)
    have "digits_nat (xs @ ys) = digits_nat xs * 10 ^ length ys + digits_nat ys" for xs ys
      by (induction ys rule: rev_induct) (simp_all add: algebra_simps flip: append_assoc)
    then have "digits_nat ds * 2 ^ s + r = F * 10 ^ m"
      using es F12 buf(4) by (simp add: algebra_simps)
    moreover have "r + M * 10 ^ m \<le> F * 10 ^ m"
    proof -
      have "M * 10 ^ m \<le> F * 10 ^ m" using M(3) by (rule mult_le_mono1)
      moreover have "r \<le> F * 10 ^ m - M * 10 ^ m" using es(5) by (simp only: delta diff_mult_distrib)
      ultimately show ?thesis by linarith
    qed
    ultimately have "M * 10 ^ m \<le> digits_nat ds * 2 ^ s" "digits_nat ds * 2 ^ s \<le> F * 10 ^ m"
      by linarith+
    then have "of_nat (M * 10 ^ m) \<le> (of_nat (digits_nat ds * 2 ^ s) :: rat)"
      "of_nat (digits_nat ds * 2 ^ s) \<le> (of_nat (F * 10 ^ m) :: rat)" by (simp_all only: of_nat_le_iff)
    moreover have pm: "10 powi (e - de) = 1 / (10 ^ m :: rat)"
      using frac(2) by (simp add: power_int_minus inverse_eq_divide)
    ultimately have "of_nat M \<le> of_nat (digits_nat ds) * 10 powi (e - de) * (2 ^ s :: rat)"
      "of_nat (digits_nat ds) * 10 powi (e - de) * (2 ^ s :: rat) \<le> of_nat F"
      unfolding pm by (simp_all add: field_simps)
    moreover have "buf \<noteq> []" using buf(1) k(1) by auto
    then have "hd ds = hd buf" "buf \<noteq> []" using es(1) by simp_all
    ultimately show ?thesis using es(1,3) buf(2,3) by auto
  qed
  then show "ds \<noteq> []" "\<forall>d \<in> set ds. d < 10" "hd ds \<noteq> 0"
    "of_nat M \<le> of_nat (digits_nat ds) * 10 powi (e - de) * (2 ^ s :: rat)"
    "of_nat (digits_nat ds) * 10 powi (e - de) * (2 ^ s :: rat) \<le> of_nat F" by blast+
qed

section \<open>What lies between the boundaries is rounded to the double\<close>

lemma round_even_near: "\<bar>q - of_int n\<bar> < 1 / 2 \<Longrightarrow> round_even q = n"
proof -
  assume "\<bar>q - of_int n\<bar> < 1 / 2"
  then have "\<lfloor>q\<rfloor> = n \<or> \<lfloor>q\<rfloor> = n - 1" by linarith
  with \<open>\<bar>q - of_int n\<bar> < 1 / 2\<close> show ?thesis by (auto simp: round_even_def Let_def)
qed

definition upper_boundary :: "nat \<Rightarrow> int \<Rightarrow> rat" where
  "upper_boundary f e = of_nat (2 * f + 1) * pow2 (e - 1)"

definition lower_boundary :: "nat \<Rightarrow> int \<Rightarrow> rat" where
  "lower_boundary f e = (if f = 2 ^ 52 \<and> - 1074 < e then of_nat (4 * f - 1) * pow2 (e - 2)
     else of_nat (2 * f - 1) * pow2 (e - 1))"

lemma pow2_Suc: "pow2 (e + 1) = 2 * pow2 e" and pow2_pred: "pow2 e = 2 * pow2 (e - 1)"
  using pow2_add [of e 1] pow2_add [of "e - 1" 1] by (simp_all add: pow2_def)

lemma fl_between:
  assumes parts: "double_parts x f e" and x: "x = of_nat f * pow2 e"
    and v: "lower_boundary f e < v" "v < upper_boundary f e"
  shows "fl v = x"
proof -
  have f: "0 < f" "- 1074 \<le> e" and u: "ulp_exp x = e" using parts by (simp_all add: double_parts_def)
  have pow: "pow2 51 = 2 ^ 51" "pow2 52 = 2 ^ 52" "pow2 53 = 2 ^ 53" by (simp_all add: pow2_def)
  have x0: "0 < x" using f x by simp
  have "x < pow2 (e + 53)"
  proof -
    have "ilog2 x + 1 \<le> e + 53" using u by (simp add: ulp_exp_def)
    then show ?thesis using ilog2_bounds(2) [OF x0] pow2_le less_le_trans by blast
  qed
  then have "of_nat f * pow2 e < 2 ^ 53 * pow2 e" unfolding x pow2_add pow by (simp only: mult.commute)
  then have "of_nat f < (of_nat (2 ^ 53) :: rat)" by simp
  then have f53: "f < 2 ^ 53" by (simp only: of_nat_less_iff)
  have f52: "2 ^ 52 \<le> f" if "- 1074 < e"
  proof -
    have "ilog2 x = e + 52" using u that by (simp add: ulp_exp_def max_def split: if_splits)
    then have "pow2 (e + 52) \<le> x" using ilog2_bounds(1) [OF x0] by simp
    then have "2 ^ 52 * pow2 e \<le> of_nat f * pow2 e" unfolding x pow2_add pow by (simp only: mult.commute)
    then have "of_nat (2 ^ 52) \<le> (of_nat f :: rat)" by simp
    then show ?thesis by (simp only: of_nat_le_iff)
  qed
  define h where "h = pow2 (e - 2)"
  have h: "0 < h" "pow2 (e - 1) = 2 * h" "pow2 e = 4 * h"
    using pow2_pred [of e] pow2_pred [of "e - 1"] by (simp_all add: h_def)
  obtain g where g: "f = Suc g" using f(1) by (cases f) auto
  have lo: "(of_nat f * 4 - 2) * h \<le> lower_boundary f e"
    using h unfolding lower_boundary_def h_def [symmetric] by (auto simp: g algebra_simps)
  have hi: "upper_boundary f e = (of_nat f * 4 + 2) * h"
    using h by (simp add: upper_boundary_def algebra_simps)
  have "0 \<le> (of_nat f * 4 - 2) * h" using h f(1) by simp
  then have v0: "0 < v" using lo v(1) by linarith
  show ?thesis
  proof (cases "ulp_exp v = e")
    case True
    have "v / pow2 e < of_nat f + 1 / 2" using v(2) h by (simp add: hi field_simps)
    moreover have "of_nat f - 1 / 2 < v / pow2 e" using v(1) lo h by (simp add: field_simps)
    ultimately have "round_even (v / pow2 e) = int f"
      by (intro round_even_near) (simp only: of_int_of_nat_eq abs_less_iff, linarith)
    then show ?thesis using v0 by (simp add: fl_def fl_pos_def True x)
  next
    case False
    have "of_nat (f + 1) \<le> (of_nat (2 ^ 53) :: rat)" using f53 by (intro of_nat_mono) simp
    then have "(of_nat f * 4 + 2) * h < 2 ^ 53 * 4 * h" using h by (intro mult_strict_right_mono) simp_all
    moreover have "2 ^ 53 * 4 * h = pow2 (e + 53)" by (simp add: h pow2_add pow)
    ultimately have "v < pow2 (e + 53)" using v(2) unfolding hi by linarith
    then have "pow2 (ilog2 v) < pow2 (e + 53)" using ilog2_bounds(1) [OF v0] by linarith
    then have il: "ilog2 v \<le> e + 52" by simp
    then have e: "- 1074 < e" "ilog2 v + 1 \<le> e + 52" using False f(2) by (auto simp: ulp_exp_def max_def split: if_splits)
    then have "v < pow2 (e + 52)" using ilog2_bounds(2) [OF v0] pow2_le less_le_trans by blast
    then have "v < 2 ^ 54 * h" using h by (simp add: pow2_add pow)
    then have "(of_nat f * 4 - 2) * h < 2 ^ 54 * h" using lo v(1) by linarith
    then have "of_nat f * 4 - 2 < (2 ^ 54 :: rat)" using h by simp
    then have "of_nat f < (of_nat (2 ^ 52 + 1) :: rat)" by simp
    then have f: "f = 2 ^ 52" using f52 [OF e(1)] unfolding of_nat_less_iff by linarith
    then have low: "(2 ^ 54 - 1) * h < v" using v(1) e(1) by (simp add: lower_boundary_def h_def)
    have "pow2 (e + 51) = 2 ^ 53 * h" using h by (simp add: pow2_add pow)
    then have "pow2 (e + 51) \<le> v" using low h by simp
    then have "ilog2 v = e + 51" using \<open>v < pow2 (e + 52)\<close>
      by (intro ilog2_unique) (simp_all add: add.commute [of e])
    then have ulp: "ulp_exp v = e - 1" using e(1) by (simp add: ulp_exp_def)
    have "2 ^ 53 - 1 / 2 < v / pow2 (e - 1)" using low h by (simp add: field_simps)
    moreover have "v / pow2 (e - 1) < 2 ^ 53" using \<open>v < 2 ^ 54 * h\<close> h by (simp add: field_simps)
    ultimately have "round_even (v / pow2 (e - 1)) = 2 ^ 53" by (intro round_even_near) (simp add: abs_less_iff)
    then show ?thesis using v0 h by (simp add: fl_def fl_pos_def ulp x f)
  qed
qed

section \<open>The digits of a double\<close>

text \<open>The rounded product with a rounded power is off by less than one unit.\<close>

lemma diyfp_mul_close:
  assumes "2 * \<bar>of_nat (unat (dp_f c)) * pow2 (dp_e c) - T\<bar> \<le> pow2 (dp_e c)"
  shows "\<bar>of_nat (unat (dp_f (diyfp_mul x c))) * pow2 (dp_e x + dp_e c + 64)
      - of_nat (unat (dp_f x)) * pow2 (dp_e x) * T\<bar> < pow2 (dp_e x + dp_e c + 64)"
proof -
  define X C H q g where "X = unat (dp_f x)" and "C = unat (dp_f c)"
    and "H = unat (dp_f (diyfp_mul x c))" and "q = pow2 (dp_e x)" and "g = pow2 (dp_e c)"
  have p64: "pow2 64 = 2 ^ 64" by (simp add: pow2_def)
  have u: "pow2 (dp_e x + dp_e c + 64) = q * g * 2 ^ 64"
    by (simp only: pow2_add q_def g_def p64)
  obtain l where l: "H * 2 ^ 64 + l = X * C + 2 ^ 63" "l < 2 ^ 64"
    using diyfp_mul_exact [of x c] unfolding X_def C_def H_def by metis
  have "of_nat (H * 2 ^ 64 + l) = (of_nat (X * C + 2 ^ 63) :: rat)" using l(1) by (simp only:)
  moreover have "of_nat l < (of_nat (2 ^ 64) :: rat)" using l(2) by (simp only: of_nat_less_iff)
  ultimately have d1: "\<bar>of_nat H * 2 ^ 64 - of_nat X * of_nat C\<bar> \<le> (2 ^ 63 :: rat)"
    unfolding of_nat_add of_nat_mult of_nat_power of_nat_numeral abs_le_iff by simp
  have qg: "0 < q" "0 < g" by (simp_all add: q_def g_def)
  have "X < 2 ^ 64" unfolding X_def by (rule unat_less64)
  then have X: "of_nat X < (of_nat (2 ^ 64) :: rat)" by (simp only: of_nat_less_iff)
  have "\<bar>q * g * (of_nat H * 2 ^ 64 - of_nat X * of_nat C)\<bar> \<le> q * g * 2 ^ 63"
    using d1 qg by (simp add: abs_mult)
  moreover have "\<bar>q * of_nat X * (of_nat C * g - T)\<bar> < q * g * 2 ^ 63"
  proof -
    have "\<bar>q * of_nat X * (of_nat C * g - T)\<bar> = q * of_nat X * \<bar>of_nat C * g - T\<bar>"
      using qg by (simp add: abs_mult)
    also have "\<dots> \<le> q * of_nat X * (g / 2)"
      using assms qg unfolding C_def [symmetric] g_def [symmetric] by (intro mult_left_mono) simp_all
    also have "\<dots> < q * of_nat (2 ^ 64) * (g / 2)"
      using X qg by (intro mult_strict_right_mono mult_strict_left_mono) simp_all
    finally show ?thesis by (simp add: mult.commute)
  qed
  moreover have "of_nat H * (q * g * 2 ^ 64) - of_nat X * q * T =
      q * g * (of_nat H * 2 ^ 64 - of_nat X * of_nat C) + q * of_nat X * (of_nat C * g - T)"
    by (simp add: algebra_simps)
  moreover have "q * g * 2 ^ 64 = q * g * 2 ^ 63 + q * g * 2 ^ 63" by simp
  ultimately show ?thesis unfolding u X_def [symmetric] C_def [symmetric] H_def [symmetric] q_def [symmetric]
    by linarith
qed

text \<open>The boundaries of the double, as \<open>compute_boundaries\<close> scales them.\<close>

lemma boundary_values:
  assumes "double_parts x f e" and "b = compute_boundaries x"
  shows "of_nat (unat (dp_f (bd_plus b))) * pow2 (dp_e (bd_plus b)) = upper_boundary f e"
    and "of_nat (unat (dp_f (bd_minus b))) * pow2 (dp_e (bd_minus b)) = lower_boundary f e"
    and "2 ^ 63 \<le> unat (dp_f (bd_plus b))" and "dp_e (bd_minus b) = dp_e (bd_plus b)"
proof -
  obtain t where t: "9 \<le> t" "t \<le> 62"
    and p: "unat (dp_f (bd_plus b)) = (2 * f + 1) * 2 ^ t" "2 ^ 63 \<le> (2 * f + 1) * 2 ^ t"
    and e: "dp_e (bd_plus b) = e - 1 - int t" "dp_e (bd_minus b) = e - 1 - int t"
    and m: "unat (dp_f (bd_minus b)) =
      (if f = 2 ^ 52 \<and> - 1074 < e then (4 * f - 1) * 2 ^ (t - 1) else (2 * f - 1) * 2 ^ t)"
    by (rule compute_boundaries_parts [OF assms(1)]) (use assms(2) in blast)
  have exps: "int t + (e - 1 - int t) = e - 1" "int (t - 1) + (e - 1 - int t) = e - 2" using t(1) by simp_all
  have scale: "2 ^ t * pow2 (e - 1 - int t) = pow2 (e - 1)"
    "2 ^ (t - 1) * pow2 (e - 1 - int t) = pow2 (e - 2)"
    by (simp_all only: pow2_nat [symmetric] pow2_add [symmetric] exps)
  show "of_nat (unat (dp_f (bd_plus b))) * pow2 (dp_e (bd_plus b)) = upper_boundary f e"
    unfolding p e upper_boundary_def of_nat_mult scale(1) [symmetric] by simp
  show "of_nat (unat (dp_f (bd_minus b))) * pow2 (dp_e (bd_minus b)) = lower_boundary f e"
  proof (cases "f = 2 ^ 52 \<and> - 1074 < e")
    case True
    then show ?thesis unfolding m e lower_boundary_def of_nat_mult if_P [OF True] scale(2) [symmetric] by simp
  next
    case False
    then show ?thesis unfolding m e lower_boundary_def of_nat_mult if_not_P [OF False] scale(1) [symmetric] by simp
  qed
  show "2 ^ 63 \<le> unat (dp_f (bd_plus b))" using p by simp
  show "dp_e (bd_minus b) = dp_e (bd_plus b)" by (simp add: e)
qed


lemma grisu2_exact:
  assumes parts: "double_parts x f e" and res: "grisu2 x = Some (ds, k)"
  shows "ds \<noteq> []" and "\<forall>d \<in> set ds. d < 10" and "hd ds \<noteq> 0"
    and "lower_boundary f e < of_nat (digits_nat ds) * 10 powi k"
    and "of_nat (digits_nat ds) * 10 powi k < upper_boundary f e"
proof -
  define b where "b = compute_boundaries x"
  note gap = compute_boundaries_gap [OF parts, folded b_def]
  note val = boundary_values [OF parts b_def]
  obtain cf ce ck where c: "get_cached_power_for_binary_exponent (dp_e (bd_plus b)) = (cf, ce, ck)"
    by (metis prod.collapse)
  note pow = get_cached_power [OF gap(2,3) c]
  define c where "c = diyfp_of cf ce"
  define P M W where "P = diyfp_mul (bd_plus b) c" and "M = diyfp_mul (bd_minus b) c"
    and "W = diyfp_mul (bd_w b) c"
  define s where "s = nat (- dp_e P)"
  define T :: rat where "T = 10 powi ck"
  define u where "u = pow2 (dp_e P)"
  have T: "0 < T" by (simp add: T_def)
  have cparts: "dp_f c = cf" "dp_e c = ce" by (simp_all add: c_def diyfp_of_def)
  have e: "dp_e P = dp_e (bd_plus b) + dp_e c + 64" "dp_e M = dp_e P"
    using val(4) by (simp_all add: P_def M_def diyfp_mul_def diyfp_of_def Let_def)
  have s: "dp_e P = - int s" "32 \<le> s" "s \<le> 60" using pow(2,3) by (simp_all add: s_def e cparts)
  have u: "u * 2 ^ s = 1" "0 < u"
    unfolding u_def s(1) by (simp_all flip: pow2_nat pow2_add) (simp add: pow2_def)
  have "power_close (integral (cf, ce, ck))" using pow(4) by (rule kCachedPowers_close)
  then have close: "2 * \<bar>of_nat (unat (dp_f c)) * pow2 (dp_e c) - T\<bar> \<le> pow2 (dp_e c)"
    by (simp add: power_close_def integral_def cparts T_def)
  have upper: "of_nat (unat (dp_f P)) * u - upper_boundary f e * T < u"
    using diyfp_mul_close [OF close, of "bd_plus b"]
    unfolding P_def [symmetric] u_def e(1) [symmetric] val(1) abs_less_iff by (rule conjunct1)
  have lower: "lower_boundary f e * T - of_nat (unat (dp_f M)) * u < u"
    using diyfp_mul_close [OF close, of "bd_minus b"]
    unfolding M_def [symmetric] u_def val(2) unfolding val(4) e(1) [symmetric] abs_less_iff by linarith
  have gap3: "unat (dp_f M) + 3 \<le> unat (dp_f P)"
    unfolding P_def M_def by (rule diyfp_mul_diff) (use pow gap cparts in simp_all)
  have fs: "unat (dp_f P - 1) = unat (dp_f P) - 1" "unat (dp_f M + 1) = unat (dp_f M) + 1"
    using gap3 unat_less64 [of "dp_f P"] by (simp_all add: unat_sub word_le_nat_alt unat_add_lt)
  have big: "2 ^ s \<le> unat (dp_f P) - 1"
  proof -
    obtain l where l: "unat (dp_f P) * 2 ^ 64 + l = unat (dp_f (bd_plus b)) * unat cf + 2 ^ 63" "l < 2 ^ 64"
      using diyfp_mul_exact [of "bd_plus b" c] unfolding P_def cparts by metis
    have "2 ^ 63 * 2 ^ 63 \<le> unat (dp_f (bd_plus b)) * unat cf" using val(3) pow(1) by (rule mult_le_mono)
    then have "2 ^ 60 * 2 ^ 64 + 2 ^ 64 \<le> unat (dp_f P) * 2 ^ 64" using l by simp
    then have "2 ^ 60 + 1 \<le> unat (dp_f P)" by simp
    moreover have "(2::nat) ^ s \<le> 2 ^ 60" using s(3) by (intro power_increasing) simp_all
    ultimately show ?thesis by linarith
  qed
  have gen: "grisu2_digit_gen (- ck) (diyfp_of (dp_f M + 1) (dp_e M)) W (diyfp_of (dp_f P - 1) (dp_e P)) = Some (ds, k)"
    using res unfolding grisu2_def grisu2_of_def Let_def b_def [symmetric] c prod.case
    by (simp only: P_def M_def W_def c_def)
  define D where "D = of_nat (digits_nat ds) * (10 powi k :: rat)"
  have pk: "10 powi (k - - ck) = 10 powi k * T" by (simp add: T_def power_int_add)
  note spec = grisu2_digit_gen_spec [OF gen, of s "unat (dp_f P - 1)" "unat (dp_f M + 1)"]
  have sp: "ds \<noteq> []" "\<forall>d \<in> set ds. d < 10" "hd ds \<noteq> 0"
    "of_nat (unat (dp_f M + 1)) \<le> of_nat (digits_nat ds) * 10 powi (k - - ck) * (2 ^ s :: rat)"
    "of_nat (digits_nat ds) * 10 powi (k - - ck) * (2 ^ s :: rat) \<le> of_nat (unat (dp_f P - 1))"
    using spec s big gap3 fs by (simp_all add: diyfp_of_def)
  have nat1: "of_nat (unat (dp_f M + 1)) = of_nat (unat (dp_f M)) + (1 :: rat)"
    "of_nat (unat (dp_f P - 1)) = of_nat (unat (dp_f P)) - (1 :: rat)"
    unfolding fs using gap3 by (simp_all add: of_nat_diff)
  have D: "of_nat (digits_nat ds) * 10 powi (k - - ck) * (2 ^ s :: rat) = D * T * 2 ^ s"
    by (simp only: pk D_def mult.assoc)
  have us: "D * T * 2 ^ s * u = D * T * (u * 2 ^ s)" by simp
  have "(of_nat (unat (dp_f M)) + 1) * u \<le> D * T * (u * 2 ^ s)"
    using mult_right_mono [OF sp(4), of u] u(2) unfolding D nat1 us by simp
  moreover have "D * T * (u * 2 ^ s) \<le> (of_nat (unat (dp_f P)) - 1) * u"
    using mult_right_mono [OF sp(5), of u] u(2) unfolding D nat1 us by simp
  ultimately have "lower_boundary f e * T < D * T" "D * T < upper_boundary f e * T"
    using lower upper unfolding u(1) by (simp_all add: algebra_simps)
  then show "ds \<noteq> []" "\<forall>d \<in> set ds. d < 10" "hd ds \<noteq> 0" "lower_boundary f e < of_nat (digits_nat ds) * 10 powi k"
    "of_nat (digits_nat ds) * 10 powi k < upper_boundary f e"
    using sp T unfolding D_def by simp_all
qed

end
