(* ===== verification/FloatText.thy ===== *)
theory FloatText
  imports GrisuExact JsonLex
begin

text \<open>
  The text of a double is read back as the same double: \<open>format_buffer\<close> writes the digits and
  the exponent of Grisu2 in one of four layouts, \<open>scan_number\<close> accepts each of them as a
  floating-point number, and \<open>strtod\<close> rounds its value to the double.
\<close>

section \<open>Texts of numbers\<close>

lemma digits_val_snoc [simp]: "digits_val (s @ [c]) = 10 * digits_val s + digit_val c"
  and digits_val_Nil [simp]: "digits_val [] = 0"
  by (simp_all add: digits_val_def)

lemma digits_val_append: "digits_val (s @ t) = digits_val s * 10 ^ length t + digits_val t"
  by (induction t rule: rev_induct) (simp_all add: algebra_simps flip: append_assoc)

lemma digits_val_zeros [simp]: "digits_val (replicate n (CHR ''0'')) = 0"
proof (induction n)
  case (Suc n)
  then show ?case unfolding replicate_Suc by (simp add: digit_val_def flip: replicate_append_same)
qed simp

lemma digits_val_digits: "\<forall>d \<in> set ds. d < 10 \<Longrightarrow> digits_val (map digit_char ds) = digits_nat ds"
  by (induction ds rule: rev_induct) simp_all

definition all_digits :: "string \<Rightarrow> bool" where
  "all_digits s \<longleftrightarrow> (\<forall>c \<in> set s. is_digit c)"

lemma all_digits_simps [simp]:
  "all_digits []" "all_digits (c # s) \<longleftrightarrow> is_digit c \<and> all_digits s"
  "all_digits (s @ t) \<longleftrightarrow> all_digits s \<and> all_digits t" "all_digits (replicate n (CHR ''0''))"
  by (auto simp: all_digits_def is_digit_def)

lemma all_digits_map [simp]: "\<forall>d \<in> set ds. d < 10 \<Longrightarrow> all_digits (map digit_char ds)"
  by (auto simp: all_digits_def)

lemma all_digits_take [simp]: "all_digits s \<Longrightarrow> all_digits (take n s)"
  and all_digits_drop [simp]: "all_digits s \<Longrightarrow> all_digits (drop n s)"
  by (auto simp: all_digits_def dest: in_set_takeD in_set_dropD)

text \<open>A number with a fraction, an exponent, or both.\<close>

definition frac_part :: "string \<Rightarrow> string" where
  "frac_part fp = (if fp = [] then [] else CHR ''.'' # fp)"

definition exp_part :: "int option \<Rightarrow> string" where
  "exp_part x = (case x of None \<Rightarrow> [] | Some e \<Rightarrow> CHR ''e'' # append_exponent e)"

definition exp_val :: "int option \<Rightarrow> int" where
  "exp_val x = (case x of None \<Rightarrow> 0 | Some e \<Rightarrow> e)"

definition float_text :: "string \<Rightarrow> string \<Rightarrow> int option \<Rightarrow> bool" where
  "float_text ip fp x \<longleftrightarrow> ip \<noteq> [] \<and> all_digits ip \<and> all_digits fp \<and> (ip = ''0'' \<or> hd ip \<noteq> CHR ''0'') \<and>
     (fp \<noteq> [] \<or> x \<noteq> None) \<and> \<bar>exp_val x\<bar> < 1000"

lemma append_exponent_text:
  assumes "\<bar>e\<bar> < 1000"
  obtains c ds where "append_exponent e = c # ds" and "c = (if e < 0 then CHR ''-'' else CHR ''+'')"
    and "all_digits ds" and "ds \<noteq> []" and "digits_val ds = nat \<bar>e\<bar>"
proof -
  define k where "k = nat \<bar>e\<bar>"
  define ds where "ds = (if k < 10 then [CHR ''0'', digit_char k]
      else if k < 100 then [digit_char (k div 10), digit_char (k mod 10)]
      else [digit_char (k div 100), digit_char (k mod 100 div 10), digit_char (k mod 100 mod 10)])"
  have k: "k < 1000" using assms by (simp add: k_def)
  have d: "k div 100 < 10" "k mod 100 div 10 < 10" "k mod 100 mod 10 < 10"
    using k by (simp_all add: div_less_iff_less_mult)
  have val: "100 * (k div 100) + 10 * (k mod 100 div 10) + k mod 100 mod 10 = k"
    using div_mult_mod_eq [of k 100] div_mult_mod_eq [of "k mod 100" 10] by linarith
  have z: "is_digit (CHR ''0'')" "digit_val (CHR ''0'') = 0" by (simp_all add: is_digit_def digit_val_def)
  have "digits_val ds = k" "all_digits ds" "ds \<noteq> []"
    using d val z by (auto simp: ds_def digits_val_def div_less_iff_less_mult)
  then show thesis using that [of "if e < 0 then CHR ''-'' else CHR ''+''" ds]
    by (simp add: append_exponent_def Let_def ds_def k_def)
qed

section \<open>The scanner accepts the text\<close>

text \<open>What may follow a number.\<close>

definition stops :: "string \<Rightarrow> bool" where
  "stops r \<longleftrightarrow> (\<forall>c u. r = c # u \<longrightarrow> \<not> is_digit c \<and> c \<noteq> CHR ''.'' \<and> \<not> is_exp_char c)"

lemma loop_any1: "all_digits ds \<Longrightarrow>
    scan_number_loop N_any1 ty buf (ds @ r) = scan_number_loop N_any1 ty (buf @ ds) r"
  by (induction ds arbitrary: buf) simp_all

lemma loop_decimal2: "all_digits ds \<Longrightarrow>
    scan_number_loop N_decimal2 ty buf (ds @ r) = scan_number_loop N_decimal2 ty (buf @ ds) r"
  by (induction ds arbitrary: buf) simp_all

lemma loop_any2: "all_digits ds \<Longrightarrow>
    scan_number_loop N_any2 ty buf (ds @ r) = scan_number_loop N_any2 ty (buf @ ds) r"
  by (induction ds arbitrary: buf) simp_all

lemma loop_end: "stops r \<Longrightarrow> st = N_any1 \<or> st = N_decimal2 \<or> st = N_any2 \<Longrightarrow>
    scan_number_loop st ty buf r = Some (ty, buf, r)"
  by (cases r) (auto simp: stops_def num_final_def)

lemma loop_exponent:
  assumes "st = N_zero \<or> st = N_any1 \<or> st = N_decimal2" and "\<bar>e\<bar> < 1000" and "stops r"
  shows "scan_number_loop st ty buf (exp_part (Some e) @ r) = Some (N_float, buf @ exp_part (Some e), r)"
proof -
  obtain c ds where c: "append_exponent e = c # ds" "c = (if e < 0 then CHR ''-'' else CHR ''+'')"
    "all_digits ds" "ds \<noteq> []" using append_exponent_text [OF assms(2)] by metis
  obtain d ds' where d: "ds = d # ds'" "is_digit d" "all_digits ds'" using c(3,4) by (cases ds) auto
  have "is_exp_char (CHR ''e'')" "\<not> is_digit (CHR ''e'')" by (simp_all add: is_exp_char_def is_digit_def)
  then show ?thesis
    using assms(1) loop_any2 [OF d(3), of N_float _ r] loop_end [OF assms(3)] c(2)
    by (auto simp: exp_part_def c(1) d(1,2))
qed

lemma loop_fraction:
  assumes "st = N_zero \<or> st = N_any1" and "fp \<noteq> []" and "all_digits fp"
  shows "scan_number_loop st ty buf (frac_part fp @ r) = scan_number_loop N_decimal2 N_float (buf @ frac_part fp) r"
proof -
  obtain d ds where d: "fp = d # ds" "is_digit d" "all_digits ds" using assms(2,3) by (cases fp) auto
  have "\<not> is_digit (CHR ''.'')" by (simp add: is_digit_def)
  then show ?thesis using assms(1) loop_decimal2 [OF d(3), of N_float _ r]
    by (auto simp: frac_part_def d(1,2))
qed

lemma loop_tail:
  assumes "st = N_zero \<or> st = N_any1" and "float_text ip fp x" and "stops r"
  shows "scan_number_loop st ty buf (frac_part fp @ exp_part x @ r) =
    Some (N_float, buf @ frac_part fp @ exp_part x, r)"
proof (cases "fp = []")
  case True
  then obtain e where "x = Some e" "\<bar>e\<bar> < 1000"
    using assms(2) by (auto simp: float_text_def exp_val_def)
  then show ?thesis using loop_exponent [of st e r ty buf] assms(1,3) True by (auto simp: frac_part_def)
next
  case False
  then have *: "scan_number_loop st ty buf (frac_part fp @ exp_part x @ r) =
      scan_number_loop N_decimal2 N_float (buf @ frac_part fp) (exp_part x @ r)"
    using assms(1,2) by (intro loop_fraction) (auto simp: float_text_def)
  show ?thesis
  proof (cases x)
    case None
    then show ?thesis using * loop_end [OF assms(3)] by (simp add: exp_part_def)
  next
    case (Some e)
    then have "\<bar>e\<bar> < 1000" using assms(2) by (simp add: float_text_def exp_val_def)
    then show ?thesis using * loop_exponent [of N_decimal2 e r] assms(3) Some by simp
  qed
qed

lemma scan_number_float:
  assumes "float_text ip fp x" and "stops r" and "s = ip @ frac_part fp @ exp_part x"
  shows "scan_number (hd s) (tl s @ r) = (T_float (strtod s), r)"
    and "scan_number (CHR ''-'') (s @ r) = (T_float (strtod (CHR ''-'' # s)), r)"
proof -
  obtain c cs where ip: "ip = c # cs" "is_digit c" "all_digits cs"
    using assms(1) by (cases ip) (auto simp: float_text_def)
  have z: "is_digit (CHR ''0'')" "\<not> is_digit (CHR ''-'')" by (simp_all add: is_digit_def)
  have c0: "c = CHR ''0'' \<longleftrightarrow> ip = ''0''" using assms(1) ip by (auto simp: float_text_def)
  have loop: "scan_number_loop (if c = CHR ''0'' then N_zero else N_any1) ty buf (cs @ frac_part fp @ exp_part x @ r) =
      Some (N_float, buf @ cs @ frac_part fp @ exp_part x, r)" for ty buf
  proof (cases "c = CHR ''0''")
    case True
    then have "cs = []" using ip(1) iffD1 [OF c0] by simp
    have "scan_number_loop N_zero ty buf (frac_part fp @ exp_part x @ r) =
        Some (N_float, buf @ frac_part fp @ exp_part x, r)" by (rule loop_tail [OF _ assms(1,2)]) simp
    then show ?thesis by (simp only: \<open>cs = []\<close> True append_Nil refl if_True)
  next
    case False
    have "scan_number_loop N_any1 ty (buf @ cs) (frac_part fp @ exp_part x @ r) =
        Some (N_float, (buf @ cs) @ frac_part fp @ exp_part x, r)" by (rule loop_tail [OF _ assms(1,2)]) simp
    then show ?thesis by (simp only: False if_False loop_any1 [OF ip(3)] append_assoc)
  qed
  have "c \<noteq> CHR ''-''" using ip(2) z by auto
  then show "scan_number (hd s) (tl s @ r) = (T_float (strtod s), r)"
    using loop [of N_unsigned "[c]"] by (simp add: scan_number_def assms(3) ip(1) number_token_def)
  show "scan_number (CHR ''-'') (s @ r) = (T_float (strtod (CHR ''-'' # s)), r)"
    using loop [of N_integer "''-'' @ [c]"] ip(2)
    by (cases "c = CHR ''0''") (simp_all add: scan_number_def assms(3) ip(1) number_token_def)
qed

section \<open>The value of the text\<close>

lemma takeWhile_digits: "all_digits ds \<Longrightarrow> r = [] \<or> \<not> is_digit (hd r) \<Longrightarrow>
    takeWhile is_digit (ds @ r) = ds \<and> dropWhile is_digit (ds @ r) = r"
  by (induction ds) (simp_all, cases r, simp_all)

lemma strtod_float:
  assumes "float_text ip fp x" and "s = ip @ frac_part fp @ exp_part x"
    and "v = of_nat (digits_val (ip @ fp)) * 10 powi (exp_val x - int (length fp))"
    and "fl v < pow2 1024"
  shows "strtod s = Some (fl v)" and "strtod (CHR ''-'' # s) = Some (- fl v)"
proof -
  obtain c cs where ip: "ip = c # cs" "is_digit c"
    using assms(1) by (cases ip) (auto simp: float_text_def)
  have dig: "all_digits ip" "all_digits fp" "\<bar>exp_val x\<bar> < 1000" using assms(1) by (simp_all add: float_text_def)
  have nd: "\<not> is_digit (CHR ''.'')" "\<not> is_digit (CHR ''e'')" "\<not> is_digit (CHR ''-'')" "\<not> is_digit (CHR ''+'')"
    by (simp_all add: is_digit_def)
  have sign: "split_sign s = (False, s)" "split_sign (CHR ''-'' # s) = (True, s)"
    using nd ip by (auto simp: split_sign_def assms(2))
  have ex: "exponent_of (exp_part x) = exp_val x"
  proof (cases x)
    case (Some e)
    then have "\<bar>e\<bar> < 1000" using dig(3) by (simp add: exp_val_def)
    then obtain c ds where c: "append_exponent e = c # ds" "c = (if e < 0 then CHR ''-'' else CHR ''+'')"
      "digits_val ds = nat \<bar>e\<bar>"
      by (rule append_exponent_text)
    then show ?thesis using Some by (simp add: exponent_of_def exp_part_def exp_val_def split_sign_def)
  qed (simp add: exponent_of_def exp_part_def exp_val_def)
  have x: "exp_part x = [] \<or> hd (exp_part x) = CHR ''e''"
    by (simp add: exp_part_def split: option.split)
  have s1: "takeWhile is_digit s = ip" "dropWhile is_digit s = frac_part fp @ exp_part x"
    using takeWhile_digits [OF dig(1), of "frac_part fp @ exp_part x"] x nd
    by (auto simp: assms(2) frac_part_def split: if_splits)
  have s2: "takeWhile is_digit (fp @ exp_part x) = fp" "dropWhile is_digit (fp @ exp_part x) = exp_part x"
    using takeWhile_digits [OF dig(2), of "exp_part x"] x nd by auto
  have split: "strtod t = (if pow2 1024 \<le> fl v then None else Some (if neg then - fl v else fl v))"
    if "split_sign t = (neg, s)" for t neg
    unfolding strtod_def that Let_def prod.case s1 using x s2
    by (cases "fp = []") (auto simp: frac_part_def ex assms(3))
  show "strtod s = Some (fl v)" "strtod (CHR ''-'' # s) = Some (- fl v)"
    using split [OF sign(1)] split [OF sign(2)] assms(4) by simp_all
qed


section \<open>The layouts\<close>

lemma format_buffer_text:
  assumes ds: "ds \<noteq> []" "\<forall>d \<in> set ds. d < 10" "hd ds \<noteq> 0" and n: "\<bar>int (length ds) + k - 1\<bar> < 1000"
  obtains ip fp x where "format_buffer (map digit_char ds) k (- 4) 15 = ip @ frac_part fp @ exp_part x"
    and "float_text ip fp x"
    and "of_nat (digits_val (ip @ fp)) * 10 powi (exp_val x - int (length fp)) =
      (of_nat (digits_nat ds) * 10 powi k :: rat)"
proof -
  define buf m where "buf = map digit_char ds" and "m = int (length ds) + k"
  obtain c cs where buf: "buf = c # cs" "c \<noteq> CHR ''0''"
    using ds by (cases ds) (auto simp: buf_def digit_char_zero)
  have len: "length buf = length ds" and dig: "all_digits buf" and val: "digits_val buf = digits_nat ds"
    using ds(2) digits_val_digits by (simp_all add: buf_def)
  have z: "is_digit (CHR ''0'')" "digit_val (CHR ''0'') = 0" by (simp_all add: is_digit_def digit_val_def)
  have dz: "digits_val ''0'' = 0" by (simp add: digits_val_def z)
  have hd_take: "hd (take i buf) \<noteq> CHR ''0''" "take i buf \<noteq> []" if "0 < i" for i
    using that buf by (cases i; simp)+
  have f: "format_buffer (map digit_char ds) k (- 4) 15 =
     (if int (length ds) \<le> m \<and> m \<le> 15 then buf @ replicate (nat (m - int (length ds))) (CHR ''0'') @ ''.0''
      else if 0 < m \<and> m \<le> 15 then take (nat m) buf @ ''.'' @ drop (nat m) buf
      else if - 4 < m \<and> m \<le> 0 then ''0.'' @ replicate (nat (- m)) (CHR ''0'') @ buf
      else (if length ds = 1 then buf else take 1 buf @ ''.'' @ drop 1 buf) @ ''e'' @ append_exponent (m - 1))"
    by (simp add: format_buffer_def buf_def m_def Let_def)
  consider (integral) "int (length ds) \<le> m" "m \<le> 15"
    | (fraction) "0 < m" "m < int (length ds)" "m \<le> 15"
    | (small) "- 4 < m" "m \<le> 0"
    | (exponent) "\<not> (int (length ds) \<le> m \<and> m \<le> 15)" "\<not> (0 < m \<and> m \<le> 15)" "\<not> (- 4 < m \<and> m \<le> 0)"
    by linarith
  then show thesis
  proof cases
    case integral
    let ?z = "replicate (nat (m - int (length ds))) (CHR ''0'')"
    have k: "nat (m - int (length ds)) = nat k" "0 \<le> k" using integral by (simp_all add: m_def)
    have v: "digits_val ((buf @ ?z) @ ''0'') = digits_nat ds * 10 ^ nat k * 10"
      by (simp add: digits_val_append val k(1) dz)
    show thesis
    proof (rule that [of "buf @ ?z" "''0''" None])
      show "format_buffer (map digit_char ds) k (- 4) 15 = (buf @ ?z) @ frac_part ''0'' @ exp_part None"
        using integral by (simp add: f frac_part_def exp_part_def)
      show "float_text (buf @ ?z) ''0'' None" using dig buf z by (simp add: float_text_def exp_val_def)
      show "of_nat (digits_val ((buf @ ?z) @ ''0'')) * 10 powi (exp_val None - int (length ''0'')) =
          (of_nat (digits_nat ds) * 10 powi k :: rat)"
        unfolding v using k(2) by (simp add: exp_val_def power_int_minus power_int_def)
    qed
  next
    case fraction
    have e: "exp_val None - int (length (drop (nat m) buf)) = k"
      using fraction len by (simp add: exp_val_def m_def)
    show thesis
    proof (rule that [of "take (nat m) buf" "drop (nat m) buf" None])
      show "format_buffer (map digit_char ds) k (- 4) 15 =
          take (nat m) buf @ frac_part (drop (nat m) buf) @ exp_part None"
        using fraction len by (simp add: f frac_part_def exp_part_def)
      show "float_text (take (nat m) buf) (drop (nat m) buf) None"
        using fraction len dig hd_take [of "nat m"] by (simp add: float_text_def exp_val_def)
      show "of_nat (digits_val (take (nat m) buf @ drop (nat m) buf)) *
          10 powi (exp_val None - int (length (drop (nat m) buf))) = (of_nat (digits_nat ds) * 10 powi k :: rat)"
        by (simp only: e append_take_drop_id val)
    qed
  next
    case small
    let ?z = "replicate (nat (- m)) (CHR ''0'')"
    have nl: "\<not> int (length ds) \<le> m" using small ds(1) by (cases ds) auto
    have e: "exp_val None - int (length (?z @ buf)) = k"
      using small len by (simp add: exp_val_def m_def)
    have v: "digits_val (''0'' @ ?z @ buf) = digits_nat ds"
      by (simp only: digits_val_append digits_val_zeros dz val mult_0 add_0)
    show thesis
    proof (rule that [of "''0''" "?z @ buf" None])
      show "format_buffer (map digit_char ds) k (- 4) 15 = ''0'' @ frac_part (?z @ buf) @ exp_part None"
        using small nl buf(1) by (simp add: f frac_part_def exp_part_def)
      show "float_text ''0'' (?z @ buf) None" using dig buf z by (simp add: float_text_def exp_val_def)
      show "of_nat (digits_val (''0'' @ ?z @ buf)) * 10 powi (exp_val None - int (length (?z @ buf))) =
          (of_nat (digits_nat ds) * 10 powi k :: rat)"
        by (simp only: e v)
    qed
  next
    case exponent
    have t: "take 1 buf = [c]" "drop 1 buf = cs" using buf(1) by simp_all
    have e: "exp_val (Some (m - 1)) - int (length cs) = k"
      using len buf(1) by (simp add: exp_val_def m_def)
    show thesis
    proof (rule that [of "[c]" cs "Some (m - 1)"])
      have "length ds = 1 \<longleftrightarrow> cs = []" using len buf(1) by auto
      then show "format_buffer (map digit_char ds) k (- 4) 15 = [c] @ frac_part cs @ exp_part (Some (m - 1))"
        unfolding f if_not_P [OF exponent(1)] if_not_P [OF exponent(2)] if_not_P [OF exponent(3)] t
        by (simp add: frac_part_def exp_part_def buf(1))
      show "float_text [c] cs (Some (m - 1))" using dig buf n by (simp add: float_text_def exp_val_def m_def)
      show "of_nat (digits_val ([c] @ cs)) * 10 powi (exp_val (Some (m - 1)) - int (length cs)) =
          (of_nat (digits_nat ds) * 10 powi k :: rat)"
        using val buf(1) by (simp only: e append_Cons append_Nil)
    qed
  qed
qed


section \<open>Doubles\<close>

lemma digits_nat_bounds:
  assumes "ds \<noteq> []" and "\<forall>d \<in> set ds. d < 10" and "hd ds \<noteq> 0"
  shows "10 ^ (length ds - 1) \<le> digits_nat ds" and "digits_nat ds < 10 ^ length ds"
proof -
  have upper: "\<forall>d \<in> set xs. d < 10 \<Longrightarrow> digits_nat xs < 10 ^ length xs" for xs
    by (induction xs rule: rev_induct) auto
  then show "digits_nat ds < 10 ^ length ds" using assms(2) .
  obtain d es where d: "ds = d # es" "0 < d" using assms(1,3) by (cases ds) auto
  then have "1 * 10 ^ length es \<le> d * 10 ^ length es" by (intro mult_le_mono1) simp
  then have "10 ^ length es \<le> d * 10 ^ length es + digits_nat es" by linarith
  then show "10 ^ (length ds - 1) \<le> digits_nat ds" by (simp add: d(1) digits_nat_Cons)
qed

lemma powi_10_less: "(10 :: rat) powi a < 10 powi b \<Longrightarrow> a < b"
  using power_int_increasing [of b a "10 :: rat"] by (meson leD leI one_le_numeral)

text \<open>The decimal exponent of a double has at most three digits.\<close>

lemma decimal_exponent_bounds:
  assumes ds: "ds \<noteq> []" "\<forall>d \<in> set ds. d < 10" "hd ds \<noteq> 0" and parts: "double_parts x f e"
    and v: "lower_boundary f e < of_nat (digits_nat ds) * 10 powi k"
      "of_nat (digits_nat ds) * 10 powi k < upper_boundary f e"
  shows "\<bar>int (length ds) + k - 1\<bar> < 1000"
proof -
  let ?v = "of_nat (digits_nat ds) * 10 powi k :: rat" and ?l = "length ds"
  have f: "0 < f" "f \<le> 2 ^ 53" "- 1074 \<le> e" "e \<le> 971" using parts by (simp_all add: double_parts_def)
  note d = digits_nat_bounds [OF ds]
  have l: "0 < ?l" using ds(1) by simp
  have "of_nat (10 ^ (?l - 1)) \<le> (of_nat (digits_nat ds) :: rat)" using d(1) by (simp only: of_nat_le_iff)
  then have "10 ^ (?l - 1) * 10 powi k \<le> ?v" by (intro mult_right_mono) simp_all
  moreover have "10 powi (int ?l + k - 1) = 10 ^ (?l - 1) * (10 powi k :: rat)"
  proof -
    have eq: "int ?l + k - 1 = int (?l - 1) + k" using l by linarith
    show ?thesis unfolding eq by (subst power_int_add) (rule disjI1, simp, simp only: power_int_of_nat)
  qed
  ultimately have lo: "10 powi (int ?l + k - 1) \<le> ?v" by simp
  have "of_nat (digits_nat ds) < (of_nat (10 ^ ?l) :: rat)" using d(2) by (simp only: of_nat_less_iff)
  then have "?v < 10 ^ ?l * 10 powi k" by (intro mult_strict_right_mono) simp_all
  then have hi: "?v < 10 powi (int ?l + k)" by (simp add: power_int_add)
  have "upper_boundary f e \<le> 10 powi 400"
  proof -
    have "of_nat (2 * f + 1) \<le> (of_nat (2 ^ 54 + 1) :: rat)" using f(2) by (intro of_nat_mono) simp
    moreover have "pow2 (e - 1) \<le> pow2 970" using f(4) by simp
    ultimately have "upper_boundary f e \<le> of_nat (2 ^ 54 + 1) * pow2 970"
      unfolding upper_boundary_def by (intro mult_mono) simp_all
    also have "\<dots> \<le> 10 powi 400" by (simp add: pow2_def)
    finally show ?thesis .
  qed
  then have "10 powi (int ?l + k - 1) < (10 powi 400 :: rat)" using lo v(2) by linarith
  then have u: "int ?l + k - 1 < 400" by (rule powi_10_less)
  have "10 powi (- 400) \<le> lower_boundary f e"
  proof -
    have "pow2 (- 1076) \<le> pow2 (e - 2)" "pow2 (- 1076) \<le> pow2 (e - 1)" using f(3) by simp_all
    moreover have "(1 :: rat) * pow2 (e - 2) \<le> of_nat (4 * f - 1) * pow2 (e - 2)"
      "(1 :: rat) * pow2 (e - 1) \<le> of_nat (2 * f - 1) * pow2 (e - 1)"
      using f(1) by (intro mult_right_mono; simp)+
    ultimately have "pow2 (- 1076) \<le> of_nat (4 * f - 1) * pow2 (e - 2)"
      "pow2 (- 1076) \<le> of_nat (2 * f - 1) * pow2 (e - 1)" by linarith+
    then have "pow2 (- 1076) \<le> lower_boundary f e" unfolding lower_boundary_def by (simp only: if_split simp_thms)
    moreover have "10 powi (- 400) \<le> pow2 (- 1076)" by (simp add: pow2_def power_int_minus)
    ultimately show ?thesis by linarith
  qed
  then have "10 powi (- 400) < (10 powi (int ?l + k) :: rat)" using hi v(1) by linarith
  then have "- 400 < int ?l + k" by (rule powi_10_less)
  with u show ?thesis by linarith
qed

lemma to_chars_text:
  assumes "fl x = x" and "0 < x" and "x < pow2 1024" and "grisu2 x = Some (ds, k)"
  obtains ip fp ex where "format_buffer (map digit_char ds) k (- 4) 15 = ip @ frac_part fp @ exp_part ex"
    and "float_text ip fp ex"
    and "fl (of_nat (digits_val (ip @ fp)) * 10 powi (exp_val ex - int (length fp))) = x"
proof -
  obtain f e where parts: "double_parts x f e" using double_parts_ex assms(1-3) by blast
  have "x = of_nat f * pow2 e"
    using assms(1,2) parts by (simp add: fl_def fl_pos_def double_parts_def)
  note exact = grisu2_exact [OF parts assms(4)]
  note fl = fl_between [OF parts \<open>x = _\<close> exact(4,5)]
  obtain ip fp ex where "format_buffer (map digit_char ds) k (- 4) 15 = ip @ frac_part fp @ exp_part ex"
    "float_text ip fp ex" "of_nat (digits_val (ip @ fp)) * 10 powi (exp_val ex - int (length fp)) =
      (of_nat (digits_nat ds) * 10 powi k :: rat)"
    by (rule format_buffer_text [OF exact(1-3) decimal_exponent_bounds [OF exact(1-3) parts exact(4,5)]])
  then show thesis using that fl by simp
qed

lemma zero_text: "float_text ''0'' ''0'' None" "''0'' @ frac_part ''0'' @ exp_part None = ''0.0''"
    "0 = of_nat (digits_val (''0'' @ ''0'')) * (10 :: rat) powi (exp_val None - int (length ''0''))"
  by (simp_all add: float_text_def exp_val_def is_digit_def frac_part_def exp_part_def digits_val_def digit_val_def)

lemma zero_read: "strtod ''0.0'' = Some 0" "strtod ''-0.0'' = Some 0"
    "stops r \<Longrightarrow> scan_number (hd ''0.0'') (tl ''0.0'' @ r) = (T_float (Some 0), r)"
    "stops r \<Longrightarrow> scan_number (CHR ''-'') (''0.0'' @ r) = (T_float (Some 0), r)"
  using scan_number_float [OF zero_text(1) _ zero_text(2) [symmetric], of r]
    strtod_float [OF zero_text(1) zero_text(2) [symmetric] zero_text(3)] by simp_all

text \<open>The text of a finite double is a number token that \<open>strtod\<close> reads as that double.\<close>

lemma to_chars_read:
  assumes "fl x = x" and "\<bar>x\<bar> < pow2 1024" and "to_chars x = Some s"
  shows "strtod s = Some x" and "s \<noteq> []" and "is_digit (hd s) \<or> hd s = CHR ''-''"
    and "stops r \<Longrightarrow> scan_number (hd s) (tl s @ r) = (T_float (Some x), r)"
proof -
  have main: "strtod s = Some x \<and> s \<noteq> [] \<and> (is_digit (hd s) \<or> hd s = CHR ''-'') \<and>
    (stops r \<longrightarrow> scan_number (hd s) (tl s @ r) = (T_float (Some x), r))"
  proof (cases "x = 0")
    case True
    then show ?thesis using zero_read assms(3) by (auto simp: to_chars_def to_chars_signed_def Let_def is_digit_def)
  next
    case False
    then obtain ds k where g: "grisu2 \<bar>x\<bar> = Some (ds, k)"
      and s: "s = (if x < 0 then ''-'' else []) @ format_buffer (map digit_char ds) k (- 4) 15"
      using assms(3) by (auto simp: to_chars_def to_chars_signed_def Let_def split: option.splits prod.splits)
    obtain ip fp ex where t: "format_buffer (map digit_char ds) k (- 4) 15 = ip @ frac_part fp @ exp_part ex"
      "float_text ip fp ex" "fl (of_nat (digits_val (ip @ fp)) * 10 powi (exp_val ex - int (length fp))) = \<bar>x\<bar>"
      by (rule to_chars_text [OF fl_abs [OF assms(1)] _ assms(2) g]) (use False in simp)
    obtain c cs where c: "ip = c # cs" "is_digit c" using t(2) by (cases ip) (auto simp: float_text_def)
    show ?thesis
      using scan_number_float [OF t(2) _ refl, of r] strtod_float [OF t(2) refl refl] t(3) assms(2) c
      unfolding s t(1) by (cases "x < 0") auto
  qed
  then show "strtod s = Some x" "s \<noteq> []" "is_digit (hd s) \<or> hd s = CHR ''-''"
    "stops r \<Longrightarrow> scan_number (hd s) (tl s @ r) = (T_float (Some x), r)" by blast+
qed

text \<open>The digits of the text lie between the boundaries of the double.\<close>

lemma to_chars_digits:
  assumes "fl x = x" and "\<bar>x\<bar> < pow2 1024" and "x \<noteq> 0" and "to_chars x = Some s"
  obtains f e ds k where "double_parts \<bar>x\<bar> f e" and "\<bar>x\<bar> = of_nat f * pow2 e"
    and "grisu2 \<bar>x\<bar> = Some (ds, k)"
    and "s = (if x < 0 then ''-'' else []) @ format_buffer (map digit_char ds) k (- 4) 15"
    and "lower_boundary f e < of_nat (digits_nat ds) * 10 powi k"
    and "of_nat (digits_nat ds) * 10 powi k < upper_boundary f e"
proof -
  obtain f e where parts: "double_parts \<bar>x\<bar> f e"
    using double_parts_ex [of "\<bar>x\<bar>"] fl_abs [OF assms(1)] assms(2,3) by auto
  have "\<bar>x\<bar> = of_nat f * pow2 e"
    using fl_abs [OF assms(1)] assms(3) parts by (simp add: fl_def fl_pos_def double_parts_def)
  moreover obtain ds k where "grisu2 \<bar>x\<bar> = Some (ds, k)"
    "s = (if x < 0 then ''-'' else []) @ format_buffer (map digit_char ds) k (- 4) 15"
    using assms(3,4) by (auto simp: to_chars_def to_chars_signed_def Let_def split: option.splits prod.splits)
  ultimately show thesis using that parts grisu2_exact(4,5) [OF parts] by blast
qed

end
