(* ===== verification/JsonRoundtrip.thy ===== *)
theory JsonRoundtrip
  imports JsonUtf8 JsonParse FloatText
begin

text \<open>
  What the serializer writes, the parser reads back: strings, integers, arrays and objects.
  A non-negative integer comes back as an unsigned one, which \<open>get<int>\<close> does not
  distinguish.
\<close>

section \<open>Digits\<close>

lemma nat_str_two: "10 \<le> n \<Longrightarrow> nat_str n = nat_str (n div 10) @ [digit_char (n mod 10)]"
  by (subst nat_str.simps) simp

lemma nat_str_one: "n < 10 \<Longrightarrow> nat_str n = [digit_char n]"
  by (subst nat_str.simps) simp

text \<open>The two-digits-at-a-time loop writes the decimal representation.\<close>

lemma dump_digits_nat_str: "dump_digits n = nat_str n"
proof (induction n rule: dump_digits.induct)
  case (1 n)
  consider "100 \<le> n" | "10 \<le> n" "n < 100" | "n < 10" by linarith
  then show ?case
  proof cases
    case 1
    then have "nat_str n = nat_str (n div 10 div 10) @ [digit_char (n div 10 mod 10), digit_char (n mod 10)]"
      by (simp add: nat_str_two [of n] nat_str_two [of "n div 10"])
    moreover have "n div 10 div 10 = n div 100" "n div 10 mod 10 = n mod 100 div 10"
      "n mod 100 mod 10 = n mod 10"
      using mod_mult2_eq [of n 10 10] by (simp_all flip: div_mult2_eq)
    ultimately show ?thesis using 1 "1.IH" by (simp add: dump_digits.simps [of n])
  next
    case 2
    then show ?thesis by (simp add: dump_digits.simps [of n] nat_str_two nat_str_one)
  next
    case 3
    then show ?thesis by (simp add: dump_digits.simps [of n] nat_str_one)
  qed
qed

lemma dump_integer_int_str: "dump_integer i = int_str i"
  by (auto simp: dump_integer_def int_str_def dump_digits_nat_str nat_str_one digit_char_def
      char_of_def bit_0)

section \<open>Strings\<close>

lemma hex_val_char: "d < 16 \<Longrightarrow> hex_val (hex_char d) = Some d"
  by (auto simp: hex_val_def hex_char_def)

lemma get_codepoint_hex:
  assumes "cp < 65536"
  shows "get_codepoint (hex_char (cp div 4096) # hex_char (cp div 256 mod 16) #
     hex_char (cp div 16 mod 16) # hex_char (cp mod 16) # t) = Some (cp, t)"
proof -
  have "cp div 4096 < 16" using assms by (simp add: less_mult_imp_div_less)
  moreover have "cp = 16 * (cp div 16) + cp mod 16" "cp div 16 = 16 * (cp div 256) + cp div 16 mod 16"
    "cp div 256 = 16 * (cp div 4096) + cp div 256 mod 16"
    using mult_div_mod_eq [of 16 cp] mult_div_mod_eq [of 16 "cp div 16"]
      mult_div_mod_eq [of 16 "cp div 256"] by (simp_all flip: div_mult2_eq)
  then have "cp div 4096 * 4096 + cp div 256 mod 16 * 256 + cp div 16 mod 16 * 16 + cp mod 16 = cp"
    by linarith
  ultimately show ?thesis by (simp add: get_codepoint_def hex_val_char)
qed

lemma scan_string_quote: "scan_string (QUOTE # r) = Some ([], r)"
  by (subst scan_string.simps) (simp add: QUOTE_def)

lemma scan_string_escape:
  "scan_escape t = Some (bs, u) \<Longrightarrow> scan_string u = Some (cs, r) \<Longrightarrow>
     scan_string (BACKSLASH # t) = Some (bs @ cs, r)"
  by (subst scan_string.simps) (simp add: BACKSLASH_def)

lemma scan_string_plain:
  "cv c \<noteq> 0x22 \<Longrightarrow> cv c \<noteq> 0x5C \<Longrightarrow> scan_plain c t = Some (bs, u) \<Longrightarrow> scan_string u = Some (cs, r) \<Longrightarrow>
     scan_string (c # t) = Some (bs @ cs, r)"
  by (simp add: scan_string.simps [of "c # t"])

lemma char_cv: "cv c = n \<Longrightarrow> c = char_of n"
  by (metis char_of_char)

lemma scan_escape_short:
  "scan_escape (CHR ''b'' # t) = Some ([CHR 0x08], t)"
  "scan_escape (CHR ''f'' # t) = Some ([CHR 0x0C], t)"
  "scan_escape (CHR ''n'' # t) = Some ([CHR 0x0A], t)"
  "scan_escape (CHR ''r'' # t) = Some ([CHR 0x0D], t)"
  "scan_escape (CHR ''t'' # t) = Some ([CHR 0x09], t)"
  "scan_escape (QUOTE # t) = Some ([QUOTE], t)"
  "scan_escape (BACKSLASH # t) = Some ([BACKSLASH], t)"
  by (simp_all add: scan_escape_def QUOTE_def BACKSLASH_def)

lemma scan_escape_u: "cp < 0x80 \<Longrightarrow>
    scan_escape (CHR ''u'' # hex_char (cp div 4096) # hex_char (cp div 256 mod 16) #
      hex_char (cp div 16 mod 16) # hex_char (cp mod 16) # t) = Some ([char_of cp], t)"
  using get_codepoint_hex [of cp t] by (simp add: scan_escape_def scan_unicode_def add_codepoint_def)

text \<open>Reading what \<open>escape\<close> wrote for an ASCII character.\<close>

lemma scan_string_escaped:
  assumes "cv c < 0x80" and "scan_string u = Some (cs, r)"
  shows "scan_string (escape (cv c) c @ u) = Some (c # cs, r)"
proof -
  consider "cv c = 0x08" | "cv c = 0x09" | "cv c = 0x0A" | "cv c = 0x0C" | "cv c = 0x0D" | "cv c = 0x22"
    | "cv c = 0x5C" | "cv c \<le> 0x1F" "cv c \<notin> {0x08, 0x09, 0x0A, 0x0C, 0x0D, 0x22, 0x5C}"
    | "0x1F < cv c" "cv c \<noteq> 0x22" "cv c \<noteq> 0x5C" by fastforce
  then show ?thesis
  proof cases
    case 8
    then have "escape (cv c) c = BACKSLASH # CHR ''u'' # hex_char (cv c div 4096) #
        hex_char (cv c div 256 mod 16) # hex_char (cv c div 16 mod 16) # [hex_char (cv c mod 16)]"
      by (simp add: escape_def)
    then show ?thesis using scan_string_escape [OF scan_escape_u [OF assms(1), of u] assms(2)] by simp
  next
    case 9
    then have "escape (cv c) c = [c]" by (simp add: escape_def)
    moreover have "scan_plain c u = Some ([c], u)"
      using 9 assms(1) by (simp add: scan_plain_def is_control_def is_plain_ascii_def)
    ultimately show ?thesis using scan_string_plain [OF 9(2,3) _ assms(2)] by simp
  qed (use char_cv [of c] scan_string_escape [OF scan_escape_short(1) assms(2)]
      scan_string_escape [OF scan_escape_short(2) assms(2)]
      scan_string_escape [OF scan_escape_short(3) assms(2)]
      scan_string_escape [OF scan_escape_short(4) assms(2)]
      scan_string_escape [OF scan_escape_short(5) assms(2)]
      scan_string_escape [OF scan_escape_short(6) assms(2)]
      scan_string_escape [OF scan_escape_short(7) assms(2)] in
      \<open>simp_all add: escape_def QUOTE_def BACKSLASH_def char_of_def bit_0\<close>)
qed

lemma scan_string_multi:
  assumes "utf8_tail (cv c) = Some rs" and "in_ranges rs bs" and "scan_string u = Some (cs, r)"
  shows "scan_string (c # bs @ u) = Some (c # bs @ cs, r)"
proof -
  have big: "0x80 \<le> cv c" using assms(1) by (auto simp: utf8_tail_def split: if_splits)
  then have "scan_plain c (bs @ u) = Some (c # bs, u)"
    using assms(1,2) by (simp add: scan_plain_def is_control_def is_plain_ascii_def next_byte_in_rangeI)
  then show ?thesis using scan_string_plain [OF _ _ _ assms(3)] big by fastforce
qed

lemma scan_dumped_string:
  "utf8 s \<Longrightarrow> dump_escaped UTF8_ACCEPT cp s = Ret t \<Longrightarrow> scan_string (t @ QUOTE # r) = Some (s, r)"
proof (induction arbitrary: cp t rule: utf8.induct)
  case utf8_Nil
  then show ?case by (simp add: scan_string_quote)
next
  case (utf8_ascii c s)
  then obtain u where u: "dump_escaped UTF8_ACCEPT 0 s = Ret u" "t = escape (cv c) c @ u"
    by (auto simp: dump_escaped_ascii put_eq_Ret simp del: dump_escaped.simps)
  then show ?case using scan_string_escaped [OF utf8_ascii.hyps(1) utf8_ascii.IH [OF u(1)]] by simp
next
  case (utf8_multi c rs bs s)
  then obtain u where u: "dump_escaped UTF8_ACCEPT 0 s = Ret u" "t = c # bs @ u"
    by (auto simp: dump_escaped_multi put_eq_Ret simp del: dump_escaped.simps)
  then show ?case using scan_string_multi [OF utf8_multi.hyps(1,2) utf8_multi.IH [OF u(1)]] by simp
qed

lemma dump_string_scan:
  assumes "dump_string s = Ret t" obtains u where "t = QUOTE # u" and "scan_string (u @ r) = Some (s, r)"
proof -
  obtain u where u: "dump_escaped UTF8_ACCEPT 0 s = Ret u" "t = QUOTE # u @ [QUOTE]"
    using assms by (auto simp: dump_string_def put_eq_Ret split: exc.splits)
  then have "scan_string (u @ QUOTE # r) = Some (s, r)" using scan_dumped_string dump_utf8 by blast
  then show thesis using that [of "u @ [QUOTE]"] u(2) by simp
qed

section \<open>Numbers\<close>

definition delim :: "string \<Rightarrow> bool" where
  "delim r \<longleftrightarrow> (case r of [] \<Rightarrow> True | c # _ \<Rightarrow> c = CHR '','' \<or> c = CHR '']'' \<or> c = CHR ''}'')"

lemma delim_next: "delim (c # r) \<Longrightarrow> num_next N_any1 c = None \<and> num_next N_zero c = None"
  by (auto simp: delim_def is_digit_def is_exp_char_def)

lemma scan_number_loop_digits:
  "\<forall>c \<in> set ds. is_digit c \<Longrightarrow> delim r \<Longrightarrow>
     scan_number_loop N_any1 ty buf (ds @ r) = Some (ty, buf @ ds, r)"
proof (induction ds arbitrary: buf)
  case Nil
  then show ?case using delim_next by (cases r) (auto simp: num_final_def)
qed simp

lemma nat_str_first: "0 < n \<Longrightarrow> \<exists>d ds. nat_str n = d # ds \<and> d \<noteq> CHR ''0''"
proof (induction n rule: nat_str.induct)
  case (1 n)
  show ?case
  proof (cases "n < 10")
    case True
    then show ?thesis using 1(2) by (simp add: nat_str_one digit_char_zero)
  next
    case False
    then have "0 < n div 10" by (simp add: div_greater_zero_iff)
    then obtain d ds where "nat_str (n div 10) = d # ds" "d \<noteq> CHR ''0''"
      using "1.IH" False by blast
    then show ?thesis using False by (simp add: nat_str_two)
  qed
qed

lemma number_head:
  assumes "is_digit c \<or> c = CHR ''-''"
  shows "\<not> is_ws c \<and> structural c = None \<and> literal c = None \<and> cv c \<noteq> 0x22"
proof -
  have "cv c = 45 \<or> 48 \<le> cv c \<and> cv c \<le> 57" using assms by (auto simp: is_digit_def)
  then have ne: "c \<noteq> k" if "cv k < 45 \<or> 57 < cv k" for k
    using that by auto
  have "cv c \<noteq> 0x22" "c \<noteq> CHR '',''" using \<open>cv c = 45 \<or> 48 \<le> cv c \<and> cv c \<le> 57\<close> by auto
  moreover have "c \<noteq> CHR '':''" using \<open>cv c = 45 \<or> 48 \<le> cv c \<and> cv c \<le> 57\<close> by auto
  ultimately show ?thesis by (simp add: is_ws_def structural_def literal_def ne)
qed

lemma scan_head: "\<not> is_ws c \<Longrightarrow> scan (c # t) = scan_token c t"
  by (simp add: scan_def skip_whitespace_def)

lemma scan_number_token: "is_digit c \<or> c = CHR ''-'' \<Longrightarrow> scan (c # t) = scan_number c t"
  using number_head [of c] by (auto simp: scan_head scan_token_def)

lemma scan_nat:
  assumes "n < 2 ^ 64" and "delim r" shows "scan (nat_str n @ r) = (T_unsigned n, r)"
proof (cases "n = 0")
  case True
  have "scan_number_loop N_zero N_unsigned ''0'' r = Some (N_unsigned, ''0'', r)"
    using assms(2) delim_next by (cases r) (auto simp: num_final_def)
  moreover have "nat_str 0 = ''0''" by (simp add: nat_str_one digit_char_zero)
  moreover have "is_digit (CHR ''0'')" by (simp add: is_digit_def)
  moreover have "digits_val ''0'' = 0" by (simp add: digits_val_def digit_val_def)
  ultimately show ?thesis using True by (simp add: scan_number_token scan_number_def number_token_def)
next
  case False
  then obtain d ds where d: "nat_str n = d # ds" "d \<noteq> CHR ''0''" using nat_str_first by blast
  have dig: "is_digit d" "\<forall>c \<in> set ds. is_digit c" using nat_str_digits [of n] d by auto
  have "d \<noteq> CHR ''-''" using dig(1) by (auto simp: is_digit_def)
  then have "scan_number d (ds @ r) = (number_token N_unsigned (nat_str n), r)"
    using d scan_number_loop_digits [OF dig(2) assms(2)] by (simp add: scan_number_def)
  then show ?thesis using d(1) dig(1) assms(1)
    by (simp add: scan_number_token number_token_def) (metis d(1) digits_val_nat_str)
qed

lemma scan_negative:
  assumes "0 < n" and "n \<le> 2 ^ 63" and "delim r"
  shows "scan (CHR ''-'' # nat_str n @ r) = (T_integer (- int n), r)"
proof -
  obtain d ds where d: "nat_str n = d # ds" "d \<noteq> CHR ''0''" using nat_str_first assms(1) by blast
  have dig: "is_digit d" "\<forall>c \<in> set ds. is_digit c" using nat_str_digits [of n] d by auto
  have "scan_number_loop N_minus N_unsigned ''-'' (nat_str n @ r) =
      Some (N_integer, CHR ''-'' # nat_str n, r)"
    using d dig scan_number_loop_digits [OF dig(2) assms(3)] by simp
  then show ?thesis using assms(2) by (simp add: scan_number_token scan_number_def number_token_def)
qed

lemma scan_quote: "scan (QUOTE # u) =
    (case scan_string u of None \<Rightarrow> (T_parse_error, []) | Some (v, r) \<Rightarrow> (T_string v, r))"
  by (simp add: scan_head QUOTE_def is_ws_def scan_token_def structural_def literal_def)

lemma scan_structural: "structural c = Some t \<Longrightarrow> scan (c # r) = (t, r)"
proof -
  assume c: "structural c = Some t"
  then have "\<not> is_ws c" by (auto simp: structural_def is_ws_def split: if_splits)
  then show ?thesis using c by (simp add: scan_head scan_token_def)
qed

lemma scan_structure [simp]:
  "scan (CHR ''['' # r) = (T_begin_array, r)" "scan (CHR '']'' # r) = (T_end_array, r)"
  "scan (CHR ''{'' # r) = (T_begin_object, r)" "scan (CHR ''}'' # r) = (T_end_object, r)"
  "scan (CHR '':'' # r) = (T_name_separator, r)" "scan (CHR '','' # r) = (T_value_separator, r)"
  by (rule scan_structural; simp add: structural_def)+

lemma scan_literals:
  "scan (''true'' @ r) = (T_literal_true, r)" "scan (''false'' @ r) = (T_literal_false, r)"
  "scan (''null'' @ r) = (T_literal_null, r)"
  by (simp_all add: scan_head is_ws_def scan_token_def structural_def literal_def)

section \<open>Values\<close>

text \<open>
  What can be stored and read back: doubles, integers within 64 bits, and the entries of an
  object in ascending order of the keys, as a \<open>std::map\<close> has them. A number beyond the range of
  a double, an infinity, is written as \<open>null\<close>.
\<close>

fun storable :: "json \<Rightarrow> bool" where
  "storable (JFloat x) = (fl x = x)"
| "storable (JInt i) = (- (2 ^ 63) \<le> i \<and> i < 2 ^ 63)"
| "storable (JUInt n) = (n < 2 ^ 64)"
| "storable (JArray js) = list_all storable js"
| "storable (JObject m) = (obj_sorted m \<and> list_all (\<lambda>(k, v). storable v) m)"
| "storable _ = True"

fun reread :: "json \<Rightarrow> json" where
  "reread (JInt i) = (if 0 \<le> i then JUInt (nat i) else JInt i)"
| "reread (JFloat x) = (if \<bar>x\<bar> < pow2 1024 then JFloat x else JNull)"
| "reread (JArray js) = JArray (map reread js)"
| "reread (JObject m) = JObject (map (\<lambda>(k, v). (k, reread v)) m)"
| "reread j = j"

text \<open>Reading a value in front of a rest, whatever is on the stack.\<close>

definition reads :: "string \<Rightarrow> json \<Rightarrow> bool" where
  "reads s v \<longleftrightarrow> (\<forall>fs r. delim r \<longrightarrow>
     (case scan (s @ r) of (t, u) \<Rightarrow> t \<noteq> T_end_array \<and> parse_value fs t u = parse_after fs v r))"

lemma reads_scalar:
  assumes "\<And>r. delim r \<Longrightarrow> scan (s @ r) = (t, r)" and "scalar t = Some v"
  shows "reads s v"
  using assms by (cases t) (auto simp: reads_def parse_value.simps split: option.splits elim: scalar.elims)

lemma readsD: "reads s v \<Longrightarrow> delim r \<Longrightarrow> scan (s @ r) = (t, u) \<Longrightarrow>
    t \<noteq> T_end_array \<and> parse_value fs t u = parse_after fs v r"
  by (fastforce simp: reads_def)

lemma enclose_Ret: "enclose l r x = Ret s \<longleftrightarrow> (\<exists>t. x = Ret t \<and> s = l @ t @ r)"
  by (auto simp: enclose_def split: exc.splits)

lemma comma_separated_cons:
  "comma_separated (x # xs) = Ret s \<longleftrightarrow> (\<exists>a. x = Ret a \<and>
     (if xs = [] then s = a else \<exists>b. comma_separated xs = Ret b \<and> s = a @ '','' @ b))"
  by (cases xs) (auto simp: put_eq_Ret split: exc.splits)

lemma delim_simps [simp]: "delim []" "delim (CHR '','' # r)" "delim (CHR '']'' # r)" "delim (CHR ''}'' # r)"
  by (simp_all add: delim_def)

lemma delim_stops: "delim r \<Longrightarrow> stops r"
  by (auto simp: delim_def stops_def is_digit_def is_exp_char_def split: list.splits)

lemma reads_float:
  assumes "fl x = x" and "dump_float x = Ret s" shows "reads s (reread (JFloat x))"
proof (cases "\<bar>x\<bar> < pow2 1024")
  case False
  then have "s = ''null''" using assms(2) by (simp add: dump_float_def)
  then show ?thesis using False scan_literals(3) by (intro reads_scalar [of s T_literal_null]) auto
next
  case True
  have "reads s (JFloat x)"
  proof (rule reads_scalar)
  have "to_chars x = Some s" using True assms(2) by (auto simp: dump_float_def split: option.splits)
  note read = to_chars_read [OF assms(1) True this]
  show "scan (s @ r) = (T_float (Some x), r)" if "delim r" for r
    using scan_number_token [OF read(3), of "tl s @ r"] read(2) read(4) [OF delim_stops [OF that]]
    by (cases s) simp_all
  qed simp
  then show ?thesis using True by simp
qed

text \<open>The elements of an array, each followed by a comma or the closing bracket.\<close>

lemma reads_elements:
  assumes "comma_separated (map dump (j # js)) = Ret s"
    and "\<And>k t. k \<in> set (j # js) \<Longrightarrow> dump k = Ret t \<Longrightarrow> reads t (reread k)"
  shows "case scan (s @ CHR '']'' # r) of (t, u) \<Rightarrow> t \<noteq> T_end_array \<and>
    parse_value (Open_array xs # fs) t u = parse_after fs (JArray (xs @ map reread (j # js))) r"
  using assms
proof (induction js arbitrary: j s xs)
  case Nil
  then have "reads s (reread j)" by simp
  then obtain t u where t: "scan (s @ CHR '']'' # r) = (t, u)" "t \<noteq> T_end_array"
    "parse_value (Open_array xs # fs) t u = parse_after (Open_array xs # fs) (reread j) (CHR '']'' # r)"
    using readsD [of s "reread j" "CHR '']'' # r"] by (metis delim_simps(3) surj_pair)
  then show ?case by (simp add: parse_after.simps)
next
  case (Cons k js)
  obtain a b where a: "dump j = Ret a" and b: "comma_separated (map dump (k # js)) = Ret b"
    and s: "s = a @ '','' @ b"
    using Cons.prems(1) unfolding list.map(2) [of dump j] comma_separated_cons by auto
  have "reads a (reread j)" using Cons.prems(2) a by simp
  then obtain t u where t: "scan (s @ CHR '']'' # r) = (t, u)" "t \<noteq> T_end_array"
    "parse_value (Open_array xs # fs) t u =
       parse_after (Open_array xs # fs) (reread j) (CHR '','' # b @ CHR '']'' # r)"
    using readsD [of a "reread j" "CHR '','' # b @ CHR '']'' # r"] s
    by (metis append.assoc append_Cons append_Nil delim_simps(2) surj_pair)
  have "case scan (b @ CHR '']'' # r) of (t, u) \<Rightarrow> t \<noteq> T_end_array \<and>
      parse_value (Open_array (xs @ [reread j]) # fs) t u =
      parse_after fs (JArray ((xs @ [reread j]) @ map reread (k # js))) r"
    by (rule Cons.IH [OF b]) (rule Cons.prems(2), auto)
  then show ?case using t by (auto simp: parse_after.simps split: prod.splits)
qed

text \<open>The members of an object: the keys ascend, so each new entry goes to the end.\<close>

lemma obj_assign_last: "sorted_wrt (<) (map fst m @ [k]) \<Longrightarrow> obj_assign k v m = m @ [(k, v)]"
  by (induction k v m rule: obj_assign.induct) (auto simp: sorted_wrt_append)

lemma dump_member_Ret:
  assumes "dump_member k v = Ret s"
  obtains u t where "s = QUOTE # u @ '':'' @ t" and "v = Ret t"
    and "\<And>r. scan_string (u @ r) = Some (k, r)"
proof -
  obtain a t where a: "dump_string k = Ret a" "v = Ret t" "s = (a @ '':'') @ t"
    using assms by (auto simp: dump_member_def put_eq_Ret split: exc.splits)
  obtain u0 where u0: "dump_escaped UTF8_ACCEPT 0 k = Ret u0" "a = QUOTE # u0 @ [QUOTE]"
    using a(1) by (auto simp: dump_string_def put_eq_Ret split: exc.splits)
  have "scan_string ((u0 @ [QUOTE]) @ r) = Some (k, r)" for r
    using scan_dumped_string [OF dump_utf8 [OF u0(1)] u0(1)] by simp
  then show thesis using that [of "u0 @ [QUOTE]" t] a u0(2) by simp
qed

lemma parse_key_member:
  assumes "\<And>r. scan_string (u @ r) = Some (k, r)"
  shows "parse_key (QUOTE # u @ '':'' @ t) = Some (k, scan t)"
  by (simp add: parse_key_def scan_quote assms)

definition member_dump :: "string \<times> json \<Rightarrow> string exc" where
  "member_dump p = (case p of (k, v) \<Rightarrow> dump_member k (dump v))"

definition reread_member :: "string \<times> json \<Rightarrow> string \<times> json" where
  "reread_member p = (case p of (k, v) \<Rightarrow> (k, reread v))"

lemma reads_members:
  assumes "comma_separated (map member_dump ((k, v) # m)) = Ret s"
    and "\<And>k' v' t. (k', v') \<in> set ((k, v) # m) \<Longrightarrow> dump v' = Ret t \<Longrightarrow> reads t (reread v')"
    and "sorted_wrt (<) (map fst (acc @ (k, v) # m))"
  shows "case parse_key (s @ CHR ''}'' # r) of None \<Rightarrow> False | Some (k', t, u) \<Rightarrow>
    parse_value (Open_object acc k' # fs) t u =
      parse_after fs (JObject (acc @ map reread_member ((k, v) # m))) r"
  using assms
proof (induction m arbitrary: k v s acc)
  case Nil
  obtain u t where s: "s = QUOTE # u @ '':'' @ t" "dump v = Ret t" "\<And>r. scan_string (u @ r) = Some (k, r)"
    using Nil(1) by (auto simp: member_dump_def elim: dump_member_Ret)
  have key: "parse_key (s @ CHR ''}'' # r) = Some (k, scan (t @ CHR ''}'' # r))"
    using parse_key_member [OF s(3)] s(1) by simp
  have "reads t (reread v)" using Nil(2) s(2) by simp
  moreover obtain tk w where w: "scan (t @ CHR ''}'' # r) = (tk, w)" by fastforce
  ultimately have "parse_value (Open_object acc k # fs) tk w =
      parse_after (Open_object acc k # fs) (reread v) (CHR ''}'' # r)"
    using readsD by (metis delim_simps(4))
  then show ?case using key w Nil(3) by (simp add: parse_after.simps obj_assign_last reread_member_def)
next
  case (Cons p m)
  obtain k2 v2 where p: "p = (k2, v2)" by fastforce
  obtain a b where a: "member_dump (k, v) = Ret a" and b: "comma_separated (map member_dump ((k2, v2) # m)) = Ret b"
    and sab: "s = a @ '','' @ b"
    using Cons.prems(1) unfolding p list.map(2) [of member_dump "(k, v)"] comma_separated_cons by auto
  obtain u t where s: "a = QUOTE # u @ '':'' @ t" "dump v = Ret t" "\<And>r. scan_string (u @ r) = Some (k, r)"
    using a by (auto simp: member_dump_def elim: dump_member_Ret)
  let ?rest = "CHR '','' # b @ CHR ''}'' # r"
  have key: "parse_key (s @ CHR ''}'' # r) = Some (k, scan (t @ ?rest))"
    using parse_key_member [OF s(3), of "t @ ?rest"] s(1) sab by simp
  have "reads t (reread v)" using Cons.prems(2) [of k v t] s(2) by simp
  moreover obtain tk w where w: "scan (t @ ?rest) = (tk, w)" by fastforce
  ultimately have val: "parse_value (Open_object acc k # fs) tk w =
      parse_after (Open_object acc k # fs) (reread v) ?rest"
    using readsD by (metis delim_simps(2))
  have assign: "obj_assign k (reread v) acc = acc @ [(k, reread v)]"
    using Cons.prems(3) by (intro obj_assign_last) (simp add: sorted_wrt_append)
  have "case parse_key (b @ CHR ''}'' # r) of None \<Rightarrow> False | Some (k', t, u) \<Rightarrow>
      parse_value (Open_object (acc @ [(k, reread v)]) k' # fs) t u =
      parse_after fs (JObject ((acc @ [(k, reread v)]) @ map reread_member ((k2, v2) # m))) r"
    by (rule Cons.IH [OF b]) (use Cons.prems(2,3) p in \<open>auto simp: sorted_wrt_append\<close>)
  then show ?case using key w val assign p
    by (auto simp: parse_after.simps reread_member_def split: option.splits)
qed

section \<open>The round trip\<close>

lemma dump_reads: "dump j = Ret s \<Longrightarrow> storable j \<Longrightarrow> reads s (reread j)"
proof (induction j arbitrary: s)
  case JNull
  then show ?case using scan_literals(3) by (intro reads_scalar [of s T_literal_null]) auto
next
  case (JBool b)
  then show ?case using scan_literals(1,2)
    by (intro reads_scalar [of s "if b then T_literal_true else T_literal_false"]) auto
next
  case (JInt i)
  show ?case
  proof (cases "0 \<le> i")
    case True
    then have "s = nat_str (nat i)" "nat i < 2 ^ 64" using JInt
      by (auto simp: dump_integer_int_str int_str_def)
    then show ?thesis using True scan_nat by (intro reads_scalar [of s "T_unsigned (nat i)"]) auto
  next
    case False
    then have "s = CHR ''-'' # nat_str (nat (- i))" "nat (- i) \<le> 2 ^ 63" "0 < nat (- i)" using JInt
      by (auto simp: dump_integer_int_str int_str_def)
    then show ?thesis using False scan_negative [of "nat (- i)"]
      by (intro reads_scalar [of s "T_integer i"]) auto
  qed
next
  case (JUInt n)
  then show ?case using scan_nat
    by (intro reads_scalar [of s "T_unsigned n"]) (auto simp: dump_integer_int_str int_str_def)
next
  case (JString v)
  then obtain a where a: "dump_escaped UTF8_ACCEPT 0 v = Ret a" "s = QUOTE # a @ [QUOTE]"
    by (auto simp: dump_string_def put_eq_Ret split: exc.splits)
  have "scan (s @ r) = (T_string v, r)" for r
    using scan_dumped_string [OF dump_utf8 [OF a(1)] a(1), of r] a(2) by (simp add: scan_quote)
  then show ?case by (intro reads_scalar [of s "T_string v"]) auto
next
  case (JArray js)
  show ?case
  proof (cases js)
    case Nil
    then show ?thesis using JArray by (auto simp: reads_def enclose_Ret parse_value.simps)
  next
    case (Cons k ks)
    obtain t where t: "comma_separated (map dump (k # ks)) = Ret t" "s = ''['' @ t @ '']''"
      using JArray(2) Cons by (auto simp: enclose_Ret)
    have "case scan (t @ CHR '']'' # r) of (x, u) \<Rightarrow> x \<noteq> T_end_array \<and>
      parse_value (Open_array [] # fs) x u = parse_after fs (JArray ([] @ map reread (k # ks))) r" for fs r
      by (rule reads_elements [OF t(1)]) (use JArray(1,3) Cons in \<open>auto simp: list_all_iff\<close>)
    note elems = this
    show ?thesis unfolding reads_def
    proof (intro allI impI)
      fix fs r
      obtain x u where x: "scan (t @ CHR '']'' # r) = (x, u)" by fastforce
      then show "case scan (s @ r) of (t, u) \<Rightarrow> t \<noteq> T_end_array \<and>
          parse_value fs t u = parse_after fs (reread (JArray js)) r"
        using elems [of fs r] t(2) Cons by (simp add: parse_value.simps)
    qed
  qed
next
  case (JObject m)
  have dm: "(\<lambda>(k, v). dump_member k (dump v)) = member_dump"
    by (simp add: member_dump_def fun_eq_iff)
  have dumped: "enclose ''{'' ''}'' (comma_separated (map member_dump m)) = Ret s"
    using JObject(2) unfolding dump.simps dm .
  have rm: "(\<lambda>(k, v). (k, reread v)) = reread_member" by (simp add: reread_member_def fun_eq_iff)
  show ?case
  proof (cases m)
    case Nil
    then show ?thesis using JObject by (auto simp: reads_def enclose_Ret parse_value.simps)
  next
    case (Cons p ms)
    obtain k v where p: "p = (k, v)" by fastforce
    obtain t where t: "comma_separated (map member_dump ((k, v) # ms)) = Ret t" "s = ''{'' @ t @ ''}''"
      using dumped Cons p by (auto simp: enclose_Ret)
    have member: "case parse_key (t @ CHR ''}'' # r) of None \<Rightarrow> False | Some (k', x, u) \<Rightarrow>
        parse_value (Open_object [] k' # fs) x u =
          parse_after fs (JObject ([] @ map reread_member ((k, v) # ms))) r" for fs r
    proof (rule reads_members [OF t(1)])
      show "reads x (reread v')" if "(k', v') \<in> set ((k, v) # ms)" "dump v' = Ret x" for k' v' x
        using JObject(1) [of "(k', v')" v' x] JObject(3) that Cons p by (fastforce simp: list_all_iff)
      show "sorted_wrt (<) (map fst ([] @ (k, v) # ms))"
        using JObject(3) Cons p by (simp add: obj_sorted_def)
    qed
    have "fst (scan (t @ CHR ''}'' # r)) \<noteq> T_end_object" for r
      using member [of "[]" r] by (auto simp: parse_key_def split: prod.splits token.splits option.splits)
    note not_end = this
    show ?thesis unfolding reads_def
    proof (intro allI impI)
      fix fs r
      obtain x u where x: "scan (t @ CHR ''}'' # r) = (x, u)" by fastforce
      obtain k' y w where y: "parse_key (t @ CHR ''}'' # r) = Some (k', y, w)"
        using member [of fs r] by (auto split: option.splits)
      then show "case scan (s @ r) of (t, u) \<Rightarrow> t \<noteq> T_end_array \<and>
          parse_value fs t u = parse_after fs (reread (JObject m)) r"
        using member [of fs r] t(2) Cons p x not_end [of r] by (simp add: parse_value.simps rm)
    qed
  qed
next
  case (JFloat x)
  then show ?case using reads_float [of x s] by simp
qed

text \<open>The first character of a value is not that of a byte order mark.\<close>

lemma scan_first_reads:
  assumes "reads s v" and "s \<noteq> []" and "cv (hd s) \<noteq> 0xEF"
  shows "parse s = Ret v"
proof -
  obtain t u where t: "scan (s @ []) = (t, u)" by fastforce
  then have "parse_value [] t u = Ret (v, [])"
    using readsD [OF assms(1) _ t, of "[]"] by (simp add: parse_after.simps)
  moreover have "scan_first s = (t, u)" using assms(2,3) t
    by (cases s) (auto simp: scan_first_def skip_bom_def)
  ultimately show ?thesis by (simp add: parse_def scan_def skip_whitespace_def)
qed

lemma nat_str_head: "is_digit (hd (nat_str n))"
  using nat_str_digits [of n] nat_str_nonempty [of n] hd_in_set by blast

lemma dump_head:
  assumes "dump j = Ret s" and "storable j" shows "s \<noteq> [] \<and> cv (hd s) \<noteq> 0xEF"
proof (cases j)
  case (JInt i)
  then show ?thesis using assms nat_str_head [of "nat i"]
    by (cases "i < 0") (auto simp: dump_integer_int_str int_str_def is_digit_def)
next
  case (JUInt n)
  then show ?thesis using assms nat_str_head [of n]
    by (auto simp: dump_integer_int_str int_str_def is_digit_def)
next
  case (JString v)
  then show ?thesis using assms by (auto simp: dump_string_def put_eq_Ret QUOTE_def split: exc.splits)
next
  case (JFloat x)
  show ?thesis
  proof (cases "\<bar>x\<bar> < pow2 1024")
    case True
    then have "to_chars x = Some s" using assms JFloat by (auto simp: dump_float_def split: option.splits)
    then show ?thesis using to_chars_read(2,3) [of x s] assms(2) JFloat True by (auto simp: is_digit_def)
  next
    case False
    then show ?thesis using assms JFloat by (auto simp: dump_float_def)
  qed
qed (use assms in \<open>auto simp: enclose_Ret split: if_splits\<close>)

lemma parse_dump: "dump j = Ret s \<Longrightarrow> storable j \<Longrightarrow> parse s = Ret (reread j)"
  using scan_first_reads dump_reads dump_head by blast

text \<open>Negative zero, the one text of a finite double that \<open>dump\<close> of the model does not print.\<close>

lemma parse_negative_zero: "parse ''-0.0'' = Ret (JFloat 0)"
proof -
  have n: "scan_number (CHR ''-'') ''0.0'' = (T_float (Some 0), [])"
    using zero_read(4) [of "[]"] by (simp add: stops_def)
  have f: "scan_first ''-0.0'' = scan ''-0.0''" by (simp add: scan_first_def skip_bom_def)
  have w: "skip_whitespace ''-0.0'' = ''-0.0''" by (simp add: skip_whitespace_def is_ws_def)
  have st: "scan_token (CHR ''-'') ''0.0'' = scan_number (CHR ''-'') ''0.0''" by (simp add: scan_token_def structural_def literal_def)
  have e: "fst (scan []) = T_end_of_input" by (simp add: scan_def skip_whitespace_def)
  show ?thesis using e
    by (simp add: parse_def f scan_def w st n parse_value.simps parse_after.simps)
qed
end
