(* ===== verification/Storage.thy ===== *)
theory Storage
  imports Cache Database JsonRoundtrip
begin

text \<open>
  The properties of what the server stores: the rows of the database, the Redis protocol and
  its connections, and the sessions and positions in the cache.
\<close>

section \<open>Database\<close>

lemma foldl_max: "foldl max (x :: int) ys = Max (set (x # ys))"
proof (induction ys arbitrary: x)
  case (Cons y ys)
  then show ?case by (cases "ys = []") (simp_all add: max.assoc)
qed simp

text \<open>Saving the scores of one player one after the other.\<close>

fun save_scores ::
    "mysql_answers \<Rightarrow> int \<Rightarrow> string \<Rightarrow> int list \<Rightarrow> database \<times> metrics \<Rightarrow> database \<times> metrics" where
  "save_scores a pid user [] dm = dm"
| "save_scores a pid user (sc # scs) dm =
     (case upsertPlayer a pid user sc 0 (fst dm) (snd dm) of
        (_, d, m) \<Rightarrow> save_scores a pid user scs (d, m))"

definition answers_ok :: "mysql_answers \<Rightarrow> bool" where
  "answers_ok a \<longleftrightarrow> a_init a \<and> a_connect a \<and> a_stmt_init a \<and> a_prepare a \<and> a_bind a \<and> a_execute a"

lemma upsertPlayer_succeeds:
  assumes "answers_ok a"
  obtains d' m' where "upsertPlayer a pid user sc k d m = (True, d', m')"
    and "t_players d' = t_players (sql_upsert_player (a_now a) pid user sc k d)"
proof -
  obtain ok d' m' where u: "upsertPlayer a pid user sc k d m = (ok, d', m')" by (metis prod.collapse)
  moreover have "ok" using u assms
    by (auto simp: upsertPlayer_def answers_ok_def db_open_def Let_def split: if_splits)
  ultimately show thesis using that upsertPlayer_effect(1) by simp
qed

lemma save_scores_row:
  assumes "answers_ok a" and "map_of (t_players (fst dm)) pid = Some r"
  shows "\<exists>r'. map_of (t_players (fst (save_scores a pid user scs dm))) pid = Some r' \<and>
     pr_score r' = last (pr_score r # scs) \<and> pr_high_score r' = foldl max (pr_high_score r) scs \<and>
     pr_username r' = pr_username r \<and> pr_created_at r' = pr_created_at r \<and>
     (\<forall>q. q \<noteq> pid \<longrightarrow> map_of (t_players (fst (save_scores a pid user scs dm))) q = map_of (t_players (fst dm)) q)"
  using assms(2)
proof (induction scs arbitrary: dm r)
  case (Cons sc scs)
  obtain d' m' where u: "upsertPlayer a pid user sc 0 (fst dm) (snd dm) = (True, d', m')"
      "t_players d' = t_players (sql_upsert_player (a_now a) pid user sc 0 (fst dm))"
    using upsertPlayer_succeeds [OF assms(1)] by blast
  let ?r = "r\<lparr>pr_score := sc, pr_high_score := max (pr_high_score r) sc,
             pr_kills := max (pr_kills r) 0, pr_updated_at := a_now a\<rparr>"
  have "map_of (t_players d') = (map_of (t_players (fst dm)))(pid \<mapsto> ?r)"
    using u(2) Cons.prems by (simp add: sql_upsert_player_def hm_find)
  then show ?case using Cons.IH [of "(d', m')" ?r] u(1) by auto
qed simp

text \<open>C27. After a player's scores have been saved one after the other, the row holds the last of
  them as the score and the greatest of them as the high score; no other player's row is
  touched.\<close>

theorem high_score_is_greatest:
  assumes "answers_ok a" and "map_of (t_players d) pid = None"
  shows "\<exists>r. map_of (t_players (fst (save_scores a pid user (sc # scs) (d, m)))) pid = Some r \<and>
     pr_score r = last (sc # scs) \<and> pr_high_score r = Max (set (sc # scs)) \<and> pr_username r = user \<and>
     (\<forall>q. q \<noteq> pid \<longrightarrow>
        map_of (t_players (fst (save_scores a pid user (sc # scs) (d, m)))) q = map_of (t_players d) q)"
proof -
  obtain d' m' where u: "upsertPlayer a pid user sc 0 d m = (True, d', m')"
      "t_players d' = t_players (sql_upsert_player (a_now a) pid user sc 0 d)"
    using upsertPlayer_succeeds [OF assms(1)] by blast
  let ?r = "\<lparr>pr_username = user, pr_score = sc, pr_high_score = sc, pr_kills = 0,
    pr_created_at = a_now a, pr_updated_at = a_now a\<rparr>"
  have "map_of (t_players d') = (map_of (t_players d))(pid \<mapsto> ?r)"
    using u(2) assms(2) by (simp add: sql_upsert_player_def hm_find)
  moreover have "foldl max sc scs = Max (set (sc # scs))"
    by (rule foldl_max)
  ultimately show ?thesis
    using save_scores_row [OF assms(1), of "(d', m')" pid ?r user scs] u(1) by auto
qed

lemma high_score_is_greatest_empty: "map_of (t_players \<lparr>m_conn = False, m_connected = False, t_players = [],
   t_events = [], t_matches = [], t_test_runs = []\<rparr>) pid = None"
  by simp

theorem high_score_is_greatest_witness:
  "\<exists>r. map_of (t_players (fst (save_scores \<lparr>a_ping = True, a_init = True, a_connect = True,
       a_stmt_init = True, a_prepare = True, a_bind = True, a_execute = True, a_t0 = 0, a_t1 = 1,
       a_now = ''now''\<rparr> 7 ''Player_7'' [0, 130, 40]
     (\<lparr>m_conn = False, m_connected = False, t_players = [], t_events = [], t_matches = [],
       t_test_runs = []\<rparr>,
      metrics_reset)))) 7 = Some r \<and> pr_score r = 40 \<and> pr_high_score r = 130"
  by (rule exE [OF high_score_is_greatest [OF _ high_score_is_greatest_empty, of _ 7 "''Player_7''" 0
        "[130, 40]" metrics_reset]]) (auto simp: answers_ok_def)

section \<open>The Redis protocol\<close>

text \<open>The bytes of a request determine it: two requests followed by anything are equal on the
  wire only if their arguments are equal, whatever bytes the arguments hold (line breaks and
  protocol text included).\<close>

theorem resp_requests_unambiguous:
  assumes "resp_encode xs @ r = resp_encode ys @ s" shows "xs = ys \<and> r = s"
  by (rule resp_encode_unique [OF assms])

theorem resp_requests_unambiguous_witness:
  "[''SET'', ''a'', [CR, LF]] = [''SET'', ''a'', [CR, LF]] \<and> ([] :: string) = []"
  by (rule resp_requests_unambiguous [OF refl])

text \<open>Answers that take the whole request and send one reply, as one chunk of data.\<close>

definition cmd_answering :: "string list \<Rightarrow> string \<Rightarrow> cmd_answer" where
  "cmd_answering args reply =
     \<lparr>ra_conn = \<lparr>ca_socket = True, ca_pton = True, ca_connect = True\<rparr>,
      ra_sent = int (length (resp_encode args)), ra_reply = [RxData (bytes_of reply)]\<rparr>"

lemma replies_answering: "reply \<noteq> [] \<Longrightarrow> replies (cmd_answering args reply) args reply"
  by (simp add: cmd_answering_def replies_def rx_pure_def)

definition ready_conn :: redis_conn where
  "ready_conn = \<lparr>rc_open = True, rc_in = [], rc_out = []\<rparr>"

lemma in_step_ready [simp]: "in_step ready_conn"
  by (simp add: in_step_def ready_conn_def)

lemma resp_bulk_not_Nil [simp]: "resp_bulk v \<noteq> []"
  by (simp add: resp_bulk_def)

text \<open>A GET on a connection that is in step with the server returns the value of the reply,
  whatever bytes it holds and however the network cuts the reply into chunks, or nothing for
  a missing key; it leaves the connection in step.\<close>

theorem get_returns_reply:
  assumes "in_step c" and "length v < 2 ^ 31"
    and "replies a [''GET'', key] (case found of True \<Rightarrow> resp_bulk v | False \<Rightarrow> ''$-1'' @ [CR, LF])"
  shows "\<exists>c'. redis_get a key c = (Ret (if found then Some v else None), c') \<and> in_step c'"
  using assms bulk_command_reply [of c a "[''GET'', key]" v] bulk_command_missing [of c a "[''GET'', key]"]
  by (cases found) (auto simp: redis_get_def in_step_def)

theorem get_returns_reply_witness:
  "\<exists>c. redis_get (cmd_answering [''GET'', ''k''] (resp_bulk [CR, LF, CHR ''$''])) ''k'' ready_conn
     = (Ret (Some [CR, LF, CHR ''$'']), c)"
proof -
  have "length [CR, LF, CHR ''$''] < 2 ^ 31" by simp
  then show ?thesis
    using get_returns_reply [OF in_step_ready, of "[CR, LF, CHR ''$'']"
        "cmd_answering [''GET'', ''k''] (resp_bulk [CR, LF, CHR ''$''])" "''k''" True]
      replies_answering [OF resp_bulk_not_Nil] by auto
qed

section \<open>A connection out of step\<close>

lemma rx_bytes_append: "rx_pure q \<Longrightarrow> rx_bytes (q @ p) = rx_bytes q @ rx_bytes p"
  by (induction q rule: rx_bytes.induct) (auto simp: rx_pure_def)

text \<open>A bulk command reads the first reply that waits on the connection, stale or not.\<close>

lemma bulk_command_first:
  assumes "rc_open c" and "ra_sent a = int (length (resp_encode args))"
    and "rx_bytes (rc_in c @ ra_reply a) = bytes_of (resp_bulk v) @ r" and "length v < 2 ^ 31"
  shows "fst (bulk_command a args c) = Ret (Some v)"
proof -
  define c1 where "c1 = c\<lparr>rc_out := rc_out c @ resp_encode args, rc_in := rc_in c @ ra_reply a\<rparr>"
  let ?rest = "nat_str (length v) @ [CR, LF] @ v @ [CR, LF]"
  have "rx_bytes (rc_in c1) = of_char (CHR ''$'') # (bytes_of ?rest @ r)"
    using assms(3) by (simp add: c1_def resp_bulk_def) (simp add: bytes_of_def)
  then obtain q1 where q1: "recv_char (rc_in c1) = (Some (CHR ''$''), q1)"
    "consumed (rc_in c1) q1 (bytes_of ?rest @ r)" by (metis recv_char_Cons)
  have "rx_bytes (rc_in (c1\<lparr>rc_in := q1\<rparr>)) = bytes_of ?rest @ r" using q1(2) by (simp add: consumed_def)
  then obtain q2 where "readBulkString (c1\<lparr>rc_in := q1\<rparr>) = (Ret (Some v), c1\<lparr>rc_in := q1\<rparr>\<lparr>rc_in := q2\<rparr>)"
    using assms(4) by (rule readBulkString_value)
  then show ?thesis using assms(1,2) q1(1)
    by (simp add: bulk_command_def sendCommand_def redis_connect_def c1_def Let_def)
qed

lemma bulk_command_bad_length:
  assumes "in_step c" and "replies a args (''$'' @ l @ [CR, LF] @ r)"
    and "CR \<notin> set l" and "stoi l = Throw e"
  obtains c' where "bulk_command a args c = (Throw e, c')" and "rc_open c'"
    and "rx_pure (rc_in c')" and "rx_bytes (rc_in c') = bytes_of r"
proof -
  define c1 where "c1 = c\<lparr>rc_out := rc_out c @ resp_encode args, rc_in := ra_reply a\<rparr>"
  have p: "rx_pure (rc_in c1)" and
    "rx_bytes (rc_in c1) = of_char (CHR ''$'') # bytes_of (l @ [CR, LF] @ r)"
    using assms(2) by (simp_all add: replies_def c1_def bytes_of_def)
  then obtain q1 where q1: "recv_char (rc_in c1) = (Some (CHR ''$''), q1)"
    "consumed (rc_in c1) q1 (bytes_of (l @ [CR, LF] @ r))" by (metis recv_char_Cons)
  define c2 where "c2 = c1\<lparr>rc_in := q1\<rparr>"
  have "rx_bytes (rc_in c2) = bytes_of (l @ [CR, LF]) @ bytes_of r"
    using q1(2) by (simp add: c2_def consumed_def) (simp add: bytes_of_def)
  then obtain q2 where q2: "readLine c2 = (Some l, c2\<lparr>rc_in := q2\<rparr>)" "consumed (rc_in c2) q2 (bytes_of r)"
    using assms(3) by (rule readLine_line)
  have "consumed (rc_in c1) q2 (bytes_of r)"
    using consumed_trans [OF q1(2)] q2(2) by (simp add: c2_def)
  then show thesis
    using that [of "c2\<lparr>rc_in := q2\<rparr>"] sendCommand_in_step [OF assms(1)] assms(1,2,4) q1(1) q2(1) p
    by (simp add: bulk_command_def readBulkString_def replies_def c1_def c2_def in_step_def consumed_def Let_def)
qed

text \<open>C29. A reply whose length is not a number throws, and the connection that goes back to the
  pool still holds the rest of that reply: if the rest reads as a value, the next GET on the
  connection returns it instead of the value of its own key.\<close>

theorem bad_length_desyncs:
  assumes "in_step c" and "replies a [''GET'', k] (''$'' @ l @ [CR, LF] @ resp_bulk stale)"
    and "CR \<notin> set l" and "stoi l = Throw e" and "length stale < 2 ^ 31"
    and "replies b [''GET'', k2] reply"
  shows "\<exists>c'. redis_get a k c = (Throw e, c') \<and> fst (redis_get b k2 c') = Ret (Some stale)"
proof -
  obtain c' where c': "bulk_command a [''GET'', k] c = (Throw e, c')" "rc_open c'"
    "rx_pure (rc_in c')" "rx_bytes (rc_in c') = bytes_of (resp_bulk stale)"
    using assms(1-4) by (rule bulk_command_bad_length)
  have "rx_bytes (rc_in c' @ ra_reply b) = bytes_of (resp_bulk stale) @ bytes_of reply"
    using c'(3,4) assms(6) by (simp add: rx_bytes_append replies_def)
  then have "fst (bulk_command b [''GET'', k2] c') = Ret (Some stale)"
    using bulk_command_first c'(2) assms(5,6) by (simp add: replies_def)
  then show ?thesis using c'(1) by (auto simp: redis_get_def)
qed

theorem bad_length_desyncs_witness:
  "\<exists>c'. redis_get (cmd_answering [''GET'', ''a''] (''$x'' @ [CR, LF] @ resp_bulk ''stale'')) ''a'' ready_conn
       = (Throw ''invalid_argument'', c') \<and>
     fst (redis_get (cmd_answering [''GET'', ''b''] (resp_bulk ''right'')) ''b'' c') = Ret (Some ''stale'')"
proof (rule bad_length_desyncs [where l = "''x''" and reply = "resp_bulk ''right''"])
  show "replies (cmd_answering [''GET'', ''a''] (''$x'' @ [CR, LF] @ resp_bulk ''stale'')) [''GET'', ''a'']
      (''$'' @ ''x'' @ [CR, LF] @ resp_bulk ''stale'')"
    by (simp add: cmd_answering_def replies_def rx_pure_def)
  show "stoi ''x'' = Throw ''invalid_argument''" by code_simp
qed (simp_all add: CR_def replies_answering)

text \<open>Using a pooled connection for a command, failing or not, never makes the pool hold more
  connections than its size.\<close>

theorem pool_never_exceeds_size:
  assumes "length (pl_available p) \<le> pl_size p" and "with_pooled a f p = (r, p')"
  shows "length (pl_available p') \<le> pl_size p' \<and> pl_size p' = pl_size p"
  using with_pooled_ok [of p a f r p'] assms by (simp add: pool_ok_def)

theorem pool_never_exceeds_size_witness:
  "length (pl_available (snd (with_pooled \<lparr>pa_acquire = \<lparr>ca_socket = False, ca_pton = True, ca_connect = True\<rparr>,
     pa_cmd = cmd_answering [''PING''] ''+PONG''\<rparr> redis_ping \<lparr>pl_available = [], pl_size = 1\<rparr>))) \<le> 1"
proof -
  let ?a = "\<lparr>pa_acquire = \<lparr>ca_socket = False, ca_pton = True, ca_connect = True\<rparr>,
     pa_cmd = cmd_answering [''PING''] ''+PONG''\<rparr>" and ?p = "\<lparr>pl_available = [], pl_size = 1\<rparr>"
  obtain r p' where w: "with_pooled ?a redis_ping ?p = (r, p')" by fastforce
  then show ?thesis using pool_never_exceeds_size [OF _ w] by simp
qed

section \<open>Sessions and positions\<close>

text \<open>A command of the cache on a connection in step.\<close>

lemma session_set:
  assumes "cache_ready c" and "dump session = Ret text" and "0 < ttl"
    and "replies (pa_cmd a) [''SET'', session_key pid, text, ''EX'', int_str ttl] (''+OK'' @ [CR, LF])"
  shows "\<exists>c'. setPlayerSession a pid session ttl c = (Ret True, c') \<and> cache_ready c'"
proof -
  have "CR \<notin> set ''+OK''" by (simp add: CR_def)
  then have "redis_set (pa_cmd a) (session_key pid) text ttl conn =
      (True, conn\<lparr>rc_out := rc_out conn @
         resp_encode [''SET'', session_key pid, text, ''EX'', int_str ttl]\<rparr>)" if "in_step conn" for conn
    using line_command_reply [OF that assms(4)] assms(3) by (simp add: redis_set_def)
  then show ?thesis
    unfolding setPlayerSession_def assms(2) by (intro on_pool_ready [OF assms(1)]) auto
qed

lemma session_get:
  assumes "cache_ready c" and "parse text = Ret j" and "length text < 2 ^ 31"
    and "replies (pa_cmd a) [''GET'', session_key pid] (resp_bulk text)"
  shows "\<exists>c'. getPlayerSession a pid (c, m) = (Ret (Some j), c', incrementRedisCacheHits m) \<and> cache_ready c'"
proof -
  obtain c' where "on_pool a (Ret None) (\<lambda>r conn. redis_get r (session_key pid) conn) c = (Ret (Some text), c')"
      "cache_ready c'"
    using on_pool_ready [OF assms(1), of "\<lambda>r conn. redis_get r (session_key pid) conn" a "Ret (Some text)" "Ret None"]
      bulk_command_reply [OF _ assms(4,3)] by (auto simp: redis_get_def)
  then show ?thesis by (simp add: getPlayerSession_def assms(2))
qed

lemma position_set:
  assumes "cache_ready c"
    and "replies (pa_cmd a) [''SET'', position_key pid, position_value x y, ''EX'', ''60''] (''+OK'' @ [CR, LF])"
  shows "\<exists>c'. setPlayerPosition a pid x y c = (True, c') \<and> cache_ready c'"
proof -
  have "CR \<notin> set ''+OK''" by (simp add: CR_def)
  moreover have "int_str 60 = ''60''" by code_simp
  ultimately have "redis_set (pa_cmd a) (position_key pid) (position_value x y) 60 conn =
      (True, conn\<lparr>rc_out := rc_out conn @
         resp_encode [''SET'', position_key pid, position_value x y, ''EX'', ''60'']\<rparr>)" if "in_step conn" for conn
    using line_command_reply [OF that assms(2)] by (simp add: redis_set_def)
  then show ?thesis
    unfolding setPlayerPosition_def by (intro on_pool_ready [OF assms(1)]) auto
qed

lemma position_get:
  assumes "cache_ready c" and "in_i32 x" and "in_i32 y" and "length (position_value x y) < 2 ^ 31"
    and "replies (pa_cmd a) [''GET'', position_key pid] (resp_bulk (position_value x y))"
  shows "\<exists>c'. getPlayerPosition a pid (c, m) = (Ret (Some (x, y)), c', incrementRedisCacheHits m)"
proof -
  obtain c' where "on_pool a (Ret None) (\<lambda>r conn. redis_get r (position_key pid) conn) c =
      (Ret (Some (position_value x y)), c')"
    using on_pool_ready [OF assms(1), of "\<lambda>r conn. redis_get r (position_key pid) conn" a
        "Ret (Some (position_value x y))" "Ret None"]
      bulk_command_reply [OF _ assms(5,4)] by (auto simp: redis_get_def)
  then show ?thesis by (simp add: getPlayerPosition_def parse_position_value assms(2,3))
qed

text \<open>C28. A session that was stored and is returned by Redis as it was sent is read back as the
  document that was stored (non-negative integers come back as unsigned), and counts as a hit.\<close>

theorem session_roundtrip:
  assumes "cache_ready c" and "storable session" and "dump session = Ret text"
    and "length text < 2 ^ 31" and "0 < ttl"
    and "replies (pa_cmd a) [''SET'', session_key pid, text, ''EX'', int_str ttl] (''+OK'' @ [CR, LF])"
    and "replies (pa_cmd b) [''GET'', session_key pid] (resp_bulk text)"
  shows "\<exists>c1 c2. setPlayerSession a pid session ttl c = (Ret True, c1) \<and>
     getPlayerSession b pid (c1, m) = (Ret (Some (reread session)), c2, incrementRedisCacheHits m)"
  using session_set [OF assms(1,3,5,6)]
    session_get [OF _ parse_dump [OF assms(3,2)] assms(4,7), of _ m] by meson

definition ready_cache :: cache_manager where
  "ready_cache = \<lparr>m_enabled = True, m_pool = Some \<lparr>pl_available = [ready_conn], pl_size = 64\<rparr>\<rparr>"

lemma cache_ready_example: "cache_ready ready_cache"
  by (simp add: cache_ready_def ready_cache_def pool_ok_def)

definition answering :: "string list \<Rightarrow> string \<Rightarrow> pool_answer" where
  "answering args reply = \<lparr>pa_acquire = \<lparr>ca_socket = True, ca_pton = True, ca_connect = True\<rparr>,
     pa_cmd = cmd_answering args reply\<rparr>"

lemma answering_cmd [simp]: "pa_cmd (answering args reply) = cmd_answering args reply"
  by (simp add: answering_def)

theorem session_roundtrip_witness:
  "\<exists>c1 c2. setPlayerSession (answering [''SET'', session_key 7, ''[null,true]'', ''EX'', int_str 300] (''+OK'' @ [CR, LF]))
       7 (JArray [JNull, JBool True]) 300 ready_cache = (Ret True, c1) \<and>
     getPlayerSession (answering [''GET'', session_key 7] (resp_bulk ''[null,true]'')) 7 (c1, metrics_reset)
       = (Ret (Some (JArray [JNull, JBool True])), c2, incrementRedisCacheHits metrics_reset)"
proof -
  have "dump (JArray [JNull, JBool True]) = Ret ''[null,true]''" by code_simp
  then show ?thesis
    using session_roundtrip [OF cache_ready_example, of "JArray [JNull, JBool True]" "''[null,true]''" 300]
      replies_answering by simp
qed

text \<open>A position that was stored and is returned by Redis as it was sent is read back
  unchanged, negative coordinates included, and counts as a hit.\<close>

theorem position_roundtrip:
  assumes "cache_ready c" and "in_i32 x" and "in_i32 y" and "length (position_value x y) < 2 ^ 31"
    and "replies (pa_cmd a) [''SET'', position_key pid, position_value x y, ''EX'', ''60''] (''+OK'' @ [CR, LF])"
    and "replies (pa_cmd b) [''GET'', position_key pid] (resp_bulk (position_value x y))"
  shows "\<exists>c1 c2. setPlayerPosition a pid x y c = (True, c1) \<and>
     getPlayerPosition b pid (c1, m) = (Ret (Some (x, y)), c2, incrementRedisCacheHits m)"
  using position_set [OF assms(1,5)] position_get [OF _ assms(2-4,6), of _ m] by meson

theorem position_roundtrip_witness:
  "\<exists>c1 c2. setPlayerPosition (answering [''SET'', position_key 7, position_value (- 3) 1000, ''EX'', ''60'']
       (''+OK'' @ [CR, LF])) 7 (- 3) 1000 ready_cache = (True, c1) \<and>
     getPlayerPosition (answering [''GET'', position_key 7] (resp_bulk (position_value (- 3) 1000))) 7
       (c1, metrics_reset) = (Ret (Some (- 3, 1000)), c2, incrementRedisCacheHits metrics_reset)"
proof (rule position_roundtrip [OF cache_ready_example])
  have "position_value (- 3) 1000 = ''-3,1000''" by code_simp
  then show "length (position_value (- 3) 1000) < 2 ^ 31" by simp
qed (simp_all add: in_i32_def replies_answering)

text \<open>The keys under which sessions and positions are stored never meet: two players never
  share one, and no session key is a position key.\<close>

theorem cache_keys_disjoint:
  "(session_key i = session_key j \<longleftrightarrow> i = j) \<and> (position_key i = position_key j \<longleftrightarrow> i = j) \<and>
   session_key i \<noteq> position_key j"
  using session_key_inj position_key_inj keys_disjoint by blast

end
