(* ===== verification/RequestHandler.thy ===== *)
theory RequestHandler
  imports GameProps Cache Database
begin

text \<open>
  \<open>RequestHandler.cpp\<close>: one request, from its text to the text of the reply. The handler
  works on the game, the optional cache and database and the metrics registry. What the
  outside answers during one request (clocks, Redis, MySQL, the iteration order of the
  player map) is the argument \<open>env\<close>.

  A handler returns \<open>None\<close> when it runs into undefined behaviour, and otherwise the reply or
  the exception it throws, with the state it leaves.
\<close>

record request_env =
  e_clk :: "nat \<Rightarrow> int" \<comment> \<open>readings of the steady clock by the game\<close>
  e_now :: int \<comment> \<open>the system clock, for the event\<close>
  e_time :: int \<comment> \<open>\<open>std::time\<close>\<close>
  e_redis :: "nat \<Rightarrow> pool_answer" \<comment> \<open>the answers to the i-th cache call\<close>
  e_mysql :: "nat \<Rightarrow> mysql_answers" \<comment> \<open>the answers to the i-th database call\<close>
  e_iter :: iteration
  e_start :: int
  e_end :: int

record server_state =
  s_game :: game_state
  s_cache :: "cache_manager option"
  s_db :: "database option"
  s_metrics :: metrics

type_synonym reply = "(json exc \<times> server_state) option"

definition init_server ::
    "(nat \<Rightarrow> int) \<Rightarrow> cache_manager option \<Rightarrow> database option \<Rightarrow> server_state" where
  "init_server clk c d = \<lparr>s_game = init_game clk, s_cache = c, s_db = d, s_metrics = metrics_reset\<rparr>"

section \<open>Validation helpers\<close>

definition errorResponse :: "string \<Rightarrow> json" where
  "errorResponse message =
     json_init [kv ''status'' (JString ''error''), kv ''message'' (JString message)]"

definition missing_field :: "string \<Rightarrow> string" where
  "missing_field key = ''missing required field: '' @ [CHR 0x27] @ key @ [CHR 0x27]"

definition wrong_type :: "string \<Rightarrow> string \<Rightarrow> string" where
  "wrong_type key ty = ''field '' @ [CHR 0x27] @ key @ [CHR 0x27] @ '' must be '' @ ty"

definition requireInt :: "json \<Rightarrow> string \<Rightarrow> (string + int) exc option" where
  "requireInt j key =
     (if \<not> contains j key then Some (Ret (Inl (missing_field key)))
      else case json_get j key of
        None \<Rightarrow> None
      | Some v \<Rightarrow>
          if \<not> is_number_integer v then Some (Ret (Inl (wrong_type key ''an integer'')))
          else (case get_int v of
            None \<Rightarrow> None
          | Some (Throw e) \<Rightarrow> Some (Throw e)
          | Some (Ret i) \<Rightarrow> Some (Ret (Inr i))))"

definition requireString :: "json \<Rightarrow> string \<Rightarrow> (string + string) exc option" where
  "requireString j key =
     (if \<not> contains j key then Some (Ret (Inl (missing_field key)))
      else case json_get j key of
        None \<Rightarrow> None
      | Some v \<Rightarrow>
          if \<not> is_string v then Some (Ret (Inl (wrong_type key ''a string'')))
          else (case get_string v of
            Throw e \<Rightarrow> Some (Throw e)
          | Ret s \<Rightarrow> Some (Ret (Inr s))))"

text \<open>\<open>if (!require(req, key, x, err)) return errorResponse(err);\<close>, then the rest.\<close>

definition required ::
    "(string + 'a) exc option \<Rightarrow> server_state \<Rightarrow> ('a \<Rightarrow> reply) \<Rightarrow> reply" where
  "required r s rest = (case r of
       None \<Rightarrow> None
     | Some (Throw e) \<Rightarrow> Some (Throw e, s)
     | Some (Ret (Inl err)) \<Rightarrow> Some (Ret (errorResponse err), s)
     | Some (Ret (Inr x)) \<Rightarrow> rest x)"

section \<open>Effects on the components\<close>

definition log_event :: "request_env \<Rightarrow> int \<Rightarrow> string \<Rightarrow> string \<Rightarrow> server_state \<Rightarrow> server_state" where
  "log_event env pid ty dat s = s\<lparr>s_game := recordEvent (e_now env) pid ty dat (s_game s)\<rparr>"

definition update_gauge :: "server_state \<Rightarrow> server_state" where
  "update_gauge s = s\<lparr>s_metrics :=
     setActivePlayers (to_i32 (int (activePlayerCount (s_game s)))) (s_metrics s)\<rparr>"

text \<open>\<open>if (m_cache && m_cache->isEnabled())\<close>, with the exceptions of the body.\<close>

definition if_cache ::
    "(cache_manager \<times> metrics \<Rightarrow> unit exc \<times> cache_manager \<times> metrics) \<Rightarrow> server_state
      \<Rightarrow> unit exc \<times> server_state" where
  "if_cache body s = (case s_cache s of
       None \<Rightarrow> (Ret (), s)
     | Some c \<Rightarrow>
         if m_enabled c
         then (case body (c, s_metrics s) of
                 (r, c', m') \<Rightarrow> (r, s\<lparr>s_cache := Some c', s_metrics := m'\<rparr>))
         else (Ret (), s))"

definition if_db :: "(database \<Rightarrow> metrics \<Rightarrow> database \<times> metrics) \<Rightarrow> server_state \<Rightarrow> server_state" where
  "if_db body s = (case s_db s of
       None \<Rightarrow> s
     | Some d \<Rightarrow> (case body d (s_metrics s) of (d', m') \<Rightarrow> s\<lparr>s_db := Some d', s_metrics := m'\<rparr>))"

text \<open>The two statements that \<open>JOIN\<close> and \<open>LEAVE\<close> execute.\<close>

definition persist ::
    "request_env \<Rightarrow> int \<Rightarrow> int \<Rightarrow> string \<Rightarrow> string \<Rightarrow> database \<Rightarrow> metrics \<Rightarrow> database \<times> metrics" where
  "persist env pid score ty dat d m =
     (case upsertPlayer (e_mysql env 0) pid (''Player_'' @ int_str pid) score 0 d m of
        (_, d1, m1) \<Rightarrow>
          (case db_recordEvent (e_mysql env 1) ''match_1'' pid ty dat d1 m1 of
             (_, d2, m2) \<Rightarrow> (d2, m2)))"

section \<open>Action handlers\<close>

definition handleJoin :: "request_env \<Rightarrow> json \<Rightarrow> server_state \<Rightarrow> reply" where
  "handleJoin env req s =
     required (requireInt req ''player_id'') s (\<lambda>pid.
       case addPlayer (e_clk env) pid (s_game s) of
         (Inl err, g) \<Rightarrow> Some (Ret (errorResponse err), s\<lparr>s_game := g\<rparr>)
       | (Inr _, g) \<Rightarrow>
           let s1 = update_gauge (s\<lparr>s_game := g\<rparr>);
               session = json_init [kv ''player_id'' (JInt pid), kv ''joined_at'' (JInt (e_time env))]
           in case if_cache (\<lambda>(c, m).
                  case setPlayerSession (e_redis env 0) pid session 300 c of
                    (Throw e, c1) \<Rightarrow> (Throw e, c1, m)
                  | (Ret _, c1) \<Rightarrow>
                      (Ret (), snd (setPlayerPosition (e_redis env 1) pid 500 500 c1), m)) s1 of
                (Throw e, s2) \<Rightarrow> Some (Throw e, s2)
              | (Ret _, s2) \<Rightarrow>
                  let s3 = if_db (persist env pid 0 ''JOIN'' ''{}'') s2;
                      s4 = log_event env pid ''JOIN'' ''{}'' s3
                  in Some (Ret (json_init [
                       kv ''status'' (JString ''ok''),
                       kv ''action'' (JString ''JOIN''),
                       kv ''player_id'' (JInt pid),
                       kv ''x'' (JInt 500),
                       kv ''y'' (JInt 500),
                       kv ''health'' (JInt MAX_HEALTH),
                       kv ''score'' (JInt 0),
                       kv ''message'' (JString (''Player '' @ int_str pid @ '' joined the game''))]),
                     s4))"

definition move_data :: "int \<Rightarrow> int \<Rightarrow> string" where
  "move_data x y = ''{\"x\":'' @ int_str x @ '',\"y\":'' @ int_str y @ ''}''"

definition handleMove :: "request_env \<Rightarrow> json \<Rightarrow> server_state \<Rightarrow> reply" where
  "handleMove env req s =
     required (requireInt req ''player_id'') s (\<lambda>pid.
     required (requireInt req ''x'') s (\<lambda>x.
     required (requireInt req ''y'') s (\<lambda>y.
       let cx = clamp x MAP_MIN MAP_MAX; cy = clamp y MAP_MIN MAP_MAX in
       case movePlayer pid cx cy (s_game s) of
         (Inl err, g) \<Rightarrow> Some (Ret (errorResponse err), s\<lparr>s_game := g\<rparr>)
       | (Inr _, g) \<Rightarrow>
           let s1 = s\<lparr>s_game := g\<rparr>;
               (_, s2) = if_cache (\<lambda>(c, m).
                 (Ret (), snd (setPlayerPosition (e_redis env 0) pid cx cy c), m)) s1;
               s3 = log_event env pid ''MOVE'' (move_data cx cy) s2
           in Some (Ret (json_init [
                kv ''status'' (JString ''ok''),
                kv ''action'' (JString ''MOVE''),
                kv ''player_id'' (JInt pid),
                kv ''x'' (JInt cx),
                kv ''y'' (JInt cy)]), s3))))"

definition attack_data :: "int \<Rightarrow> attack_result \<Rightarrow> string" where
  "attack_data target r = ''{\"target_id\":'' @ int_str target @ '',\"damage\":'' @ int_str (ar_damage r)
     @ '',\"eliminated\":'' @ (if ar_targetEliminated r then ''true'' else ''false'') @ ''}''"

definition attack_reply :: "int \<Rightarrow> int \<Rightarrow> attack_result \<Rightarrow> json exc" where
  "attack_reply pid target r =
     (let resp = json_init [
            kv ''status'' (JString ''ok''),
            kv ''action'' (JString ''ATTACK''),
            kv ''attacker_id'' (JInt pid),
            kv ''target_id'' (JInt target),
            kv ''damage'' (JInt (ar_damage r)),
            kv ''target_health'' (JInt (ar_targetHealthAfter r)),
            kv ''attacker_score'' (JInt (ar_attackerScore r))]
      in if ar_targetEliminated r then json_set ''eliminated'' (JBool True) resp else Ret resp)"

definition handleAttack :: "request_env \<Rightarrow> json \<Rightarrow> server_state \<Rightarrow> reply" where
  "handleAttack env req s =
     required (requireInt req ''player_id'') s (\<lambda>pid.
     required (requireInt req ''target_id'') s (\<lambda>target.
       case attackPlayer pid target (s_game s) of
         None \<Rightarrow> None
       | Some (Inl err, g) \<Rightarrow> Some (Ret (errorResponse err), s\<lparr>s_game := g\<rparr>)
       | Some (Inr r, g) \<Rightarrow>
           let s1 = log_event env pid ''ATTACK'' (attack_data target r) (s\<lparr>s_game := g\<rparr>)
           in Some (attack_reply pid target r, s1)))"

definition chat_data :: "string \<Rightarrow> string" where
  "chat_data message = ''{\"len\":'' @ nat_str (length message) @ ''}''"

definition handleChat :: "request_env \<Rightarrow> json \<Rightarrow> server_state \<Rightarrow> reply" where
  "handleChat env req s =
     required (requireInt req ''player_id'') s (\<lambda>pid.
     required (requireString req ''message'') s (\<lambda>message.
       if message = [] then Some (Ret (errorResponse ''message cannot be empty''), s)
       else if MAX_CHAT_LEN < to_i32 (int (length message))
       then Some (Ret (errorResponse
              (''message too long (max '' @ int_str MAX_CHAT_LEN @ '' chars)'')), s)
       else if \<not> hasPlayer pid (s_game s)
       then Some (Ret (errorResponse (not_in_game ''player_id '' pid)), s)
       else Some (Ret (json_init [
              kv ''status'' (JString ''ok''),
              kv ''action'' (JString ''CHAT''),
              kv ''player_id'' (JInt pid),
              kv ''message'' (JString message)]),
            log_event env pid ''CHAT'' (chat_data message) s)))"

definition state_reply :: "request_env \<Rightarrow> server_state \<Rightarrow> json exc" where
  "state_reply env s =
     (case json_set ''status'' (JString ''ok'') (snapshot (e_iter env) (e_clk env) (s_game s)) of
        Throw e \<Rightarrow> Throw e
      | Ret snap \<Rightarrow> json_set ''action'' (JString ''GET_STATE'') snap)"

text \<open>The player id is optional here; the session that is looked up is not used.\<close>

definition handleGetState :: "request_env \<Rightarrow> json \<Rightarrow> server_state \<Rightarrow> reply" where
  "handleGetState env req s =
     (if contains req ''player_id'' then
        case json_get req ''player_id'' of
          None \<Rightarrow> None
        | Some v \<Rightarrow>
            if is_number_integer v then
              (case get_int v of
                 None \<Rightarrow> None
               | Some (Throw e) \<Rightarrow> Some (Throw e, s)
               | Some (Ret pid) \<Rightarrow>
                   if \<not> hasPlayer pid (s_game s)
                   then Some (Ret (errorResponse (not_in_game ''player_id '' pid)), s)
                   else (case if_cache (\<lambda>cm. case getPlayerSession (e_redis env 0) pid cm of
                                    (Throw e, c, m) \<Rightarrow> (Throw e, c, m)
                                  | (Ret _, c, m) \<Rightarrow> (Ret (), c, m)) s of
                           (Throw e, s1) \<Rightarrow> Some (Throw e, s1)
                         | (Ret _, s1) \<Rightarrow> Some (state_reply env s1, s1)))
            else Some (state_reply env s, s)
      else Some (state_reply env s, s))"

definition score_data :: "int \<Rightarrow> string" where
  "score_data score = ''{\"score\":'' @ int_str score @ ''}''"

definition handleUpdateScore :: "request_env \<Rightarrow> json \<Rightarrow> server_state \<Rightarrow> reply" where
  "handleUpdateScore env req s =
     required (requireInt req ''player_id'') s (\<lambda>pid.
     required (requireInt req ''score'') s (\<lambda>score.
       if score < 0 then Some (Ret (errorResponse ''score cannot be negative''), s)
       else case setScore pid score (s_game s) of
         (Inl err, g) \<Rightarrow> Some (Ret (errorResponse err), s\<lparr>s_game := g\<rparr>)
       | (Inr _, g) \<Rightarrow>
           Some (Ret (json_init [
                kv ''status'' (JString ''ok''),
                kv ''action'' (JString ''UPDATE_SCORE''),
                kv ''player_id'' (JInt pid),
                kv ''score'' (JInt score)]),
             log_event env pid ''UPDATE_SCORE'' (score_data score) (s\<lparr>s_game := g\<rparr>))))"

definition leave_data :: "int \<Rightarrow> string" where
  "leave_data score = ''{\"final_score\":'' @ int_str score @ ''}''"

definition handleLeave :: "request_env \<Rightarrow> json \<Rightarrow> server_state \<Rightarrow> reply" where
  "handleLeave env req s =
     required (requireInt req ''player_id'') s (\<lambda>pid.
       case removePlayer pid (s_game s) of
         (Inl err, g) \<Rightarrow> Some (Ret (errorResponse err), s\<lparr>s_game := g\<rparr>)
       | (Inr score, g) \<Rightarrow>
           let s1 = update_gauge (s\<lparr>s_game := g\<rparr>);
               (_, s2) = if_cache (\<lambda>(c, m).
                 (Ret (), snd (deletePlayerSession (e_redis env 0) pid c), m)) s1;
               s3 = if_db (persist env pid score ''LEAVE'' (leave_data score)) s2;
               s4 = log_event env pid ''LEAVE'' (leave_data score) s3
           in Some (Ret (json_init [
                kv ''status'' (JString ''ok''),
                kv ''action'' (JString ''LEAVE''),
                kv ''player_id'' (JInt pid),
                kv ''final_score'' (JInt score),
                kv ''message'' (JString (''Player '' @ int_str pid @ '' left the game''))]), s4))"

definition handleGetMetrics :: "server_state \<Rightarrow> reply" where
  "handleGetMetrics s =
     Some (case json_set ''status'' (JString ''ok'') (metrics_json (s_metrics s)) of
             Throw e \<Rightarrow> (Throw e, s)
           | Ret m \<Rightarrow> (json_set ''action'' (JString ''GET_METRICS'') m, s))"

section \<open>handle\<close>

definition dispatch_action ::
    "request_env \<Rightarrow> string \<Rightarrow> json \<Rightarrow> server_state \<Rightarrow> reply" where
  "dispatch_action env action req s =
     (if action = ''JOIN'' then handleJoin env req s
      else if action = ''MOVE'' then handleMove env req s
      else if action = ''ATTACK'' then handleAttack env req s
      else if action = ''CHAT'' then handleChat env req s
      else if action = ''GET_STATE'' then handleGetState env req s
      else if action = ''UPDATE_SCORE'' then handleUpdateScore env req s
      else if action = ''LEAVE'' then handleLeave env req s
      else if action = ''GET_METRICS'' then handleGetMetrics s
      else Some (Ret (errorResponse (''unknown action: '' @ action)), s))"

definition with_metrics :: "(metrics \<Rightarrow> metrics) \<Rightarrow> server_state \<Rightarrow> server_state" where
  "with_metrics f s = s\<lparr>s_metrics := f (s_metrics s)\<rparr>"

text \<open>The latency timer records when \<open>handle\<close> is left, by \<open>return\<close> or by exception.\<close>

definition stop_timer :: "request_env \<Rightarrow> server_state \<Rightarrow> server_state" where
  "stop_timer env s =
     with_metrics (recordRequestLatency (duration_seconds (e_end env - e_start env))) s"

text \<open>The body of \<open>handle\<close> between the two counters: an exception becomes an error reply.\<close>

definition respond ::
    "request_env \<Rightarrow> string \<Rightarrow> json \<Rightarrow> server_state
      \<Rightarrow> (json \<times> server_state) option" where
  "respond env action req s = (case dispatch_action env action req s of
       None \<Rightarrow> None
     | Some (Ret resp, s') \<Rightarrow> Some (resp, s')
     | Some (Throw _, s') \<Rightarrow> Some (errorResponse ''internal server error'', s'))"

definition count_result :: "json \<Rightarrow> server_state \<Rightarrow> unit exc \<times> server_state" where
  "count_result resp s = (case json_value resp ''status'' '''' of
       Throw e \<Rightarrow> (Throw e, s)
     | Ret st \<Rightarrow> (Ret (), with_metrics
         (if st = ''ok'' then incrementSuccessfulRequests else incrementFailedRequests) s))"

definition handle ::
    "request_env \<Rightarrow> string \<Rightarrow> server_state
      \<Rightarrow> (string exc \<times> server_state) option" where
  "handle env raw s = map_option (\<lambda>(r, s'). (r, stop_timer env s')) (case parse raw of
       Throw _ \<Rightarrow>
         Some (dump (errorResponse ''invalid JSON''),
               with_metrics (incrementFailedRequests \<circ> incrementRequestsTotal) s)
     | Ret req \<Rightarrow>
         (case (if contains req ''action'' then json_get req ''action'' else None) of
            None \<Rightarrow> Some (dump (errorResponse ''missing action''),
                      with_metrics (incrementFailedRequests \<circ> incrementRequestsTotal) s)
          | Some v \<Rightarrow> (case get_string v of
               Throw _ \<Rightarrow> Some (dump (errorResponse ''missing action''),
                      with_metrics (incrementFailedRequests \<circ> incrementRequestsTotal) s)
             | Ret action \<Rightarrow>
                 (case respond env action req
                         (with_metrics incrementRequestsTotal s) of
                    None \<Rightarrow> None
                  | Some (resp, s1) \<Rightarrow> (case count_result resp s1 of
                       (Throw e, s2) \<Rightarrow> Some (Throw e, s2)
                     | (Ret _, s2) \<Rightarrow> Some (dump resp, s2))))))"

lemmas handler_defs = handleJoin_def handleMove_def handleAttack_def handleChat_def
  handleGetState_def handleUpdateScore_def handleLeave_def handleGetMetrics_def

end
