(* ===== verification/JsonTotal.thy ===== *)
theory JsonTotal
  imports JsonRoundtrip GrisuProps
begin

text \<open>
  What has been parsed can be dumped: the strings of a parsed document are well-formed UTF-8,
  escapes included, and the serializer throws on nothing else.
\<close>

section \<open>Strings the lexer delivers\<close>

lemma utf8_append: "utf8 s \<Longrightarrow> utf8 t \<Longrightarrow> utf8 (s @ t)"
  by (induction rule: utf8.induct) (auto intro: utf8.intros)

lemma utf8_ascii_all: "\<forall>c \<in> set s. cv c < 0x80 \<Longrightarrow> utf8 s"
  by (induction s) (auto intro: utf8.intros)

text \<open>A code point that is not a surrogate is encoded by well-formed bytes.\<close>

lemma utf8_chunk: "utf8_tail (cv c) = Some rs \<Longrightarrow> in_ranges rs bs \<Longrightarrow> utf8 (c # bs)"
  using utf8_multi [of c rs bs "[]"] utf8_Nil by simp

lemma cv_char_of: "n < 256 \<Longrightarrow> cv (char_of n) = n"
  by simp

lemma div_range: "a * k \<le> (n::nat) \<Longrightarrow> n < b * k \<Longrightarrow> 0 < k \<Longrightarrow> a \<le> n div k \<and> n div k < b"
  by (simp add: less_eq_div_iff_mult_less_eq less_mult_imp_div_less)

lemma utf8_add_codepoint:
  assumes "cp \<le> 0x10FFFF" and "\<not> (0xD800 \<le> cp \<and> cp \<le> 0xDFFF)"
  shows "utf8 (add_codepoint cp)"
proof -
  have low: "cp mod 64 < 64" "cp div 64 mod 64 < 64" "cp div 4096 mod 64 < 64" by simp_all
  consider "cp < 0x80" | "0x80 \<le> cp" "cp \<le> 0x7FF" | "0x800 \<le> cp" "cp \<le> 0xFFFF" | "0x10000 \<le> cp"
    by linarith
  then show ?thesis
  proof cases
    case 1
    then show ?thesis by (simp add: add_codepoint_def utf8_ascii_all)
  next
    case 2
    then have d: "2 \<le> cp div 64 \<and> cp div 64 < 32" by (intro div_range) simp_all
    show ?thesis using 2 d low
      by (simp add: add_codepoint_def) (rule utf8_chunk [of _ "[(0x80, 0xBF)]"], auto simp: utf8_tail_def)
  next
    case 3
    define h m where "h = cp div 4096" and "m = cp div 64 mod 64"
    have cp: "cp div 64 = 64 * h + m"
      using mult_div_mod_eq [of 64 "cp div 64"] by (simp add: h_def m_def flip: div_mult2_eq)
    have "32 \<le> cp div 64 \<and> cp div 64 < 1024" using 3 by (intro div_range) simp_all
    moreover have "\<not> (864 \<le> cp div 64 \<and> cp div 64 < 896)"
    proof
      assume "864 \<le> cp div 64 \<and> cp div 64 < 896"
      then have "864 * 64 \<le> cp div 64 * 64" "cp div 64 * 64 + 63 \<le> 895 * 64 + 63" by auto
      moreover have "cp = cp div 64 * 64 + cp mod 64" by simp
      ultimately show False using assms(2) low(1) by linarith
    qed
    moreover have m: "m < 64" by (simp add: m_def)
    ultimately have h: "h < 16" "h = 0 \<Longrightarrow> 32 \<le> m" "h = 13 \<Longrightarrow> m < 32" using cp by auto
    define rs :: "(nat \<times> nat) list" where
      "rs = (if h = 0 then [(0xA0, 0xBF), (0x80, 0xBF)] else if h = 13 then [(0x80, 0x9F), (0x80, 0xBF)]
             else [(0x80, 0xBF), (0x80, 0xBF)])"
    have "utf8_tail (0xE0 + h) = Some rs" using h(1) by (auto simp: utf8_tail_def rs_def)
    moreover have "in_ranges rs [char_of (0x80 + m), char_of (0x80 + cp mod 64)]"
      using h m low(1) by (auto simp: rs_def)
    moreover have "add_codepoint cp = char_of (0xE0 + h) # [char_of (0x80 + m), char_of (0x80 + cp mod 64)]"
      using 3 by (simp add: add_codepoint_def h_def m_def)
    ultimately show ?thesis using h(1) by (simp add: utf8_chunk)
  next
    case 4
    define h m where "h = cp div 262144" and "m = cp div 4096 mod 64"
    have cp: "cp div 4096 = 64 * h + m"
      using mult_div_mod_eq [of 64 "cp div 4096"] by (simp add: h_def m_def flip: div_mult2_eq)
    have "16 \<le> cp div 4096 \<and> cp div 4096 < 272" using 4 assms(1) by (intro div_range) simp_all
    moreover have m: "m < 64" by (simp add: m_def)
    ultimately have h: "h < 5" "h = 0 \<Longrightarrow> 16 \<le> m" "h = 4 \<Longrightarrow> m < 16" using cp by auto
    define rs :: "(nat \<times> nat) list" where
      "rs = (if h = 0 then [(0x90, 0xBF), (0x80, 0xBF), (0x80, 0xBF)]
             else if h = 4 then [(0x80, 0x8F), (0x80, 0xBF), (0x80, 0xBF)]
             else [(0x80, 0xBF), (0x80, 0xBF), (0x80, 0xBF)])"
    have "utf8_tail (0xF0 + h) = Some rs" using h(1) by (auto simp: utf8_tail_def rs_def)
    moreover have "in_ranges rs [char_of (0x80 + m), char_of (0x80 + cp div 64 mod 64), char_of (0x80 + cp mod 64)]"
      using h m low(1,2) by (auto simp: rs_def)
    moreover have "add_codepoint cp = char_of (0xF0 + h) #
        [char_of (0x80 + m), char_of (0x80 + cp div 64 mod 64), char_of (0x80 + cp mod 64)]"
      using 4 by (simp add: add_codepoint_def h_def m_def)
    ultimately show ?thesis using h(1) by (simp add: utf8_chunk)
  qed
qed

lemma hex_val_less: "hex_val c = Some d \<Longrightarrow> d < 16"
  by (auto simp: hex_val_def split: if_splits)

lemma get_codepoint_less: "get_codepoint s = Some (cp, t) \<Longrightarrow> cp < 65536"
  by (auto simp: get_codepoint_def split: list.splits Option.bind_splits dest!: hex_val_less)

lemma scan_unicode_utf8: "scan_unicode s = Some (bs, t) \<Longrightarrow> utf8 bs"
proof -
  assume s: "scan_unicode s = Some (bs, t)"
  then obtain cp1 s1 where c1: "get_codepoint s = Some (cp1, s1)"
    by (auto simp: scan_unicode_def split: option.splits)
  show ?thesis
  proof (cases "0xD800 \<le> cp1 \<and> cp1 \<le> 0xDBFF")
    case True
    then obtain cp2 where "bs = add_codepoint (cp1 * 1024 + cp2 - 0x35FDC00)" "0xDC00 \<le> cp2" "cp2 \<le> 0xDFFF"
      using s c1 by (auto simp: scan_unicode_def split: list.splits option.splits if_splits)
    moreover have "65536 \<le> cp1 * 1024 + cp2 - 0x35FDC00 \<and> cp1 * 1024 + cp2 - 0x35FDC00 \<le> 0x10FFFF"
      using True calculation by auto
    ultimately show ?thesis by (simp add: utf8_add_codepoint)
  next
    case False
    then have "bs = add_codepoint cp1" "\<not> (0xDC00 \<le> cp1 \<and> cp1 \<le> 0xDFFF)"
      using s c1 by (auto simp: scan_unicode_def split: if_splits)
    then show ?thesis using False get_codepoint_less [OF c1] by (auto intro: utf8_add_codepoint)
  qed
qed

lemma scan_escape_utf8: "scan_escape s = Some (bs, t) \<Longrightarrow> utf8 bs"
  by (auto simp: scan_escape_def utf8_ascii_all split: list.splits if_splits
      intro: scan_unicode_utf8)

lemma scan_plain_utf8: "scan_plain c t = Some (bs, u) \<Longrightarrow> utf8 bs"
  by (auto simp: scan_plain_def is_plain_ascii_def utf8_ascii_all split: if_splits option.splits
      intro: utf8_chunk dest!: next_byte_in_rangeD)

lemma scan_string_utf8: "scan_string s = Some (v, r) \<Longrightarrow> utf8 v"
proof (induction s arbitrary: v r rule: scan_string.induct)
  case (1 s)
  show ?case
  proof (cases s)
    case (Cons c t)
    show ?thesis
    proof (cases "cv c = 0x22")
      case True
      then show ?thesis using 1(2) Cons by (simp add: scan_string.simps [of "c # t"] utf8_Nil)
    next
      case False
      then obtain bs u cs where u: "(if cv c = 0x5C then scan_escape t else scan_plain c t) = Some (bs, u)"
        "scan_string u = Some (cs, r)" "v = bs @ cs"
        using 1(2) Cons by (auto simp: scan_string.simps [of "c # t"] simp del: if_split split: option.splits)
      have "utf8 bs" using u(1) by (auto split: if_splits intro: scan_escape_utf8 scan_plain_utf8)
      moreover have "utf8 cs" using 1(1) [OF Cons False u(1) refl u(2)] .
      ultimately show ?thesis using u(3) by (simp add: utf8_append)
    qed
  qed (use 1(2) in \<open>simp add: scan_string.simps\<close>)
qed

text \<open>ASCII text in front does not matter.\<close>

lemma utf8_Nil_iff [simp]: "utf8 []"
  by (rule utf8_Nil)

lemma utf8_Cons_ascii [simp]: "cv c < 0x80 \<Longrightarrow> utf8 (c # s) \<longleftrightarrow> utf8 s"
proof
  assume c: "cv c < 0x80" and "utf8 (c # s)"
  from this(2) show "utf8 s"
    by (cases rule: utf8.cases) (use c in \<open>auto simp: utf8_tail_def split: if_splits\<close>)
qed (rule utf8_ascii)

definition ascii :: "string \<Rightarrow> bool" where
  "ascii s \<longleftrightarrow> (\<forall>c \<in> set s. cv c < 0x80)"

lemma utf8_append_ascii: "ascii p \<Longrightarrow> utf8 (p @ s) \<longleftrightarrow> utf8 s"
  by (induction p) (auto simp: ascii_def)

lemma ascii_nat_str: "ascii (nat_str n)" and ascii_int_str: "ascii (int_str i)"
  using nat_str_digits by (fastforce simp: ascii_def int_str_def is_digit_def)+

lemmas utf8_numbers [simp] = utf8_append_ascii [OF ascii_nat_str] utf8_append_ascii [OF ascii_int_str]
  utf8_append_ascii [OF ascii_nat_str, of _ "[]", simplified]
  utf8_append_ascii [OF ascii_int_str, of _ "[]", simplified]

section \<open>Values with well-formed strings\<close>

fun json_utf8 :: "json \<Rightarrow> bool" where
  "json_utf8 (JString s) = utf8 s"
| "json_utf8 (JArray js) = list_all json_utf8 js"
| "json_utf8 (JObject m) = list_all (\<lambda>(k, v). utf8 k \<and> json_utf8 v) m"
| "json_utf8 _ = True"

section \<open>Dumping succeeds\<close>

fun all_floats :: "(double \<Rightarrow> bool) \<Rightarrow> json \<Rightarrow> bool" where
  "all_floats P (JFloat x) = P x"
| "all_floats P (JArray js) = list_all (all_floats P) js"
| "all_floats P (JObject m) = list_all (\<lambda>(k, v). all_floats P v) m"
| "all_floats P _ = True"

definition float_dumps :: "double \<Rightarrow> bool" where
  "float_dumps x \<longleftrightarrow> (\<exists>s. dump_float x = Ret s)"

definition dumpable :: "json \<Rightarrow> bool" where
  "dumpable j \<longleftrightarrow> json_utf8 j \<and> all_floats float_dumps j"

lemma dump_string_total: "utf8 s \<Longrightarrow> \<exists>t. dump_string s = Ret t"
  using utf8_dump [of s 0] by (auto simp: dump_string_def)

lemma comma_separated_total: "\<forall>x \<in> set xs. \<exists>s. x = Ret s \<Longrightarrow> \<exists>s. comma_separated xs = Ret s"
  by (induction xs rule: comma_separated.induct) auto

lemma enclose_total: "\<exists>s. x = Ret s \<Longrightarrow> \<exists>s. enclose l r x = Ret s"
  by (auto simp: enclose_def)

lemma dump_total: "dumpable j \<Longrightarrow> \<exists>s. dump j = Ret s"
proof (induction j)
  case (JArray js)
  then have "\<forall>k \<in> set js. dumpable k" by (auto simp: dumpable_def list_all_iff)
  then have "\<forall>x \<in> set (map dump js). \<exists>s. x = Ret s" using JArray.IH by auto
  then show ?case using comma_separated_total enclose_total by simp
next
  case (JObject m)
  have "\<exists>s. dump_member k (dump v) = Ret s" if "(k, v) \<in> set m" for k v
  proof -
    have "dumpable v" "utf8 k" using that JObject.prems by (auto simp: dumpable_def list_all_iff)
    then have "\<exists>s. dump v = Ret s" "\<exists>t. dump_string k = Ret t"
      using JObject.IH [OF that] dump_string_total by auto
    then show ?thesis by (auto simp: dump_member_def)
  qed
  then show ?case by (auto intro!: enclose_total comma_separated_total)
qed (auto simp: dumpable_def float_dumps_def dump_string_total)

lemma float_dumps_double: "fl x = x \<Longrightarrow> float_dumps x"
  using to_chars_total [of x] by (cases "\<bar>x\<bar> < pow2 1024") (auto simp: float_dumps_def dump_float_def)

text \<open>Objects and members, for building replies.\<close>

lemma dumpable_simps [simp]:
  "dumpable JNull" "dumpable (JBool b)" "dumpable (JInt i)" "dumpable (JUInt n)"
  "dumpable (JString s) \<longleftrightarrow> utf8 s" "dumpable (JFloat x) \<longleftrightarrow> float_dumps x"
  "dumpable (JArray js) \<longleftrightarrow> list_all dumpable js"
  "dumpable (JObject m) \<longleftrightarrow> list_all (\<lambda>(k, v). utf8 k \<and> dumpable v) m"
  by (auto simp: dumpable_def list_all_iff)

lemma dumpable_emplace:
  "list_all (\<lambda>(k, v). utf8 k \<and> dumpable v) m \<Longrightarrow> utf8 k \<Longrightarrow> dumpable v \<Longrightarrow>
     list_all (\<lambda>(k, v). utf8 k \<and> dumpable v) (obj_emplace k v m)"
  by (induction k v m rule: obj_emplace.induct) auto

lemma dumpable_assign:
  "list_all (\<lambda>(k, v). utf8 k \<and> dumpable v) m \<Longrightarrow> utf8 k \<Longrightarrow> dumpable v \<Longrightarrow>
     list_all (\<lambda>(k, v). utf8 k \<and> dumpable v) (obj_assign k v m)"
  by (induction k v m rule: obj_assign.induct) auto

lemma is_pairD: "is_pair e \<Longrightarrow> \<exists>k v. e = JArray [JString k, v]"
  by (auto elim: is_pair.elims)

lemma dumpable_init:
  assumes "list_all dumpable es" shows "dumpable (json_init es)"
proof (cases "list_all is_pair es")
  case True
  have "list_all (\<lambda>(k, v). utf8 k \<and> dumpable v)
      (foldl (\<lambda>m e. obj_emplace (pair_key e) (pair_val e) m) m es)"
    if "list_all (\<lambda>(k, v). utf8 k \<and> dumpable v) m" for m
    using that True assms
  proof (induction es arbitrary: m)
    case (Cons e es)
    then obtain k v where "e = JArray [JString k, v]" using is_pairD [of e] by auto
    then have "utf8 (pair_key e) \<and> dumpable (pair_val e)" using Cons.prems by simp
    then show ?case using Cons by (simp add: dumpable_emplace)
  qed simp
  from this [of "[]"] show ?thesis using True by (simp add: json_init_def)
qed (use assms in \<open>simp add: json_init_def\<close>)

lemma dumpable_set: "dumpable j \<Longrightarrow> utf8 k \<Longrightarrow> dumpable v \<Longrightarrow> json_set k v j = Ret j' \<Longrightarrow> dumpable j'"
  by (auto simp: json_set_def dumpable_assign split: json.splits)

section \<open>Values the parser delivers\<close>

fun frame_dumpable :: "frame \<Rightarrow> bool" where
  "frame_dumpable (Open_array js) = list_all dumpable js"
| "frame_dumpable (Open_object m k) = (utf8 k \<and> list_all (\<lambda>(k, v). utf8 k \<and> dumpable v) m)"

definition token_ok :: "token \<Rightarrow> bool" where
  "token_ok t = (case t of T_string s \<Rightarrow> utf8 s | T_float (Some r) \<Rightarrow> float_dumps r | _ \<Rightarrow> True)"

lemma strtod_double: "strtod buf = Some r \<Longrightarrow> float_dumps r"
  by (intro float_dumps_double) (auto simp: strtod_def Let_def fl_minus split: prod.splits if_splits)

lemma number_token_ok [simp]: "token_ok (number_token ty buf)"
  by (cases "strtod buf") (simp_all add: number_token_def token_ok_def strtod_double split: num_type.split)

lemma scan_literal_token: "scan_literal ls tok s = (t, r) \<Longrightarrow> t = tok \<or> t = T_parse_error"
  by (induction ls tok s rule: scan_literal.induct) (auto split: if_splits)

lemma scan_token_ok: "scan_token c t = (tok, r) \<Longrightarrow> token_ok tok"
  by (auto simp: scan_token_def scan_number_def structural_def literal_def token_ok_def
      split: if_split_asm option.split_asm dest: scan_string_utf8 dest!: scan_literal_token
      intro: number_token_ok [unfolded token_ok_def])

lemma scan_ok: "scan s = (t, r) \<Longrightarrow> token_ok t"
  by (auto simp: scan_def split: list.splits dest: scan_token_ok) (simp add: token_ok_def)

lemma parse_key_ok: "parse_key s = Some (k, t, r) \<Longrightarrow> utf8 k \<and> token_ok t"
proof -
  assume p: "parse_key s = Some (k, t, r)"
  obtain t1 s1 t2 s2 where s: "scan s = (t1, s1)" "scan s1 = (t2, s2)" by fastforce
  then have "t1 = T_string k" "scan s2 = (t, r)" using p
    by (auto simp: parse_key_def split: token.splits)
  then show ?thesis using scan_ok [OF s(1)] scan_ok by (auto simp: token_ok_def)
qed

lemma scalar_ok: "scalar t = Some v \<Longrightarrow> token_ok t \<Longrightarrow> dumpable v"
  by (cases t) (auto simp: token_ok_def split: option.splits elim: scalar.elims)

lemma parse_dumpable_aux:
  "parse_value fs t s = Ret (v, r) \<Longrightarrow> list_all frame_dumpable fs \<Longrightarrow> token_ok t \<Longrightarrow> dumpable v"
  "parse_after fs w s = Ret (v, r) \<Longrightarrow> list_all frame_dumpable fs \<Longrightarrow> dumpable w \<Longrightarrow> dumpable v"
proof (induction fs t s and fs w s rule: parse_value_parse_after.induct)
  case (1 fs s)
  then show ?case
    by (auto simp: parse_value.simps split: prod.splits if_splits option.splits dest!: parse_key_ok)
next
  case (2 fs s)
  then show ?case
    by (auto simp: parse_value.simps split: prod.splits if_splits dest: scan_ok)
next
  case (6 xs fs v s)
  then show ?case
    by (auto simp: parse_after.simps split: prod.splits if_splits dest: scan_ok)
next
  case (7 m k fs v s)
  then show ?case
    by (auto simp: parse_after.simps dumpable_assign split: prod.splits if_splits option.splits
        dest!: parse_key_ok)
qed (auto simp: parse_value.simps parse_after.simps token_ok_def split: option.splits)

lemma skip_bom_scan: "scan_first raw = (t, s) \<Longrightarrow> token_ok t"
  by (auto simp: scan_first_def split: option.splits dest: scan_ok) (simp add: token_ok_def)

lemma parse_dumpable: "parse raw = Ret j \<Longrightarrow> dumpable j"
  by (auto simp: parse_def split: prod.splits exc.splits if_splits
      dest!: skip_bom_scan intro: parse_dumpable_aux(1))

lemma parse_json_utf8: "parse raw = Ret j \<Longrightarrow> json_utf8 j"
  using parse_dumpable by (simp add: dumpable_def)

end
