(* ===== verification/HandlerProps.thy ===== *)
theory HandlerProps
  imports RequestHandler JsonTotal
begin

text \<open>
  The request handler: every reply is an object with a status, the game only moves by its own
  operations, a refused request changes nothing, and the counters agree.
\<close>

section \<open>Validation\<close>

lemma requireInt_cases:
  obtains (missing) "\<not> contains j k" "requireInt j k = Some (Ret (Inl (missing_field k)))"
  | (kind) v where "json_get j k = Some v" "\<not> is_number_integer v"
      "requireInt j k = Some (Ret (Inl (wrong_type k ''an integer'')))"
  | (ok) v i where "json_get j k = Some v" "get_int v = Some (Ret i)" "in_i32 i"
      "requireInt j k = Some (Ret (Inr i))"
proof (cases "json_get j k")
  case None
  then show ?thesis using missing by (simp add: requireInt_def contains_iff_get)
next
  case (Some v)
  then show ?thesis using kind ok get_int_integer [of v]
    by (cases "is_number_integer v") (auto simp: requireInt_def contains_iff_get)
qed

lemma requireString_cases:
  obtains (missing) "\<not> contains j k" "requireString j k = Some (Ret (Inl (missing_field k)))"
  | (kind) v where "json_get j k = Some v" "\<not> is_string v"
      "requireString j k = Some (Ret (Inl (wrong_type k ''a string'')))"
  | (ok) s where "json_get j k = Some (JString s)" "requireString j k = Some (Ret (Inr s))"
proof (cases "json_get j k")
  case None
  then show ?thesis using missing by (simp add: requireString_def contains_iff_get)
next
  case (Some v)
  then show ?thesis using kind ok
    by (cases v) (auto simp: requireString_def contains_iff_get is_string_def get_string_def)
qed

text \<open>A guard is passed, or the request is answered with an error in the same state.\<close>

lemma utf8_field_errors [simp]:
  "utf8 k \<Longrightarrow> utf8 (missing_field k)" "utf8 k \<Longrightarrow> utf8 t \<Longrightarrow> utf8 (wrong_type k t)"
  by (simp_all add: missing_field_def wrong_type_def utf8_append)

lemma required_int_cases:
  assumes "utf8 k"
  obtains (err) e where "utf8 e"
      and "\<And>rest. required (requireInt j k) s rest = Some (Ret (errorResponse e), s)"
  | (pass) i where "in_i32 i" and "requireInt j k = Some (Ret (Inr i))"
      and "\<And>rest. required (requireInt j k) s rest = rest i"
proof (cases rule: requireInt_cases [of j k])
  case missing
  show ?thesis by (rule err [of "missing_field k"]) (simp_all add: assms required_def missing)
next
  case (kind v)
  show ?thesis by (rule err [of "wrong_type k ''an integer''"]) (simp_all add: assms required_def kind)
next
  case (ok v i)
  show ?thesis by (rule pass [of i]) (simp_all add: required_def ok)
qed

lemma json_get_utf8: "json_utf8 j \<Longrightarrow> json_get j k = Some v \<Longrightarrow> json_utf8 v"
  by (cases j) (auto simp: json_get_def list_all_iff dest!: map_of_SomeD)

lemma required_string_cases:
  assumes "utf8 k" and "json_utf8 j"
  obtains (err) e where "utf8 e"
      and "\<And>rest. required (requireString j k) s rest = Some (Ret (errorResponse e), s)"
  | (pass) t where "utf8 t" and "requireString j k = Some (Ret (Inr t))"
      and "\<And>rest. required (requireString j k) s rest = rest t"
proof (cases rule: requireString_cases [of j k])
  case missing
  show ?thesis by (rule err [of "missing_field k"]) (simp_all add: assms required_def missing)
next
  case (kind v)
  show ?thesis by (rule err [of "wrong_type k ''a string''"]) (simp_all add: assms required_def kind)
next
  case (ok t)
  then show ?thesis using pass [of t] json_get_utf8 [OF assms(2) ok(1)] by (simp add: required_def)
qed

section \<open>The shape of replies\<close>

definition status_of :: "json \<Rightarrow> string option" where
  "status_of j = (case json_get j ''status'' of Some (JString s) \<Rightarrow> Some s | _ \<Rightarrow> None)"

lemma json_value_status: "status_of j = Some st \<Longrightarrow> json_value j ''status'' d = Ret st"
  by (auto simp: status_of_def json_get_def json_value_def get_string_def
      split: json.splits option.splits)

text \<open>Looking a key up in an object that was written as a list of pairs.\<close>

lemma foldl_emplace_map_of:
  "obj_sorted m \<Longrightarrow> obj_sorted (foldl (\<lambda>m e. obj_emplace (pair_key e) (pair_val e) m) m es) \<and>
   map_of (foldl (\<lambda>m e. obj_emplace (pair_key e) (pair_val e) m) m es) =
     map_of (map (\<lambda>e. (pair_key e, pair_val e)) es) ++ map_of m"
proof (induction es arbitrary: m)
  case (Cons e es)
  have "map_of (obj_emplace (pair_key e) (pair_val e) m) =
      [pair_key e \<mapsto> pair_val e] ++ map_of m"
    using Cons.prems by (auto simp: map_of_obj_emplace map_add_def fun_eq_iff split: option.splits)
  then show ?case using Cons by (simp add: fun_eq_iff map_add_def split: option.splits)
qed (simp add: map_add_def)

text \<open>The pairs of an object that is written out.\<close>

definition entries_of :: "json list \<Rightarrow> (string \<times> json) list" where
  "entries_of es = map (\<lambda>e. (pair_key e, pair_val e)) es"

lemma entries_simps [simp]: "entries_of [] = []"
  "entries_of (JArray [JString k, v] # es) = (k, v) # entries_of es"
  by (simp_all add: entries_of_def)

lemma json_init_obj:
  assumes "list_all is_pair es"
  obtains m where "json_init es = JObject m" and "obj_sorted m" and "map_of m = map_of (entries_of es)"
  using foldl_emplace_map_of [of "[]" es] assms
  by (auto simp: json_init_def obj_sorted_def entries_of_def)

lemma json_init_get: "list_all is_pair es \<Longrightarrow> json_get (json_init es) k = map_of (entries_of es) k"
  by (elim json_init_obj) (simp add: json_get_def)

lemma json_set_init:
  assumes "list_all is_pair es"
  obtains m where "json_set k v (json_init es) = Ret (JObject m)" and "obj_sorted m"
    and "map_of m = (map_of (entries_of es))(k \<mapsto> v)"
  using assms by (elim json_init_obj) (auto simp: json_set_def map_of_obj_assign)

lemma status_init: "list_all is_pair es \<Longrightarrow>
    status_of (json_init es) = (case map_of (entries_of es) ''status'' of
       Some (JString s) \<Rightarrow> Some s | _ \<Rightarrow> None)"
  by (simp add: status_of_def json_init_get)

lemma status_error [simp]: "status_of (errorResponse e) = Some ''error''"
  by (simp add: errorResponse_def status_init)

text \<open>Setting the status and the action of an object written out (snapshots, metrics).\<close>

lemma set_status_action:
  assumes "list_all is_pair es" and "json_set ''status'' (JString ''ok'') (json_init es) = Ret j"
  obtains j' where "json_set ''action'' (JString a) j = Ret j'" and "status_of j' = Some ''ok''"
    and "json_get j' = (map_of (entries_of es))(''status'' \<mapsto> JString ''ok'', ''action'' \<mapsto> JString a)"
proof -
  obtain m where m: "j = JObject m" "obj_sorted m"
    "map_of m = (map_of (entries_of es))(''status'' \<mapsto> JString ''ok'')"
    by (rule json_set_init [OF assms(1), of "''status''" "JString ''ok''"]) (use assms(2) that in auto)
  show thesis
    by (rule that [of "JObject (obj_assign ''action'' (JString a) m)"])
       (use m in \<open>auto simp: json_set_def status_of_def json_get_def map_of_obj_assign fun_eq_iff\<close>)
qed

lemma set_status_init: "list_all is_pair es \<Longrightarrow> \<exists>j. json_set k v (json_init es) = Ret j"
  by (elim json_set_init) auto

lemma state_reply_ok: "\<exists>j. state_reply env s = Ret j \<and> status_of j = Some ''ok''"
proof -
  obtain es where es: "snapshot (e_iter env) (e_clk env) (s_game s) = json_init es" "list_all is_pair es"
    by (rule that, unfold snapshot_def Let_def, rule refl) simp
  then obtain j where j: "json_set ''status'' (JString ''ok'') (json_init es) = Ret j"
    using set_status_init by blast
  show ?thesis
    by (rule set_status_action [OF es(2) j, of "''GET_STATE''"]) (simp add: state_reply_def es(1) j)
qed

lemma attack_reply_ok: "\<exists>j. attack_reply pid target r = Ret j \<and> status_of j = Some ''ok''"
proof -
  define es where "es = [JArray [JString ''status'', JString ''ok''],
    JArray [JString ''action'', JString ''ATTACK''], JArray [JString ''attacker_id'', JInt pid],
    JArray [JString ''target_id'', JInt target], JArray [JString ''damage'', JInt (ar_damage r)],
    JArray [JString ''target_health'', JInt (ar_targetHealthAfter r)],
    JArray [JString ''attacker_score'', JInt (ar_attackerScore r)]]"
  have es: "list_all is_pair es" by (simp add: es_def)
  have r: "attack_reply pid target r =
      (if ar_targetEliminated r then json_set ''eliminated'' (JBool True) (json_init es)
       else Ret (json_init es))"
    by (simp add: attack_reply_def es_def)
  have "status_of (json_init es) = Some ''ok''" using es by (simp add: status_init) (simp add: es_def)
  moreover have "\<exists>j. json_set ''eliminated'' (JBool True) (json_init es) = Ret j \<and>
      status_of j = Some ''ok''"
    by (rule json_set_init [OF es, of "''eliminated''" "JBool True"])
       (simp add: status_of_def json_get_def, simp add: es_def)
  ultimately show ?thesis by (simp add: r)
qed

lemma metrics_reply_ok:
  "\<exists>j. handleGetMetrics s = Some (Ret j, s) \<and> status_of j = Some ''ok''"
proof -
  obtain es where es: "metrics_json (s_metrics s) = json_init es" "list_all is_pair es"
    by (rule that, unfold metrics_json_def Let_def, rule refl) simp
  then obtain j where j: "json_set ''status'' (JString ''ok'') (json_init es) = Ret j"
    using set_status_init by blast
  show ?thesis
    by (rule set_status_action [OF es(2) j, of "''GET_METRICS''"]) (simp add: handleGetMetrics_def es(1) j)
qed

section \<open>How one request moves the server\<close>

text \<open>
  The game moves by its operations, the request counters and the histogram are left to
  \<open>handle\<close>, and the cache and the database keep their invariants.
\<close>

definition same_requests :: "metrics \<Rightarrow> metrics \<Rightarrow> bool" where
  "same_requests m m' \<longleftrightarrow> m_requestsTotal m' = m_requestsTotal m \<and>
     m_successfulRequests m' = m_successfulRequests m \<and>
     m_failedRequests m' = m_failedRequests m \<and> m_latencyCount m' = m_latencyCount m \<and>
     m_latencyBucketCounts m' = m_latencyBucketCounts m"

definition stores_ok :: "server_state \<Rightarrow> bool" where
  "stores_ok s \<longleftrightarrow> (\<forall>c. s_cache s = Some c \<longrightarrow> cache_ok c) \<and> (\<forall>d. s_db s = Some d \<longrightarrow> db_ok d)"

definition log_printable :: "server_state \<Rightarrow> bool" where
  "log_printable s \<longleftrightarrow> (\<forall>ev \<in> set (m_events (s_game s)).
     utf8 (ev_event_type ev) \<and> utf8 (ev_data ev) \<and> in_i32 (ev_player_id ev))"

definition evolves :: "server_state \<Rightarrow> server_state \<Rightarrow> bool" where
  "evolves s s' \<longleftrightarrow> (\<exists>ops. runs game_step (s_game s) ops (s_game s')) \<and>
     same_requests (s_metrics s) (s_metrics s') \<and> (stores_ok s \<longrightarrow> stores_ok s') \<and>
     (log_printable s \<longrightarrow> log_printable s')"

lemma same_requests_refl [simp]: "same_requests m m"
  by (simp add: same_requests_def)

lemma same_requests_trans: "same_requests a b \<Longrightarrow> same_requests b c \<Longrightarrow> same_requests a c"
  by (simp add: same_requests_def)

lemma same_requests_simps [simp]:
  "same_requests m (setActivePlayers n m)"
  "same_requests m (incrementRedisCacheHits m)"
  "same_requests m (incrementRedisCacheMisses m)"
  "same_requests m (recordDatabaseOperation sec ok m)"
  by (simp_all add: same_requests_def metrics_counter_defs Let_def)

lemma evolves_refl [simp]: "evolves s s"
  by (auto simp: evolves_def)

lemma evolves_trans: "evolves s t \<Longrightarrow> evolves t u \<Longrightarrow> evolves s u"
  unfolding evolves_def by (blast intro: same_requests_trans runs_append)

lemma evolves_game:
  "game_step (s_game s) op g \<Longrightarrow> m_events g = m_events (s_game s) \<Longrightarrow> evolves s (s\<lparr>s_game := g\<rparr>)"
  by (auto simp: evolves_def stores_ok_def log_printable_def)

lemma recordEvent_events:
  "ev \<in> set (m_events (recordEvent now pid ty dat s)) \<Longrightarrow>
     ev \<in> set (m_events s) \<or> ev_event_type ev = ty \<and> ev_data ev = dat \<and> ev_player_id ev = pid"
  by (cases "m_events s")
     (auto simp: recordEvent_def fetch_event_id_def push_event_def Let_def split: if_splits)

lemma evolves_log_event [simp]:
  assumes "utf8 ty" and "utf8 dat" and "in_i32 pid" shows "evolves s (log_event env pid ty dat s)"
proof -
  have "game_step (s_game s) (RecordEvent (e_now env) pid ty dat) (s_game (log_event env pid ty dat s))"
    using game_step.event by (simp add: log_event_def)
  moreover have "log_printable s \<Longrightarrow> log_printable (log_event env pid ty dat s)"
    using assms by (auto simp: log_printable_def log_event_def dest!: recordEvent_events)
  moreover have "stores_ok (log_event env pid ty dat s) = stores_ok s"
      "s_metrics (log_event env pid ty dat s) = s_metrics s"
    by (simp_all add: stores_ok_def log_event_def)
  ultimately show ?thesis unfolding evolves_def by auto
qed

lemma evolves_metrics: "same_requests (s_metrics s) m \<Longrightarrow> evolves s (s\<lparr>s_metrics := m\<rparr>)"
  by (auto simp: evolves_def stores_ok_def log_printable_def)

lemma evolves_update_gauge [simp]: "evolves s (update_gauge s)"
  unfolding update_gauge_def by (rule evolves_metrics) simp

definition cache_body_ok ::
    "(cache_manager \<times> metrics \<Rightarrow> unit exc \<times> cache_manager \<times> metrics) \<Rightarrow> bool" where
  "cache_body_ok body \<longleftrightarrow> (\<forall>c m r c' m'. body (c, m) = (r, c', m') \<longrightarrow>
     same_requests m m' \<and> (cache_ok c \<longrightarrow> cache_ok c'))"

lemma runs_refl [simp]: "\<exists>ops. runs step s ops s"
  by blast

lemma evolves_if_cache: "cache_body_ok body \<Longrightarrow> if_cache body s = (r, s') \<Longrightarrow> evolves s s'"
  by (auto simp: if_cache_def cache_body_ok_def evolves_def stores_ok_def log_printable_def
      split: option.splits if_splits prod.splits)

lemma cache_ok_snd [simp]: "cache_ok c \<Longrightarrow> cache_ok (snd (on_pool a d f c))"
  by (metis on_pool_ok prod.collapse)

lemma cache_ops_ok [simp]:
  "cache_ok c \<Longrightarrow> cache_ok (snd (setPlayerSession a pid j ttl c))"
  "cache_ok c \<Longrightarrow> cache_ok (snd (setPlayerPosition a pid x y c))"
  "cache_ok c \<Longrightarrow> cache_ok (snd (deletePlayerSession a pid c))"
  by (simp_all add: cache_op_defs)

lemma getPlayerSession_ok:
  assumes "getPlayerSession a pid (c, m) = (r, c', m')"
  shows "same_requests m m'" and "cache_ok c \<Longrightarrow> cache_ok c'"
proof -
  obtain q c1 where q: "on_pool a (Ret None) (\<lambda>r. redis_get r (session_key pid)) c = (q, c1)"
    by fastforce
  then have *: "c' = c1 \<and> same_requests m m'" using assms
    by (auto simp: getPlayerSession_def split: exc.splits option.splits)
  then show "same_requests m m'" by simp
  show "cache_ok c'" if "cache_ok c" using on_pool_ok [OF that q] * by simp
qed

lemma cache_body_session:
  "cache_body_ok (\<lambda>(c, m). case setPlayerSession a pid j ttl c of
      (Throw e, c1) \<Rightarrow> (Throw e, c1, m)
    | (Ret _, c1) \<Rightarrow> (Ret (), snd (setPlayerPosition b pid x y c1), m))"
  unfolding cache_body_ok_def
proof (intro allI impI)
  fix c and m :: metrics and r c' m'
  assume *: "(case (c, m) of (c, m) \<Rightarrow> case setPlayerSession a pid j ttl c of
      (Throw e, c1) \<Rightarrow> (Throw e, c1, m)
    | (Ret _, c1) \<Rightarrow> (Ret (), snd (setPlayerPosition b pid x y c1), m)) = (r, c', m')"
  obtain q c1 where "setPlayerSession a pid j ttl c = (q, c1)" by fastforce
  then show "same_requests m m' \<and> (cache_ok c \<longrightarrow> cache_ok c')"
    using * cache_ops_ok(1) [of c a pid j ttl] by (auto split: exc.splits)
qed

lemma cache_body_position: "cache_body_ok (\<lambda>(c, m). (Ret (), snd (setPlayerPosition a pid x y c), m))"
  by (auto simp: cache_body_ok_def)

lemma cache_body_delete: "cache_body_ok (\<lambda>(c, m). (Ret (), snd (deletePlayerSession a pid c), m))"
  by (auto simp: cache_body_ok_def)

lemma cache_body_lookup:
  "cache_body_ok (\<lambda>cm. case getPlayerSession a pid cm of
      (Throw e, c, m) \<Rightarrow> (Throw e, c, m) | (Ret _, c, m) \<Rightarrow> (Ret (), c, m))"
  unfolding cache_body_ok_def
proof (intro allI impI)
  fix c m r c' m'
  assume *: "(case getPlayerSession a pid (c, m) of
      (Throw e, c, m) \<Rightarrow> (Throw e, c, m) | (Ret _, c, m) \<Rightarrow> (Ret (), c, m)) = (r, c', m')"
  obtain q c1 m1 where g: "getPlayerSession a pid (c, m) = (q, c1, m1)" by (metis prod.collapse)
  show "same_requests m m' \<and> (cache_ok c \<longrightarrow> cache_ok c')"
    using * getPlayerSession_ok [OF g] by (auto simp: g split: exc.splits)
qed

lemma upsert_same_requests:
  "upsertPlayer a pid u sc k d m = (ok, d', m') \<Longrightarrow> same_requests m m'"
  by (auto simp: upsertPlayer_def Let_def split: prod.splits bool.splits if_splits)

lemma recordEvent_same_requests:
  "db_recordEvent a mid pid ty dat d m = (ok, d', m') \<Longrightarrow> same_requests m m' \<and> t_players d' = t_players d"
  by (auto simp: db_recordEvent_def sql_insert_event_def Let_def
      split: prod.splits bool.splits if_splits dest!: db_open_split)

lemma evolves_persist [simp]: "evolves s (if_db (persist env pid sc ty dat) s)"
proof (cases "s_db s")
  case (Some d)
  obtain ok1 d1 m1 where u: "upsertPlayer (e_mysql env 0) pid (''Player_'' @ int_str pid) sc 0 d
      (s_metrics s) = (ok1, d1, m1)" by (metis prod.collapse)
  obtain ok2 d2 m2 where r: "db_recordEvent (e_mysql env 1) ''match_1'' pid ty dat d1 m1 = (ok2, d2, m2)"
    by (metis prod.collapse)
  have "same_requests (s_metrics s) m2" "db_ok d \<longrightarrow> db_ok d2"
    using upsert_same_requests [OF u] recordEvent_same_requests [OF r] upsertPlayer_ok [OF u]
    by (auto intro: same_requests_trans simp: db_ok_def)
  then show ?thesis using Some u r by (auto simp: if_db_def persist_def evolves_def stores_ok_def log_printable_def)
qed (simp add: if_db_def)

section \<open>Replies that can be printed\<close>

lemma utf8_matchStatus [simp]: "utf8 (matchStatusString st)"
  by (cases st) (simp_all)

lemma dumpable_error [simp]: "utf8 e \<Longrightarrow> dumpable (errorResponse e)"
  unfolding errorResponse_def by (rule dumpable_init) simp

lemma utf8_not_in_game [simp]: "utf8 w \<Longrightarrow> utf8 (not_in_game w pid)"
  by (simp add: not_in_game_def utf8_append)

lemma dumpable_player: "dumpable (player_json now p)"
  unfolding player_json_def
  by (rule dumpable_init) (simp add: float_dumps_double fl_duration_seconds)

lemma dumpable_event: "utf8 (ev_event_type ev) \<Longrightarrow> utf8 (ev_data ev) \<Longrightarrow> dumpable (event_json ev)"
  unfolding event_json_def by (rule dumpable_init) simp

lemma dumpable_snapshot: "log_printable s \<Longrightarrow> dumpable (snapshot perm clk (s_game s))"
  unfolding snapshot_def Let_def
  by (rule dumpable_init)
     (auto simp: list_all_iff log_printable_def dumpable_player float_dumps_double fl_duration_seconds
       intro!: dumpable_event dest: in_set_dropD)

lemma dumpable_metrics: "dumpable (metrics_json m)"
  unfolding metrics_json_def Let_def
  by (rule dumpable_init) (auto simp: float_dumps_double fl_arith)

lemma dumpable_state_reply: "state_reply env s = Ret j \<Longrightarrow> log_printable s \<Longrightarrow> dumpable j"
  by (auto simp: state_reply_def split: exc.splits
      elim!: dumpable_set [rotated 3] intro: dumpable_snapshot)

section \<open>Outcomes\<close>

text \<open>Refused in the same state, or done; an exception leaves a state like that of a done request.\<close>

definition outcome :: "server_state \<Rightarrow> json exc \<Rightarrow> server_state \<Rightarrow> bool" where
  "outcome s r s' \<longleftrightarrow> (\<exists>e. utf8 e \<and> r = Ret (errorResponse e) \<and> s' = s) \<or>
     (evolves s s' \<and>
      (\<forall>j. r = Ret j \<longrightarrow> status_of j = Some ''ok'' \<and> (log_printable s \<longrightarrow> dumpable j)))"

lemma outcome_error [simp]: "utf8 e \<Longrightarrow> outcome s (Ret (errorResponse e)) s"
  by (auto simp: outcome_def)

lemma outcome_done:
  "evolves s s' \<Longrightarrow> status_of j = Some ''ok'' \<Longrightarrow> (log_printable s \<Longrightarrow> dumpable j) \<Longrightarrow> outcome s (Ret j) s'"
  by (simp add: outcome_def)

lemma outcome_throw: "evolves s s' \<Longrightarrow> outcome s (Throw e) s'"
  by (simp add: outcome_def)

text \<open>Handlers as predicates on what they may return.\<close>

definition sound :: "server_state \<Rightarrow> reply \<Rightarrow> bool" where
  "sound s r \<longleftrightarrow> (\<forall>x s'. r = Some (x, s') \<longrightarrow> outcome s x s')"

lemma sound_simps [simp]:
  "sound s None" "sound s (Some (x, s')) \<longleftrightarrow> outcome s x s'"
  by (simp_all add: sound_def)

lemma sound_required_int:
  "utf8 k \<Longrightarrow> (\<And>i. in_i32 i \<Longrightarrow> sound s (rest i)) \<Longrightarrow> sound s (required (requireInt j k) s rest)"
  by (rule required_int_cases [of k j s]) auto

lemma sound_required_string:
  "utf8 k \<Longrightarrow> json_utf8 j \<Longrightarrow> (\<And>t. utf8 t \<Longrightarrow> sound s (rest t)) \<Longrightarrow>
     sound s (required (requireString j k) s rest)"
  by (rule required_string_cases [of k j s]) auto

lemma game_errors:
  "addPlayer clk pid g = (Inl e, g') \<Longrightarrow> g' = g \<and> utf8 e"
  "removePlayer pid g = (Inl e, g') \<Longrightarrow> g' = g \<and> utf8 e"
  "movePlayer pid x y g = (Inl e, g') \<Longrightarrow> g' = g \<and> utf8 e"
  "setScore pid sc g = (Inl e, g') \<Longrightarrow> g' = g \<and> utf8 e"
  by (auto simp: addPlayer_def removePlayer_def movePlayer_def setScore_def Let_def utf8_append
      split: option.splits if_splits)

lemma attack_errors: "attackPlayer a b g = Some (Inl e, g') \<Longrightarrow> g' = g \<and> utf8 e"
  by (frule attack_cases) (auto simp: attackPlayer_def split: if_splits option.splits)

lemma op_events:
  "addPlayer clk pid s = (r1, g) \<Longrightarrow> m_events g = m_events s"
  "removePlayer pid s = (r2, g) \<Longrightarrow> m_events g = m_events s"
  "movePlayer pid x y s = (r1, g) \<Longrightarrow> m_events g = m_events s"
  "setScore pid sc s = (r1, g) \<Longrightarrow> m_events g = m_events s"
  by (auto simp: addPlayer_def removePlayer_def movePlayer_def setScore_def Let_def
      split: option.splits if_splits)

lemma evolves_op:
  "addPlayer clk pid (s_game s) = (r1, g) \<Longrightarrow> evolves s (s\<lparr>s_game := g\<rparr>)"
  "removePlayer pid (s_game s) = (r2, g) \<Longrightarrow> evolves s (s\<lparr>s_game := g\<rparr>)"
  "movePlayer pid x y (s_game s) = (r1, g) \<Longrightarrow> evolves s (s\<lparr>s_game := g\<rparr>)"
  "in_i32 sc \<Longrightarrow> setScore pid sc (s_game s) = (r1, g) \<Longrightarrow> evolves s (s\<lparr>s_game := g\<rparr>)"
  "attackPlayer a b (s_game s) = Some (r3, g) \<Longrightarrow> evolves s (s\<lparr>s_game := g\<rparr>)"
  using game_step.add [of "s_game s" clk pid] game_step.remove [of "s_game s" pid]
    game_step.move [of "s_game s" pid x y] game_step.score [of sc "s_game s" pid]
    game_step.attack [of a b "s_game s" r3 g] attack_frame(2) [of a b "s_game s" r3 g]
    op_events by (metis evolves_game snd_conv)+

text \<open>The shapes the handlers are made of.\<close>

lemma sound_game_op:
  assumes "\<And>e g. op = (Inl e, g) \<Longrightarrow> g = s_game s \<and> utf8 e" and "\<And>x g. op = (Inr x, g) \<Longrightarrow> sound s (K x g)"
  shows "sound s (case op of (Inl err, g) \<Rightarrow> Some (Ret (errorResponse err), s\<lparr>s_game := g\<rparr>)
                  | (Inr x, g) \<Rightarrow> K x g)"
proof -
  obtain r g where "op = (r, g)" by fastforce
  then show ?thesis using assms by (cases r) force+
qed

lemma sound_if:
  "(c \<Longrightarrow> sound s a) \<Longrightarrow> (\<not> c \<Longrightarrow> sound s b) \<Longrightarrow> sound s (if c then a else b)"
  by simp

lemma sound_if_cache:
  assumes "cache_body_ok body" and "evolves s s1" and "\<And>s2. evolves s s2 \<Longrightarrow> sound s (K s2)"
  shows "sound s (case if_cache body s1 of (Throw e, s2) \<Rightarrow> Some (Throw e, s2) | (Ret _, s2) \<Rightarrow> K s2)"
proof -
  obtain r s2 where i: "if_cache body s1 = (r, s2)" by fastforce
  then have "evolves s s2" using assms evolves_if_cache evolves_trans by blast
  then show ?thesis using i assms(3) by (cases r) (simp_all add: outcome_throw)
qed

lemma sound_after_cache:
  assumes "cache_body_ok body" and "evolves s s1" and "\<And>s2. evolves s s2 \<Longrightarrow> sound s (K s2)"
  shows "sound s (case if_cache body s1 of (_, s2) \<Rightarrow> K s2)"
proof -
  obtain r s2 where i: "if_cache body s1 = (r, s2)" by fastforce
  then have "evolves s s2" using assms evolves_if_cache evolves_trans by blast
  then show ?thesis using i assms(3) by simp
qed

lemmas evolves_more = evolves_trans [OF _ evolves_persist] evolves_trans [OF _ evolves_log_event]
  evolves_trans [OF _ evolves_update_gauge]

lemmas reply_simps = status_init utf8_append

lemma utf8_event_data [simp]:
  "utf8 (move_data x y)" "utf8 (attack_data target r)" "utf8 (chat_data m)"
  "utf8 (score_data i)" "utf8 (leave_data i)"
  by (simp_all add: move_data_def attack_data_def chat_data_def score_data_def leave_data_def utf8_append)

lemma sound_join: "sound s (handleJoin env req s)"
  unfolding handleJoin_def Let_def
  by (intro sound_required_int sound_game_op sound_if_cache cache_body_session)
     (auto simp: reply_simps dest: game_errors
       intro!: outcome_done evolves_more dumpable_init intro: evolves_op)

lemma sound_move: "sound s (handleMove env req s)"
  unfolding handleMove_def Let_def
  by (intro sound_required_int sound_game_op sound_after_cache cache_body_position)
     (auto simp: reply_simps dest: game_errors
       intro!: outcome_done evolves_more dumpable_init intro: evolves_op)

lemma sound_leave: "sound s (handleLeave env req s)"
  unfolding handleLeave_def Let_def
  by (intro sound_required_int sound_game_op sound_after_cache cache_body_delete)
     (auto simp: reply_simps dest: game_errors
       intro!: outcome_done evolves_more dumpable_init intro: evolves_op)

lemma sound_chat: "json_utf8 req \<Longrightarrow> sound s (handleChat env req s)"
  unfolding handleChat_def
  by (intro sound_required_int sound_required_string)
     (auto simp: reply_simps intro!: outcome_done dumpable_init)

lemma sound_score: "sound s (handleUpdateScore env req s)"
  unfolding handleUpdateScore_def
  by (intro sound_required_int sound_if sound_game_op)
     (auto simp: reply_simps dest: game_errors
       intro!: outcome_done evolves_more dumpable_init intro: evolves_op)

lemma dumpable_attack_reply: "attack_reply pid target r = Ret j \<Longrightarrow> dumpable j"
  by (auto simp: attack_reply_def Let_def split: if_splits
      elim!: dumpable_set [rotated 3] intro!: dumpable_init)

lemma sound_attack: "sound s (handleAttack env req s)"
  unfolding handleAttack_def Let_def
proof (intro sound_required_int)
  fix pid target :: int
  assume "in_i32 pid"
  show "sound s (case attackPlayer pid target (s_game s) of
         None \<Rightarrow> None
       | Some (Inl err, g) \<Rightarrow> Some (Ret (errorResponse err), s\<lparr>s_game := g\<rparr>)
       | Some (Inr r, g) \<Rightarrow> Some (attack_reply pid target r,
           log_event env pid ''ATTACK'' (attack_data target r) (s\<lparr>s_game := g\<rparr>)))"
  proof (cases "attackPlayer pid target (s_game s)")
    case (Some x)
    show ?thesis
    proof (cases x)
      case (Pair r g)
      show ?thesis
      proof (cases r)
        case (Inl e)
        then show ?thesis using Some Pair attack_errors [of pid target "s_game s" e g] by simp
      next
        case (Inr y)
        obtain j where j: "attack_reply pid target y = Ret j" "status_of j = Some ''ok''"
          using attack_reply_ok by blast
        have "evolves s (log_event env pid ''ATTACK'' (attack_data target y) (s\<lparr>s_game := g\<rparr>))"
          using Some Pair Inr \<open>in_i32 pid\<close> by (auto intro!: evolves_more intro: evolves_op)
        then show ?thesis using Some Pair Inr j by (simp add: outcome_done dumpable_attack_reply)
      qed
    qed
  qed simp
qed simp_all

lemma evolves_log: "evolves s s1 \<Longrightarrow> log_printable s \<Longrightarrow> log_printable s1"
  by (simp add: evolves_def)

lemma sound_state: "sound s (handleGetState env req s)"
proof -
  have reply: "sound s (Some (state_reply env s1, s1))" if "evolves s s1" for s1
    using state_reply_ok [of env s1] that dumpable_state_reply [of env s1] evolves_log [OF that]
    by (auto intro!: outcome_done)
  have missing: "sound s (Some (Ret (errorResponse (not_in_game ''player_id '' pid)), s))" for pid
    by simp
  show ?thesis
    unfolding handleGetState_def
    by (auto split: option.splits exc.splits if_splits
        intro!: reply missing sound_if_cache cache_body_lookup outcome_throw simp del: sound_simps(2))
       (simp_all add: outcome_throw)
qed

lemma dumpable_metrics_reply: "handleGetMetrics s = Some (Ret j, s') \<Longrightarrow> dumpable j"
  by (auto simp: handleGetMetrics_def split: exc.splits
      elim!: dumpable_set [rotated 3] intro: dumpable_metrics)

lemma sound_metrics: "sound s (handleGetMetrics s)"
  using metrics_reply_ok [of s] by (auto intro!: outcome_done dumpable_metrics_reply [of s])

lemma sound_dispatch:
  assumes "json_utf8 req" and "utf8 action" shows "sound s (dispatch_action env action req s)"
  using assms
  by (simp add: dispatch_action_def sound_join sound_move sound_attack sound_chat sound_state
      sound_score sound_leave sound_metrics del: sound_simps(2)) (simp add: utf8_append)

end
