(* ===== verification/Requests.thy ===== *)
theory Requests
  imports HandlerProps
begin

text \<open>
  \<open>RequestHandler::handle\<close> as a whole: every request gets one reply and is counted once, the
  server's invariant holds along any sequence of requests, and the only way out of defined
  behaviour is an attack whose score overflows.
\<close>

section \<open>The reply to one request\<close>

definition refusal :: "json \<Rightarrow> bool" where
  "refusal j \<longleftrightarrow> (\<exists>e. j = errorResponse e \<and> e \<noteq> ''internal server error'')"

lemma respond_served:
  assumes "json_utf8 req" and "utf8 action" and "log_printable s"
    and "respond env action req s = Some (j, s')"
  shows "evolves s s' \<and> dumpable j \<and>
     (status_of j = Some ''ok'' \<or> (\<exists>e. j = errorResponse e \<and> (s' = s \<or> \<not> refusal j)))"
proof -
  obtain r where r: "dispatch_action env action req s = Some (r, s')"
      "j = (case r of Ret x \<Rightarrow> x | Throw _ \<Rightarrow> errorResponse ''internal server error'')"
    using assms(4) by (auto simp: respond_def split: option.splits exc.splits)
  have o: "outcome s r s'" using sound_dispatch [OF assms(1,2), of s env] r(1) by simp
  show ?thesis
  proof (cases r)
    case (Ret x)
    then show ?thesis using o r(2) assms(3) by (auto simp: outcome_def)
  next
    case (Throw x)
    have "\<not> refusal (errorResponse ''internal server error'')"
      by (auto simp: refusal_def errorResponse_def json_init_def)
    then show ?thesis using o r(2) Throw by (auto simp: outcome_def)
  qed
qed

text \<open>How \<open>handle\<close> leaves the server: the counters, and what the request may have moved.\<close>

definition counts :: "bool \<Rightarrow> metrics \<Rightarrow> metrics \<Rightarrow> bool" where
  "counts ok m m' \<longleftrightarrow> m_requestsTotal m' = m_requestsTotal m + 1 \<and>
     m_latencyCount m' = m_latencyCount m + 1 \<and>
     m_successfulRequests m' = m_successfulRequests m + (if ok then 1 else 0) \<and>
     m_failedRequests m' = m_failedRequests m + (if ok then 0 else 1)"

definition serves :: "server_state \<Rightarrow> json \<Rightarrow> server_state \<Rightarrow> bool" where
  "serves s j s' \<longleftrightarrow> (\<exists>ops. runs game_step (s_game s) ops (s_game s')) \<and>
     (stores_ok s \<longrightarrow> stores_ok s') \<and> log_printable s' \<and> dumpable j \<and>
     counts (status_of j = Some ''ok'') (s_metrics s) (s_metrics s') \<and>
     (status_of j = Some ''ok'' \<or> (\<exists>e. j = errorResponse e)) \<and>
     (refusal j \<longrightarrow> s_game s' = s_game s \<and> s_cache s' = s_cache s \<and> s_db s' = s_db s)"

lemma with_metrics_simps [simp]:
  "s_game (with_metrics f s) = s_game s" "s_cache (with_metrics f s) = s_cache s"
  "s_db (with_metrics f s) = s_db s" "s_metrics (with_metrics f s) = f (s_metrics s)"
  "log_printable (with_metrics f s) = log_printable s" "stores_ok (with_metrics f s) = stores_ok s"
  by (simp_all add: with_metrics_def log_printable_def stores_ok_def)

lemma stop_timer_simps [simp]:
  "s_game (stop_timer env s) = s_game s" "s_cache (stop_timer env s) = s_cache s"
  "s_db (stop_timer env s) = s_db s" "log_printable (stop_timer env s) = log_printable s"
  "stores_ok (stop_timer env s) = stores_ok s"
  "s_metrics (stop_timer env s) =
     recordRequestLatency (duration_seconds (e_end env - e_start env)) (s_metrics s)"
  by (simp_all add: stop_timer_def)

lemma latency_simps [simp]:
  "m_requestsTotal (recordRequestLatency x m) = m_requestsTotal m"
  "m_successfulRequests (recordRequestLatency x m) = m_successfulRequests m"
  "m_failedRequests (recordRequestLatency x m) = m_failedRequests m"
  "m_latencyCount (recordRequestLatency x m) = m_latencyCount m + 1"
  by (simp_all add: recordRequestLatency_def Let_def)

lemma serves_invalid:
  assumes "log_printable s" and "utf8 e"
  shows "serves s (errorResponse e)
     (stop_timer env (with_metrics (incrementFailedRequests \<circ> incrementRequestsTotal) s))"
  using assms by (auto simp: serves_def counts_def incrementFailedRequests_def
      incrementRequestsTotal_def)

lemma serves_valid:
  assumes u: "json_utf8 req" "utf8 action" "log_printable s"
    and r: "respond env action req (with_metrics incrementRequestsTotal s) = Some (j, s1)"
  shows "\<exists>s2. count_result j s1 = (Ret (), s2) \<and> serves s j (stop_timer env s2)"
proof -
  let ?s0 = "with_metrics incrementRequestsTotal s"
  have o: "evolves ?s0 s1" "dumpable j"
      "status_of j = Some ''ok'' \<or> (\<exists>e. j = errorResponse e \<and> (s1 = ?s0 \<or> \<not> refusal j))"
    using respond_served [OF u(1,2) _ r] u(3) by simp_all
  then have "status_of j = Some ''ok'' \<or> status_of j = Some ''error''" by auto
  then obtain st where st: "status_of j = Some st" "st = ''ok'' \<or> st = ''error''" by blast
  then have c: "count_result j s1 = (Ret (), with_metrics
      (if st = ''ok'' then incrementSuccessfulRequests else incrementFailedRequests) s1)"
    by (simp add: count_result_def json_value_status)
  have same: "same_requests (incrementRequestsTotal (s_metrics s)) (s_metrics s1)"
    and game: "\<exists>ops. runs game_step (s_game s) ops (s_game s1)"
    and keeps: "stores_ok s \<longrightarrow> stores_ok s1" "log_printable s1"
    using o(1) u(3) by (simp_all add: evolves_def)
  have "\<not> refusal j" if "status_of j = Some ''ok''" using that by (auto simp: refusal_def)
  then have refused: "refusal j \<longrightarrow> s_game s1 = s_game s \<and> s_cache s1 = s_cache s \<and> s_db s1 = s_db s"
    using o(3) by auto
  have shape: "status_of j = Some ''ok'' \<or> (\<exists>e. j = errorResponse e)" using o(3) by blast
  have counted: "counts (status_of j = Some ''ok'') (s_metrics s)
      (recordRequestLatency d ((if st = ''ok'' then incrementSuccessfulRequests
         else incrementFailedRequests) (s_metrics s1)))" for d
    using same st by (auto simp: counts_def same_requests_def incrementRequestsTotal_def
        incrementSuccessfulRequests_def incrementFailedRequests_def)
  show ?thesis
    unfolding c serves_def using game keeps refused shape counted o(2) by simp
qed

lemma handle_cases:
  obtains (invalid) e where "utf8 e"
      and "\<And>req a. parse raw = Ret req \<Longrightarrow> json_get req ''action'' \<noteq> Some (JString a)"
      and "handle env raw s = Some (dump (errorResponse e), stop_timer env
             (with_metrics (incrementFailedRequests \<circ> incrementRequestsTotal) s))"
  | (valid) req action where "parse raw = Ret req"
      and "json_get req ''action'' = Some (JString action)"
      and "json_utf8 req" and "utf8 action"
      and "handle env raw s = map_option (\<lambda>(r, s'). (r, stop_timer env s'))
         (case respond env action req (with_metrics incrementRequestsTotal s) of
            None \<Rightarrow> None
          | Some (resp, s1) \<Rightarrow> (case count_result resp s1 of
               (Throw e, s2) \<Rightarrow> Some (Throw e, s2)
             | (Ret _, s2) \<Rightarrow> Some (dump resp, s2)))"
proof (cases "parse raw")
  case (Throw e)
  then show thesis by (intro invalid [of "''invalid JSON''"]) (simp_all add: handle_def)
next
  case (Ret req)
  show thesis
  proof (cases "\<exists>a. json_get req ''action'' = Some (JString a)")
    case True
    then obtain a where a: "json_get req ''action'' = Some (JString a)" by blast
    note u = parse_json_utf8 [OF Ret]
    have "utf8 a" using json_get_utf8 [OF u a] by simp
    then show thesis using Ret a u
      by (intro valid [of req a]) (simp_all add: handle_def contains_iff_get get_string_def)
  next
    case False
    then show thesis using Ret
      by (intro invalid [of "''missing action''"])
         (auto simp: handle_def contains_iff_get get_string_def split: option.splits json.splits)
  qed
qed

text \<open>Every request that returns has one reply, and that reply is printed.\<close>

lemma handle_serves:
  assumes "log_printable s" and "handle env raw s = Some (r, s')"
  shows "\<exists>j t. r = Ret t \<and> dump j = Ret t \<and> serves s j s'"
proof (cases rule: handle_cases [of raw env s])
  case (invalid e)
  obtain t where "dump (errorResponse e) = Ret t"
    using dump_total [OF dumpable_error [OF invalid(1)]] by blast
  then show ?thesis using invalid assms(2) serves_invalid [OF assms(1) invalid(1), of env] by auto
next
  case (valid req action)
  then obtain j s1 where r: "respond env action req (with_metrics incrementRequestsTotal s) = Some (j, s1)"
    using assms(2) by (auto split: option.splits)
  obtain s2 where s2: "count_result j s1 = (Ret (), s2)" "serves s j (stop_timer env s2)"
    using serves_valid [OF valid(3,4) assms(1) r] by blast
  obtain t where "dump j = Ret t" using dump_total s2(2) by (auto simp: serves_def)
  then show ?thesis using valid(5) r s2 assms(2) by auto
qed

section \<open>The only undefined behaviour\<close>

lemma requireInt_defined: "requireInt j k \<noteq> None"
  by (rule requireInt_cases [of j k]) simp_all

lemma requireString_defined: "requireString j k \<noteq> None"
  by (rule requireString_cases [of j k]) simp_all

lemma required_None: "r \<noteq> None \<Longrightarrow> required r s rest = None \<longleftrightarrow>
    (\<exists>x. r = Some (Ret (Inr x)) \<and> rest x = None)"
  by (auto simp: required_def split: option.splits exc.splits sum.splits)

lemmas required_defined = required_None [OF requireInt_defined] required_None [OF requireString_defined]

lemma handlers_defined:
  "handleJoin env req s \<noteq> None" "handleMove env req s \<noteq> None" "handleChat env req s \<noteq> None"
  "handleUpdateScore env req s \<noteq> None" "handleLeave env req s \<noteq> None" "handleGetMetrics s \<noteq> None"
  by (auto simp: handler_defs required_defined Let_def split: prod.splits sum.splits exc.splits)

lemma handleGetState_defined: "handleGetState env req s \<noteq> None"
  by (auto simp: handleGetState_def contains_iff_get split: prod.splits option.splits exc.splits
      dest: get_int_integer)

lemma handleAttack_undefined: "handleAttack env req s = None \<longleftrightarrow>
    (\<exists>a b. requireInt req ''player_id'' = Some (Ret (Inr a)) \<and>
       requireInt req ''target_id'' = Some (Ret (Inr b)) \<and> attackPlayer a b (s_game s) = None)"
proof -
  have *: "(case x of None \<Rightarrow> None | Some (Inl e, g) \<Rightarrow> Some (A e g) | Some (Inr r, g) \<Rightarrow> Some (B r g))
      = None \<longleftrightarrow> x = None" for x and A B :: "_ \<Rightarrow> _ \<Rightarrow> json exc \<times> server_state"
    by (auto split: option.splits prod.splits sum.splits)
  show ?thesis unfolding handleAttack_def required_defined Let_def * by simp
qed

lemma dispatch_undefined: "dispatch_action env action req s = None \<longleftrightarrow>
    action = ''ATTACK'' \<and> handleAttack env req s = None"
  by (simp add: dispatch_action_def handlers_defined handleGetState_defined del: not_None_eq)

text \<open>The request that asks for an attack between two ids.\<close>

definition asks_attack :: "string \<Rightarrow> int \<Rightarrow> int \<Rightarrow> bool" where
  "asks_attack raw a b \<longleftrightarrow> (\<exists>req. parse raw = Ret req \<and>
     json_get req ''action'' = Some (JString ''ATTACK'') \<and>
     requireInt req ''player_id'' = Some (Ret (Inr a)) \<and>
     requireInt req ''target_id'' = Some (Ret (Inr b)))"

lemma respond_undefined: "respond env action req s = None \<longleftrightarrow> dispatch_action env action req s = None"
  by (auto simp: respond_def split: option.splits prod.splits exc.splits)

lemma handle_undefined: "handle env raw s = None \<longleftrightarrow>
    (\<exists>a b. asks_attack raw a b \<and> attackPlayer a b (s_game s) = None)"
proof (cases rule: handle_cases [of raw env s])
  case (invalid e)
  have "\<not> asks_attack raw a b" for a b
    using invalid(2) by (auto simp: asks_attack_def)
  then show ?thesis using invalid by simp
next
  case (valid req action)
  have "handle env raw s = None \<longleftrightarrow> respond env action req (with_metrics incrementRequestsTotal s) = None"
    by (auto simp: valid(5) split: option.splits prod.splits exc.splits)
  also have "\<dots> \<longleftrightarrow> (\<exists>a b. asks_attack raw a b \<and> attackPlayer a b (s_game s) = None)"
    using valid(1,2)
    by (auto simp: respond_undefined dispatch_undefined handleAttack_undefined asks_attack_def)
  finally show ?thesis .
qed

section \<open>Sequences of requests\<close>

text \<open>A label is what the outside contributes: the answers, the request and the reply.\<close>

inductive server_step ::
    "server_state \<Rightarrow> request_env \<times> string \<times> string \<Rightarrow> server_state \<Rightarrow> bool" where
  request: "handle env raw s = Some (Ret reply, t) \<Longrightarrow> server_step s (env, raw, reply) t"

inductive_cases server_stepE: "server_step s (env, raw, reply) t"

definition server_inv :: "server_state \<Rightarrow> bool" where
  "server_inv s \<longleftrightarrow> game_inv (s_game s) \<and> stores_ok s \<and> log_printable s \<and>
     m_requestsTotal (s_metrics s) =
       m_successfulRequests (s_metrics s) + m_failedRequests (s_metrics s) \<and>
     m_latencyCount (s_metrics s) = m_requestsTotal (s_metrics s)"

lemma serves_inv: "server_inv s \<Longrightarrow> serves s j t \<Longrightarrow> server_inv t"
  using game.inv_runs by (auto simp: server_inv_def serves_def counts_def)

lemma server_step_serves:
  assumes "server_step s (env, raw, reply) t" and "log_printable s"
  obtains j where "dump j = Ret reply" and "serves s j t"
  using assms by (auto elim!: server_stepE dest!: handle_serves)

interpretation server: invariant_of server_step server_inv
proof unfold_locales
  fix s a t
  assume inv: "server_inv s" and st: "server_step s a t"
  obtain env raw reply where "a = (env, raw, reply)" by (metis prod.collapse)
  moreover have "log_printable s" using inv by (simp add: server_inv_def)
  ultimately obtain j where "serves s j t" using st server_step_serves by metis
  then show "server_inv t" by (rule serves_inv [OF inv])
qed

lemma server_inv_init:
  assumes "\<And>x. c = Some x \<Longrightarrow> cache_ok x" and "\<And>x. d = Some x \<Longrightarrow> db_ok x"
  shows "server_inv (init_server clk c d)"
  using assms game_inv_init [of clk]
  by (simp add: server_inv_def init_server_def stores_ok_def log_printable_def metrics_reset_def)
     (simp add: init_game_def)

lemma serves_status: "serves s j t \<Longrightarrow> m_status (s_game s) \<le> m_status (s_game t)"
  using lifecycle.le_runs by (auto simp: serves_def)

section \<open>Examples\<close>

text \<open>Surroundings in which every answer is trivial, and a server that has just started.\<close>

definition still_env :: request_env where
  "still_env = \<lparr>e_clk = (\<lambda>_. 0), e_now = 0, e_time = 0,
     e_redis = (\<lambda>_. \<lparr>pa_acquire = \<lparr>ca_socket = False, ca_pton = False, ca_connect = False\<rparr>,
        pa_cmd = \<lparr>ra_conn = \<lparr>ca_socket = False, ca_pton = False, ca_connect = False\<rparr>, ra_sent = 0,
                  ra_reply = []\<rparr>\<rparr>),
     e_mysql = (\<lambda>_. \<lparr>a_ping = False, a_init = False, a_connect = False, a_stmt_init = False,
        a_prepare = False, a_bind = False, a_execute = False, a_t0 = 0, a_t1 = 0, a_now = []\<rparr>),
     e_iter = id, e_start = 0, e_end = 0\<rparr>"

definition started :: server_state where
  "started = init_server (\<lambda>_. 0) None None"

lemma started_inv: "server_inv started"
  unfolding started_def by (rule server_inv_init) simp_all

lemma started_utf8: "log_printable started"
  using started_inv by (simp add: server_inv_def)

lemma handle_garbage: "handle env ''x'' s = Some (dump (errorResponse ''invalid JSON''),
    stop_timer env (with_metrics (incrementFailedRequests \<circ> incrementRequestsTotal) s))"
proof (cases "parse ''x''")
  case (Ret j)
  have "case parse ''x'' of Throw _ \<Rightarrow> True | Ret _ \<Rightarrow> False" by code_simp
  then show ?thesis using Ret by simp
qed (simp add: handle_def)

end
