(* ===== verification/Connections.thy ===== *)
theory Connections
  imports HashMap
begin

text \<open>
  \<open>ConnectionManager.cpp\<close>: the registry of open connections. A connection id is drawn from an
  atomic counter before the registry is locked; every other operation is one critical section.
\<close>

record connection_info =
  ci_connectionId :: u64
  ci_fd :: int
  ci_remoteAddr :: string
  ci_connectedAt :: int
  ci_messagesReceived :: u64
  ci_messagesSent :: u64

record connections =
  m_connections :: "(u64, connection_info) hmap"
  m_nextId :: u64
  m_totalConnections :: u64

definition init_connections :: connections where
  "init_connections = \<lparr>m_connections = [], m_nextId = 1, m_totalConnections = 0\<rparr>"

definition registerConnection ::
    "int \<Rightarrow> int \<Rightarrow> string \<Rightarrow> connections \<Rightarrow> u64 \<times> connections" where
  "registerConnection now fd addr c =
     (let i = m_nextId c;
          c1 = c\<lparr>m_nextId := m_nextId c + 1\<rparr>;
          info = \<lparr>ci_connectionId = i, ci_fd = fd, ci_remoteAddr = addr, ci_connectedAt = now,
                  ci_messagesReceived = 0, ci_messagesSent = 0\<rparr>;
          c2 = c1\<lparr>m_connections := hm_emplace i info (m_connections c1)\<rparr>
      in (i, c2\<lparr>m_totalConnections := m_totalConnections c2 + 1\<rparr>))"

definition unregisterConnection :: "u64 \<Rightarrow> connections \<Rightarrow> connections" where
  "unregisterConnection i c = (case map_of (m_connections c) i of
       None \<Rightarrow> c
     | Some _ \<Rightarrow> c\<lparr>m_connections := hm_erase i (m_connections c)\<rparr>)"

definition recordMessageReceived :: "u64 \<Rightarrow> connections \<Rightarrow> connections" where
  "recordMessageReceived i c = (case map_of (m_connections c) i of
       None \<Rightarrow> c
     | Some info \<Rightarrow> c\<lparr>m_connections := hm_assign i
         (info\<lparr>ci_messagesReceived := ci_messagesReceived info + 1\<rparr>) (m_connections c)\<rparr>)"

definition recordMessageSent :: "u64 \<Rightarrow> connections \<Rightarrow> connections" where
  "recordMessageSent i c = (case map_of (m_connections c) i of
       None \<Rightarrow> c
     | Some info \<Rightarrow> c\<lparr>m_connections := hm_assign i
         (info\<lparr>ci_messagesSent := ci_messagesSent info + 1\<rparr>) (m_connections c)\<rparr>)"

definition activeCount :: "connections \<Rightarrow> nat" where
  "activeCount c = length (m_connections c)"

definition totalConnections :: "connections \<Rightarrow> u64" where
  "totalConnections c = m_totalConnections c"

section \<open>The registry as a map\<close>

definition registry :: "connections \<Rightarrow> u64 \<rightharpoonup> connection_info" where
  "registry c = map_of (m_connections c)"

lemma registry_unregister [simp]: "registry (unregisterConnection i c) = (registry c)(i := None)"
  by (auto simp: registry_def unregisterConnection_def hm_find split: option.splits)

lemma registry_received: "registry (recordMessageReceived i c) =
    (case registry c i of None \<Rightarrow> registry c
     | Some info \<Rightarrow> (registry c)(i \<mapsto> info\<lparr>ci_messagesReceived := ci_messagesReceived info + 1\<rparr>))"
  by (auto simp: registry_def recordMessageReceived_def hm_find split: option.splits)

lemma registry_sent: "registry (recordMessageSent i c) =
    (case registry c i of None \<Rightarrow> registry c
     | Some info \<Rightarrow> (registry c)(i \<mapsto> info\<lparr>ci_messagesSent := ci_messagesSent info + 1\<rparr>))"
  by (auto simp: registry_def recordMessageSent_def hm_find split: option.splits)

lemma registerConnection_registry:
  assumes "registerConnection now fd addr c = (i, c')" and "registry c i = None"
  shows "registry c' = (registry c)(i \<mapsto> \<lparr>ci_connectionId = i, ci_fd = fd, ci_remoteAddr = addr,
     ci_connectedAt = now, ci_messagesReceived = 0, ci_messagesSent = 0\<rparr>)"
  using assms by (auto simp: registerConnection_def registry_def hm_find Let_def)

lemma counters_simps [simp]:
  "m_nextId (recordMessageReceived i c) = m_nextId c" "m_nextId (recordMessageSent i c) = m_nextId c"
  "m_nextId (unregisterConnection i c) = m_nextId c"
  "m_totalConnections (recordMessageReceived i c) = m_totalConnections c"
  "m_totalConnections (recordMessageSent i c) = m_totalConnections c"
  "m_totalConnections (unregisterConnection i c) = m_totalConnections c"
  by (simp_all add: recordMessageReceived_def recordMessageSent_def unregisterConnection_def
      split: option.splits)

section \<open>Connections over time\<close>

datatype conn_op = Register int int string | Unregister u64 | Received u64 | Sent u64

inductive conn_step :: "connections \<Rightarrow> conn_op \<Rightarrow> connections \<Rightarrow> bool" where
  "conn_step c (Register now fd addr) (snd (registerConnection now fd addr c))"
| "conn_step c (Unregister i) (unregisterConnection i c)"
| "conn_step c (Received i) (recordMessageReceived i c)"
| "conn_step c (Sent i) (recordMessageSent i c)"

inductive_cases conn_stepE: "conn_step c op d"

text \<open>
  After \<open>k\<close> registrations: the ids given out are \<open>1\<close> to \<open>k\<close>, an entry is stored under its own
  id, and the total is \<open>k\<close>.
\<close>

definition conns_inv :: "nat \<Rightarrow> connections \<Rightarrow> bool" where
  "conns_inv k c \<longleftrightarrow> hm_wf (m_connections c) \<and> m_nextId c = of_nat (Suc k) \<and>
     m_totalConnections c = of_nat k \<and> Suc k < 2 ^ 64 \<and>
     (\<forall>i info. registry c i = Some info \<longrightarrow> ci_connectionId info = i \<and> 1 \<le> unat i \<and> unat i \<le> k)"

lemma conns_inv_init: "conns_inv 0 init_connections"
  by (simp add: conns_inv_def init_connections_def registry_def)

lemma unat_of_Suc: "Suc k < 2 ^ 64 \<Longrightarrow> unat (of_nat (Suc k) :: u64) = Suc k"
  by (simp only: unat_of_nat) simp

lemma conns_inv_fresh: "conns_inv k c \<Longrightarrow> registry c (m_nextId c) = None"
  using unat_of_Suc [of k] by (cases "registry c (m_nextId c)") (force simp: conns_inv_def)+

lemma conns_inv_register:
  assumes "conns_inv k c" and "Suc (Suc k) < 2 ^ 64"
  shows "conns_inv (Suc k) (snd (registerConnection now fd addr c))"
proof -
  obtain i c' where r: "registerConnection now fd addr c = (i, c')" by fastforce
  have i: "i = m_nextId c" using r by (auto simp: registerConnection_def Let_def)
  have "hm_wf (m_connections c')" "m_nextId c' = of_nat (Suc (Suc k))" "m_totalConnections c' = of_nat (Suc k)"
    using r assms(1) by (auto simp: registerConnection_def Let_def conns_inv_def hm.wf_ops add.commute)
  moreover have "unat i = Suc k" using i assms unat_of_Suc [of k] by (simp add: conns_inv_def)
  ultimately show ?thesis
    using registerConnection_registry [OF r] conns_inv_fresh [OF assms(1)] assms i r
    by (auto simp: conns_inv_def split: if_splits intro: le_SucI)
qed

lemma conns_inv_other:
  assumes "conns_inv k c" and "conn_step c op d" and "\<forall>now fd addr. op \<noteq> Register now fd addr"
  shows "conns_inv k d"
  using assms(2)
proof (cases rule: conn_step.cases)
  case (2 i)
  then show ?thesis using assms(1)
    by (auto simp: conns_inv_def unregisterConnection_def hm.wf_ops registry_def hm_find
        split: option.splits if_splits)
next
  case (3 i)
  then show ?thesis using assms(1)
    by (auto simp: conns_inv_def recordMessageReceived_def hm.wf_ops registry_def hm_find
        split: option.splits if_splits)
next
  case (4 i)
  then show ?thesis using assms(1)
    by (auto simp: conns_inv_def recordMessageSent_def hm.wf_ops registry_def hm_find
        split: option.splits if_splits)
qed (use assms(3) in auto)

definition registrations :: "conn_op list \<Rightarrow> nat" where
  "registrations ops = length (filter (\<lambda>op. case op of Register _ _ _ \<Rightarrow> True | _ \<Rightarrow> False) ops)"

lemma conns_inv_runs:
  assumes "runs conn_step c ops d" and "conns_inv k c" and "Suc (k + registrations ops) < 2 ^ 64"
  shows "conns_inv (k + registrations ops) d"
  using assms
proof (induction arbitrary: k rule: runs.induct)
  case (runs_cons c op d ops e)
  show ?case
  proof (cases "\<exists>now fd addr. op = Register now fd addr")
    case True
    then have "conns_inv (Suc k) d" using runs_cons.hyps(1) runs_cons.prems conns_inv_register
      by (auto simp: registrations_def elim!: conn_stepE)
    then show ?thesis using runs_cons.IH [of "Suc k"] runs_cons.prems True
      by (auto simp: registrations_def)
  next
    case False
    then have "conns_inv k d" using runs_cons conns_inv_other by blast
    then show ?thesis using runs_cons.IH [of k] runs_cons.prems False
      by (cases op) (auto simp: registrations_def)
  qed
qed (simp add: registrations_def)

text \<open>C36. As long as fewer than 2^64 - 1 connections have been accepted, every registered
  connection is stored under its own id, the ids are between 1 and the number of
  registrations, so a new connection never takes the id of an open one, and the total counts
  every registration.\<close>

theorem connection_ids:
  assumes "runs conn_step init_connections ops c" and "registrations ops + 1 < 2 ^ 64"
  shows "registry c (m_nextId c) = None \<and> totalConnections c = of_nat (registrations ops) \<and>
    (\<forall>i info. registry c i = Some info \<longrightarrow> ci_connectionId info = i \<and>
       1 \<le> unat i \<and> unat i \<le> registrations ops) \<and> activeCount c = card (dom (registry c))"
proof -
  have inv: "conns_inv (registrations ops) c"
    using conns_inv_runs [OF assms(1) conns_inv_init] assms(2) by simp
  then have "activeCount c = card (dom (registry c))"
    by (simp add: conns_inv_def activeCount_def registry_def hm.count_card)
  then show ?thesis using inv conns_inv_fresh [OF inv]
    by (auto simp: conns_inv_def totalConnections_def)
qed

theorem connection_ids_witness:
  "totalConnections (snd (registerConnection 0 5 ''a'' init_connections)) = 1"
proof -
  have "runs conn_step init_connections [Register 0 5 ''a'']
      (snd (registerConnection 0 5 ''a'' init_connections))"
    by (rule runs_cons, rule conn_step.intros) simp
  then show ?thesis using connection_ids by (fastforce simp: registrations_def)
qed

end
