(* ===== verification/Server.thy ===== *)
theory Server
  imports Requests Connections Framer
begin

text \<open>
  \<open>Server::handleClient\<close> and \<open>dispatch\<close>: the conversation with one client. The socket is the
  sequence of events of \<open>Socket\<close>; \<open>cl_out\<close> collects the bytes that reach the client. The
  \<open>i\<close>-th message of the conversation is answered in the environment \<open>envs i\<close>.
\<close>

record client =
  cl_rx :: "rx list"
  cl_tx :: "tx list"
  cl_out :: bytes
  cl_msgCount :: u32

record server =
  sv_state :: server_state
  sv_conns :: connections

definition dispatch ::
    "request_env \<Rightarrow> string \<Rightarrow> server_state \<Rightarrow> (string exc \<times> server_state) option" where
  "dispatch env raw s = handle env raw s"

text \<open>
  One pass of the loop: \<open>Ret True\<close> goes on, \<open>Ret False\<close> is a \<open>break\<close>; an exception of
  \<open>dispatch\<close> leaves the function, \<open>None\<close> is undefined behaviour.
\<close>

definition client_round ::
    "request_env \<Rightarrow> u64 \<Rightarrow> client \<times> server \<Rightarrow> (bool exc \<times> client \<times> server) option" where
  "client_round env connId cs = (case cs of (c, sv) \<Rightarrow>
     (case readExact HEADER_SIZE (cl_rx c) of
        (None, q) \<Rightarrow> Some (Ret False, c\<lparr>cl_rx := q\<rparr>, sv)
      | (Some lenBuf, q) \<Rightarrow>
          let payloadLen = readU32LE lenBuf in
          if MAX_MESSAGE_SIZE < payloadLen then Some (Ret False, c\<lparr>cl_rx := q\<rparr>, sv)
          else (case readExact (unat payloadLen) q of
             (None, q1) \<Rightarrow> Some (Ret False, c\<lparr>cl_rx := q1\<rparr>, sv)
           | (Some payload, q1) \<Rightarrow>
               let c1 = c\<lparr>cl_rx := q1, cl_msgCount := cl_msgCount c + 1\<rparr>;
                   sv1 = sv\<lparr>sv_conns := recordMessageReceived connId (sv_conns sv)\<rparr>
               in (case dispatch env (string_of payload) (sv_state sv1) of
                     None \<Rightarrow> None
                   | Some (Throw e, s) \<Rightarrow> Some (Throw e, c1, sv1\<lparr>sv_state := s\<rparr>)
                   | Some (Ret response, s) \<Rightarrow>
                       let sv2 = sv1\<lparr>sv_state := s\<rparr>;
                           frame = encode response
                       in (case writeAll frame (cl_tx c1) of
                             (ok, out, t) \<Rightarrow>
                               let c2 = c1\<lparr>cl_tx := t, cl_out := cl_out c1 @ out\<rparr>
                               in if \<not> ok then Some (Ret False, c2, sv2)
                                  else Some (Ret True, c2, sv2\<lparr>sv_conns :=
                                    recordMessageSent connId (sv_conns sv2)\<rparr>))))))"

text \<open>A pass that goes on has read at least a header, so the conversation ends with its bytes.\<close>

lemma client_round_progress:
  assumes "client_round env i (c, sv) = Some (Ret True, c1, sv1)"
  shows "length (rx_bytes (cl_rx c1)) < length (rx_bytes (cl_rx c))"
proof -
  obtain h q where h: "readExact HEADER_SIZE (cl_rx c) = (Some h, q)"
    using assms by (auto simp: client_round_def split: prod.splits option.splits)
  then obtain p q1 where p: "readExact (unat (readU32LE h)) q = (Some p, q1)" "cl_rx c1 = q1"
    using assms by (auto simp: client_round_def Let_def split: prod.splits option.splits if_splits exc.splits)
  have "length (rx_bytes (cl_rx c)) = 4 + length (rx_bytes q)"
    using readExact_SomeD [OF h] by (simp add: HEADER_SIZE_def)
  moreover have "length (rx_bytes q1) \<le> length (rx_bytes q)" using readExact_SomeD [OF p(1)] by simp
  ultimately show ?thesis using p(2) by simp
qed

function client_loop ::
    "(nat \<Rightarrow> request_env) \<Rightarrow> nat \<Rightarrow> u64 \<Rightarrow> client \<times> server \<Rightarrow> (unit exc \<times> client \<times> server) option" where
  "client_loop envs n connId cs = (case client_round (envs n) connId cs of
       None \<Rightarrow> None
     | Some (Throw e, cs1) \<Rightarrow> Some (Throw e, cs1)
     | Some (Ret b, cs1) \<Rightarrow>
         if b then client_loop envs (Suc n) connId cs1 else Some (Ret (), cs1))"
  by pat_completeness auto
termination
  by (relation "measure (\<lambda>(envs, n, i, c, sv). length (rx_bytes (cl_rx c)))")
     (auto intro: client_round_progress)

declare client_loop.simps [simp del]

text \<open>The socket is closed and the connection removed unless an exception leaves the loop.\<close>

definition handleClient ::
    "(nat \<Rightarrow> request_env) \<Rightarrow> int \<Rightarrow> int \<Rightarrow> string \<Rightarrow> rx list \<Rightarrow> tx list \<Rightarrow> server
      \<Rightarrow> (unit exc \<times> client \<times> server) option" where
  "handleClient envs now clientFd clientAddr rx tx sv =
     (case registerConnection now clientFd clientAddr (sv_conns sv) of (connId, conns) \<Rightarrow>
        (case client_loop envs 0 connId
                (\<lparr>cl_rx = rx, cl_tx = tx, cl_out = [], cl_msgCount = 0\<rparr>, sv\<lparr>sv_conns := conns\<rparr>) of
           None \<Rightarrow> None
         | Some (Throw e, c, sv1) \<Rightarrow> Some (Throw e, c, sv1)
         | Some (Ret _, c, sv1) \<Rightarrow>
             Some (Ret (), c, sv1\<lparr>sv_conns := unregisterConnection connId (sv_conns sv1)\<rparr>)))"

section \<open>The requests of a conversation, one after the other\<close>

fun serve_all ::
    "(nat \<Rightarrow> request_env) \<Rightarrow> nat \<Rightarrow> string list \<Rightarrow> server_state \<Rightarrow> (string list \<times> server_state) option" where
  "serve_all envs n [] s = Some ([], s)"
| "serve_all envs n (p # ps) s = (case handle (envs n) p s of
       Some (Ret r, s1) \<Rightarrow> (case serve_all envs (Suc n) ps s1 of
           None \<Rightarrow> None
         | Some (rs, t) \<Rightarrow> Some (r # rs, t))
     | _ \<Rightarrow> None)"

end
