(* ===== verification/Conversation.thy ===== *)
theory Conversation
  imports Server
begin

text \<open>
  What a client gets from the server: the loop of \<open>handleClient\<close> takes the messages off the
  stream that \<open>decode\<close> finds in its bytes, however the network cuts them, answers them in
  order, and leaves the connection unregistered.
\<close>

section \<open>Reading a message is decoding the stream\<close>

lemma readU32LE_take: "4 \<le> length b \<Longrightarrow> readU32LE (take 4 b) = readU32LE b"
  using readU32LE_append [of "take 4 b" "drop 4 b"] by simp

lemma read_decoded:
  assumes "decode (rx_bytes rx) = Decoded p r"
  obtains hdr q pl q1 where "readExact HEADER_SIZE rx = (Some hdr, q)"
    and "\<not> MAX_MESSAGE_SIZE < readU32LE hdr"
    and "readExact (unat (readU32LE hdr)) q = (Some pl, q1)"
    and "string_of pl = p" and "rx_bytes q1 = r"
proof -
  let ?b = "rx_bytes rx"
  have l: "4 \<le> length ?b" "\<not> MAX_MESSAGE_SIZE < readU32LE ?b" "4 + unat (readU32LE ?b) \<le> length ?b"
    and pr: "p = string_of (take (unat (readU32LE ?b)) (drop 4 ?b))" "r = drop (4 + unat (readU32LE ?b)) ?b"
    using assms by (auto simp: decode_def HEADER_SIZE_def Let_def split: if_splits)
  obtain q where q: "readExact HEADER_SIZE rx = (Some (take 4 ?b), q)" "rx_bytes q = drop 4 ?b"
    using readExact_enough [of 4 rx] l(1) by (auto simp: HEADER_SIZE_def)
  have "unat (readU32LE ?b) \<le> length (rx_bytes q)" using q(2) l(3) by simp
  then obtain q1 where q1: "readExact (unat (readU32LE ?b)) q =
      (Some (take (unat (readU32LE ?b)) (drop 4 ?b)), q1)" "rx_bytes q1 = r"
    using readExact_enough [of "unat (readU32LE ?b)" q] q(2) pr(2) by (auto simp: add.commute)
  show thesis by (rule that [OF q(1) _ _ _ q1(2)]) (use q1(1) l pr(1) in \<open>simp_all add: readU32LE_take\<close>)
qed

lemma round_undecoded:
  assumes "decode_frame (rx_bytes (cl_rx c)) = None"
  shows "\<exists>q. client_round env i (c, sv) = Some (Ret False, c\<lparr>cl_rx := q\<rparr>, sv)"
proof (cases "length (rx_bytes (cl_rx c)) < 4")
  case True
  then have "fst (readExact HEADER_SIZE (cl_rx c)) = None" by (simp add: readExact_short HEADER_SIZE_def)
  then show ?thesis by (cases "readExact HEADER_SIZE (cl_rx c)") (auto simp: client_round_def)
next
  case False
  let ?b = "rx_bytes (cl_rx c)"
  obtain q where q: "readExact HEADER_SIZE (cl_rx c) = (Some (take 4 ?b), q)" "rx_bytes q = drop 4 ?b"
    using readExact_enough [of 4 "cl_rx c"] False by (auto simp: HEADER_SIZE_def)
  have h: "readU32LE (take 4 ?b) = readU32LE ?b" using False by (simp add: readU32LE_take)
  show ?thesis
  proof (cases "MAX_MESSAGE_SIZE < readU32LE ?b")
    case True
    then show ?thesis using q(1) h by (auto simp: client_round_def Let_def)
  next
    case small: False
    then have "length (rx_bytes q) < unat (readU32LE ?b)"
      using assms False q(2)
      by (auto simp: decode_frame_def decode_def HEADER_SIZE_def Let_def split: if_splits)
    then have "fst (readExact (unat (readU32LE ?b)) q) = None" by (rule readExact_short)
    then show ?thesis using q(1) h small
      by (cases "readExact (unat (readU32LE ?b)) q") (auto simp: client_round_def Let_def)
  qed
qed

text \<open>The effect of one answered message.\<close>

definition answered :: "u64 \<Rightarrow> string \<Rightarrow> server_state \<Rightarrow> client \<times> server \<Rightarrow> rx list \<Rightarrow> tx list \<Rightarrow> client \<times> server" where
  "answered i reply s cs q t = (case cs of (c, sv) \<Rightarrow>
     (c\<lparr>cl_rx := q, cl_msgCount := cl_msgCount c + 1, cl_tx := t, cl_out := cl_out c @ encode reply\<rparr>,
      sv\<lparr>sv_state := s, sv_conns := recordMessageSent i (recordMessageReceived i (sv_conns sv))\<rparr>))"

lemma round_decoded:
  assumes "decode_frame (rx_bytes (cl_rx c)) = Some (p, r)"
    and "handle env p (sv_state sv) = Some (Ret reply, s)" and "tx_fine (cl_tx c)"
  shows "\<exists>q t. client_round env i (c, sv) = Some (Ret True, answered i reply s (c, sv) q t) \<and>
     rx_bytes q = r \<and> tx_fine t"
proof -
  obtain hdr q pl q1 where r: "readExact HEADER_SIZE (cl_rx c) = (Some hdr, q)"
    "\<not> MAX_MESSAGE_SIZE < readU32LE hdr" "readExact (unat (readU32LE hdr)) q = (Some pl, q1)"
    "string_of pl = p" "rx_bytes q1 = r"
    using assms(1) by (auto simp: decode_frame_def split: decode_result.splits elim: read_decoded)
  obtain t where t: "writeAll (encode reply) (cl_tx c) = (True, encode reply, t)" "tx_fine t"
    using writeAll_fine [OF assms(3)] by blast
  have "client_round env i (c, sv) = Some (Ret True, answered i reply s (c, sv) q1 t)"
    using r t(1) assms(2) by (simp add: client_round_def dispatch_def answered_def Let_def)
  then show ?thesis using r(5) t(2) by blast
qed

lemma decode_frame_length: "decode_frame b = Some (p, r) \<Longrightarrow> length r < length b"
  by (auto simp: decode_frame_def decode_def HEADER_SIZE_def Let_def
      split: decode_result.splits if_splits)

definition other_entries_same :: "u64 \<Rightarrow> connections \<Rightarrow> connections \<Rightarrow> bool" where
  "other_entries_same i c d \<longleftrightarrow> (registry c)(i := None) = (registry d)(i := None) \<and>
     m_nextId c = m_nextId d \<and> m_totalConnections c = m_totalConnections d"

lemma other_entries_refl [simp]: "other_entries_same i c c"
  by (simp add: other_entries_same_def)

lemma other_entries_trans:
  "other_entries_same i a b \<Longrightarrow> other_entries_same i b c \<Longrightarrow> other_entries_same i a c"
  by (simp add: other_entries_same_def)

lemma other_entries_messages [simp]:
  "other_entries_same i c (recordMessageReceived i c)" "other_entries_same i c (recordMessageSent i c)"
  by (auto simp: other_entries_same_def registry_received registry_sent split: option.splits)

section \<open>The loop\<close>

lemma loop_serves:
  assumes "length (rx_bytes (cl_rx c)) \<le> fuel" and "tx_fine (cl_tx c)"
    and "serve_all envs n (fst (drain fuel decode_frame (rx_bytes (cl_rx c)))) (sv_state sv) = Some (rs, s)"
  shows "\<exists>c1 sv1. client_loop envs n i (c, sv) = Some (Ret (), c1, sv1) \<and>
     cl_out c1 = cl_out c @ concat (map encode rs) \<and> sv_state sv1 = s \<and>
     other_entries_same i (sv_conns sv) (sv_conns sv1)"
  using assms
proof (induction fuel arbitrary: c sv n rs)
  case 0
  then have "decode_frame (rx_bytes (cl_rx c)) = None" by (simp add: decode_frame_def decode_def HEADER_SIZE_def)
  then obtain q where "client_round (envs n) i (c, sv) = Some (Ret False, c\<lparr>cl_rx := q\<rparr>, sv)"
    using round_undecoded by blast
  then show ?case using 0(3) by (simp add: client_loop.simps [of envs n i])
next
  case (Suc fuel)
  show ?case
  proof (cases "decode_frame (rx_bytes (cl_rx c))")
    case None
    then obtain q where "client_round (envs n) i (c, sv) = Some (Ret False, c\<lparr>cl_rx := q\<rparr>, sv)"
      using round_undecoded by blast
    then show ?thesis using Suc.prems(3) None by (simp add: client_loop.simps [of envs n i])
  next
    case (Some pr)
    obtain p r where pr: "pr = (p, r)" by fastforce
    obtain ps u where d: "drain fuel decode_frame r = (ps, u)" by fastforce
    obtain reply s1 where h: "handle (envs n) p (sv_state sv) = Some (Ret reply, s1)"
      using Suc.prems(3) Some pr d by (auto split: option.splits exc.splits)
    obtain rs1 where rs: "serve_all envs (Suc n) ps s1 = Some (rs1, s)" "rs = reply # rs1"
      using Suc.prems(3) Some pr d h by (auto split: option.splits)
    obtain q t where q: "client_round (envs n) i (c, sv) = Some (Ret True, answered i reply s1 (c, sv) q t)"
      "rx_bytes q = r" "tx_fine t"
      using round_decoded [OF Some [unfolded pr] h Suc.prems(2)] by blast
    obtain c1 sv1 where a: "answered i reply s1 (c, sv) q t = (c1, sv1)" by fastforce
    then have c1: "cl_rx c1 = q" "cl_tx c1 = t" "cl_out c1 = cl_out c @ encode reply" "sv_state sv1 = s1"
      "other_entries_same i (sv_conns sv) (sv_conns sv1)"
      using other_entries_trans [OF other_entries_messages] by (auto simp: answered_def)
    have "length r \<le> fuel" using decode_frame_length [OF Some [unfolded pr]] Suc.prems(1) by simp
    then obtain c2 sv2 where "client_loop envs (Suc n) i (c1, sv1) = Some (Ret (), c2, sv2)"
      "cl_out c2 = cl_out c1 @ concat (map encode rs1)" "sv_state sv2 = s"
      "other_entries_same i (sv_conns sv1) (sv_conns sv2)"
      using Suc.IH [of c1 "Suc n" sv1 rs1] c1 q(2,3) d rs(1) by auto
    then show ?thesis using q(1) a c1 rs(2) other_entries_trans
      by (auto simp: client_loop.simps [of envs n i])
  qed
qed

section \<open>Whatever the client sends\<close>

lemma client_round_cases:
  assumes "client_round env i (c, sv) = Some (r, c1, sv1)"
  obtains (stopped) "r = Ret False" and "sv1 = sv"
  | (served) pl x where "handle env pl (sv_state sv) = Some (x, sv_state sv1)"
      and "\<And>y. x = Ret y \<Longrightarrow> \<exists>b. r = Ret b"
      and "sv_conns sv1 \<in> {recordMessageReceived i (sv_conns sv),
             recordMessageSent i (recordMessageReceived i (sv_conns sv))}"
proof -
  have "(r = Ret False \<and> sv1 = sv) \<or>
     (\<exists>pl x. handle env pl (sv_state sv) = Some (x, sv_state sv1) \<and>
        ((\<exists>y. x = Ret y) \<longrightarrow> (\<exists>b. r = Ret b)) \<and>
        sv_conns sv1 \<in> {recordMessageReceived i (sv_conns sv),
             recordMessageSent i (recordMessageReceived i (sv_conns sv))})"
    using assms by (simp add: client_round_def dispatch_def Let_def
        split: prod.splits option.splits if_splits exc.splits) (fastforce+)
  then show thesis using stopped served by blast
qed

lemma round_keeps:
  assumes "client_round env i (c, sv) = Some (r, c1, sv1)" and "server_inv (sv_state sv)"
  shows "(\<exists>b. r = Ret b) \<and> server_inv (sv_state sv1) \<and> other_entries_same i (sv_conns sv) (sv_conns sv1)"
  using assms(1)
proof (cases rule: client_round_cases)
  case (served pl x)
  have u: "log_printable (sv_state sv)" using assms(2) by (simp add: server_inv_def)
  obtain j t where "x = Ret t" "serves (sv_state sv) j (sv_state sv1)"
    using handle_serves [OF u served(1)] by blast
  then have "\<exists>b. r = Ret b" "server_inv (sv_state sv1)"
    using served(2) serves_inv [OF assms(2)] by simp_all
  moreover have "other_entries_same i (sv_conns sv) (sv_conns sv1)"
    using served(3) other_entries_messages(1) [of i "sv_conns sv"]
      other_entries_trans [OF other_entries_messages(1) other_entries_messages(2), of i "sv_conns sv"]
    by (elim insertE) simp_all
  ultimately show ?thesis by simp
qed (use assms(2) in auto)

lemma loop_keeps:
  "client_loop envs n i (c, sv) = Some (r, c1, sv1) \<Longrightarrow> server_inv (sv_state sv) \<Longrightarrow>
     r = Ret () \<and> server_inv (sv_state sv1) \<and> other_entries_same i (sv_conns sv) (sv_conns sv1)"
proof (induction "length (rx_bytes (cl_rx c))" arbitrary: n c sv rule: less_induct)
  case less
  obtain x c2 sv2 where x: "client_round (envs n) i (c, sv) = Some (x, c2, sv2)"
    using less.prems(1) by (cases "client_round (envs n) i (c, sv)") (auto simp: client_loop.simps [of envs n i])
  obtain b where b: "client_round (envs n) i (c, sv) = Some (Ret b, c2, sv2)"
      "server_inv (sv_state sv2)" "other_entries_same i (sv_conns sv) (sv_conns sv2)"
    using round_keeps [OF x less.prems(2)] x by blast
  show ?case
  proof (cases b)
    case True
    then have "length (rx_bytes (cl_rx c2)) < length (rx_bytes (cl_rx c))"
      using b(1) True client_round_progress by simp
    moreover have "client_loop envs (Suc n) i (c2, sv2) = Some (r, c1, sv1)"
      using less.prems(1) b(1) True by (simp add: client_loop.simps [of envs n i])
    ultimately show ?thesis using less.hyps b(2,3) other_entries_trans by blast
  next
    case False
    then show ?thesis using less.prems(1) b by (simp add: client_loop.simps [of envs n i])
  qed
qed

lemma unregister_restores:
  assumes "registerConnection now fd addr c = (i, c1)" and "registry c i = None"
    and "other_entries_same i c1 c2"
  shows "registry (unregisterConnection i c2) = registry c"
proof -
  have "(registry c1)(i := None) = registry c"
    using registerConnection_registry [OF assms(1,2)] assms(2) by (auto simp: fun_eq_iff)
  then show ?thesis using assms(3) by (simp add: other_entries_same_def)
qed

lemma register_id: "registerConnection now fd addr c = (i, c1) \<Longrightarrow> i = m_nextId c"
  by (auto simp: registerConnection_def Let_def)

lemma conversation:
  assumes "rx_bytes rx = concat (map encode ps) @ rest" and "list_all frame_ok ps"
    and "decode_frame rest = None" and "tx_fine tx"
    and "serve_all envs 0 ps (sv_state sv) = Some (rs, s)"
  shows "\<exists>c sv1. handleClient envs now fd addr rx tx sv = Some (Ret (), c, sv1) \<and>
     sv_state sv1 = s \<and> cl_out c = concat (map encode rs)"
proof -
  obtain i conns where r: "registerConnection now fd addr (sv_conns sv) = (i, conns)" by fastforce
  let ?c = "\<lparr>cl_rx = rx, cl_tx = tx, cl_out = [], cl_msgCount = 0\<rparr>"
  have "drain (length (rx_bytes rx)) decode_frame (rx_bytes rx) = (ps, rest)"
    unfolding assms(1) by (rule frame.drain_concat [OF assms(2,3)]) simp
  then obtain c1 sv1 where "client_loop envs 0 i (?c, sv\<lparr>sv_conns := conns\<rparr>) = Some (Ret (), c1, sv1)"
      "cl_out c1 = concat (map encode rs)" "sv_state sv1 = s"
    using loop_serves [of ?c "length (rx_bytes rx)" envs 0 "sv\<lparr>sv_conns := conns\<rparr>" rs s i] assms(4,5) by auto
  then show ?thesis by (simp add: handleClient_def r)
qed

section \<open>Properties\<close>

text \<open>C8. End to end: a client sends the frames of the messages \<open>ps\<close>, each of at most 1 MiB, followed by
  nothing that is a frame (a partial frame, an oversized header, nothing at all). If every message
  is answered (in a server with its invariant, all but an attack that overflows a score are) and the
  network takes all the bytes that the server sends, the client is sent exactly the frames of the replies that \<open>handle\<close> gives to \<open>ps\<close> in
  order, one per message. Where none of these replies is longer than 1 MiB, it reads the replies back
  from the bytes (a longer one does not fit in a frame). How either side's stream is cut does not
  matter.\<close>

theorem client_gets_replies:
  assumes "rx_bytes rx = concat (map encode ps) @ rest" and "list_all frame_ok ps"
    and "decode_frame rest = None" and "tx_fine tx"
    and "serve_all envs 0 ps (sv_state sv) = Some (rs, s)"
  shows "\<exists>c sv1. handleClient envs now fd addr rx tx sv = Some (Ret (), c, sv1) \<and>
     sv_state sv1 = s \<and> cl_out c = concat (map encode rs) \<and>
     (list_all frame_ok rs \<longrightarrow> drain (length (cl_out c)) decode_frame (cl_out c) = (rs, []))"
proof -
  have "drain (length (concat (map encode rs))) decode_frame (concat (map encode rs)) = (rs, [])"
    if "list_all frame_ok rs"
    using frame.drain_concat [OF that frame.dec_Nil order_refl] by simp
  then show ?thesis using conversation [OF assms, of now fd addr] by auto
qed

text \<open>C9. Whatever bytes a client sends, and however the network behaves towards it, the loop ends
  without an exception and keeps the invariant of the server; unless a score overflows (which
  is undefined behaviour) the connection is unregistered again and the registry is as before.\<close>

theorem client_always_unregistered:
  assumes "server_inv (sv_state sv)" and "conns_inv k (sv_conns sv)"
    and "handleClient envs now fd addr rx tx sv = Some (r, c, sv1)"
  shows "r = Ret () \<and> server_inv (sv_state sv1) \<and>
     registry (sv_conns sv1) = registry (sv_conns sv) \<and>
     m_nextId (sv_conns sv1) = m_nextId (sv_conns sv) + 1"
proof -
  obtain i conns where reg: "registerConnection now fd addr (sv_conns sv) = (i, conns)" by fastforce
  obtain r1 c1 sv2 where l: "client_loop envs 0 i (\<lparr>cl_rx = rx, cl_tx = tx, cl_out = [], cl_msgCount = 0\<rparr>,
      sv\<lparr>sv_conns := conns\<rparr>) = Some (r1, c1, sv2)"
    using assms(3) reg by (auto simp: handleClient_def split: option.splits)
  have k: "r1 = Ret ()" "server_inv (sv_state sv2)" "other_entries_same i conns (sv_conns sv2)"
    using loop_keeps [OF l] assms(1) by simp_all
  have "r = Ret ()" "sv1 = sv2\<lparr>sv_conns := unregisterConnection i (sv_conns sv2)\<rparr>"
    using assms(3) reg l k(1) by (simp_all add: handleClient_def)
  moreover have "registry (sv_conns sv) i = None"
    using conns_inv_fresh [OF assms(2)] register_id [OF reg] by simp
  moreover have "m_nextId conns = m_nextId (sv_conns sv) + 1"
    using reg by (auto simp: registerConnection_def Let_def)
  ultimately show ?thesis using k(2,3) unregister_restores [OF reg _ k(3)]
    by (simp add: other_entries_same_def)
qed

text \<open>A server that has just started.\<close>

definition fresh_server :: server where
  "fresh_server = \<lparr>sv_state = init_server (\<lambda>_. 0) None None, sv_conns = init_connections\<rparr>"

lemma fresh_server_inv: "server_inv (sv_state fresh_server)" "conns_inv 0 (sv_conns fresh_server)"
  using server_inv_init [of None None] by (simp_all add: fresh_server_def conns_inv_init)

theorem client_gets_replies_witness:
  "\<exists>c sv1 reply. handleClient (\<lambda>_. still_env) 0 5 ''10.0.0.1:4000''
       [RxData [1, 0], RxData [0], RxData [0, 120, 7]] [TxAccept 3] fresh_server = Some (Ret (), c, sv1) \<and>
     dump (errorResponse ''invalid JSON'') = Ret reply \<and> cl_out c = encode reply"
proof -
  obtain reply where d: "dump (errorResponse ''invalid JSON'') = Ret reply"
    using dump_total [of "errorResponse ''invalid JSON''"] by auto
  obtain s where s: "serve_all (\<lambda>_. still_env) 0 [''x''] (sv_state fresh_server) = Some ([reply], s)"
    by (simp add: handle_garbage d)
  have "encode ''x'' = [1, 0, 0, 0, 120]" by code_simp
  then have rx: "rx_bytes [RxData [1, 0], RxData [0], RxData [0, 120, 7]] = concat (map encode [''x'']) @ [7]"
    by simp
  have n: "decode_frame [7] = None" by (simp add: decode_frame_def decode_def HEADER_SIZE_def)
  have tx: "tx_fine [TxAccept 3]" by (auto simp: tx_fine_def intro: exI [of _ 2])
  have ok: "list_all frame_ok [''x'']" by (simp add: frame_ok_def)
  show ?thesis using client_gets_replies [OF rx ok n tx s, of 0 5 "''10.0.0.1:4000''"] d by auto
qed

theorem client_always_unregistered_witness:
  "\<exists>c sv1. handleClient (\<lambda>_. still_env) 0 5 ''10.0.0.1:4000'' [RxData [1, 0]] [] fresh_server =
       Some (Ret (), c, sv1) \<and> registry (sv_conns sv1) = Map.empty"
proof -
  have r: "readExact HEADER_SIZE [RxData [1, 0]] = (None, [])" by code_simp
  obtain i conns where "registerConnection 0 5 ''10.0.0.1:4000'' (sv_conns fresh_server) = (i, conns)"
    by fastforce
  then obtain c sv1 where h: "handleClient (\<lambda>_. still_env) 0 5 ''10.0.0.1:4000'' [RxData [1, 0]] []
      fresh_server = Some (Ret (), c, sv1)"
    by (simp add: handleClient_def client_loop.simps [of "\<lambda>_. still_env" 0] client_round_def r)
  then show ?thesis using client_always_unregistered [OF fresh_server_inv h]
    by (simp add: fresh_server_def init_connections_def registry_def)
qed

end
