(* ===== verification/ThreadPool.thy ===== *)
theory ThreadPool
  imports Prelude "HOL-Library.Multiset"
begin

text \<open>
  \<open>ThreadPool.cpp\<close>: the queue of accepted clients and the threads that serve them, as a step
  relation in which every acquisition of the mutex, every evaluation of the wait predicate,
  every wait and every notification is a step of its own. The workers interleave with each
  other and with the thread that submits and stops. The fields \<open>tp_accepted\<close>,
  \<open>tp_started\<close> and \<open>tp_finished\<close> record what has happened and are read by no step.
\<close>

record task =
  tk_fd :: int
  tk_addr :: string

text \<open>
  Where a worker is in \<open>workerLoop\<close>: before the lock (\<open>Ready\<close>), holding it (\<open>Locked\<close>),
  holding it with the wait predicate found false (\<open>Decided\<close>), in the wait set of the
  condition variable (\<open>Waiting\<close>), with a task and the lock given back (\<open>Taken\<close>), inside the
  handler (\<open>Busy\<close>), returned (\<open>Exited\<close>).
\<close>

datatype worker = Ready | Locked | Decided | Waiting | Taken task | Busy task | Exited

record thread_pool =
  tp_workers :: "worker list"
  tp_tasks :: "task list"
  tp_stopping :: bool
  tp_holder :: "nat option" \<comment> \<open>the worker that holds \<open>m_mutex\<close>\<close>
  tp_activeTasks :: int
  tp_to_notify :: nat \<comment> \<open>submissions that have not called \<open>notify_one\<close> yet\<close>
  tp_notified :: bool \<comment> \<open>\<open>stop\<close> has called \<open>notify_all\<close>\<close>
  tp_closed :: "int list" \<comment> \<open>clients closed by \<open>submit\<close>\<close>
  tp_accepted :: "task list"
  tp_started :: "task list"
  tp_finished :: "task list"

definition start_pool :: "int \<Rightarrow> thread_pool" where
  "start_pool numThreads =
     (let n = (if numThreads \<le> 0 then 1 else numThreads)
      in \<lparr>tp_workers = replicate (nat n) Ready, tp_tasks = [], tp_stopping = False,
          tp_holder = None, tp_activeTasks = 0, tp_to_notify = 0, tp_notified = False,
          tp_closed = [], tp_accepted = [], tp_started = [], tp_finished = []\<rparr>)"

section \<open>Operations\<close>

text \<open>The critical section of \<open>submit\<close>.\<close>

definition submit :: "task \<Rightarrow> thread_pool \<Rightarrow> thread_pool" where
  "submit t p =
     (if tp_stopping p then p\<lparr>tp_closed := tp_closed p @ [tk_fd t]\<rparr>
      else p\<lparr>tp_tasks := tp_tasks p @ [t], tp_to_notify := tp_to_notify p + 1,
             tp_accepted := tp_accepted p @ [t]\<rparr>)"

definition set_worker :: "nat \<Rightarrow> worker \<Rightarrow> thread_pool \<Rightarrow> thread_pool" where
  "set_worker w st p = p\<lparr>tp_workers := (tp_workers p)[w := st]\<rparr>"

definition wake :: "worker \<Rightarrow> worker" where
  "wake st = (if st = Waiting then Ready else st)"

definition lock_mutex :: "nat \<Rightarrow> thread_pool \<Rightarrow> thread_pool" where
  "lock_mutex w p = set_worker w Locked (p\<lparr>tp_holder := Some w\<rparr>)"

text \<open>The predicate of \<open>wait\<close>, and behind it the test for exit and the pop.\<close>

definition check_queue :: "nat \<Rightarrow> thread_pool \<Rightarrow> thread_pool" where
  "check_queue w p =
     (if tp_tasks p \<noteq> [] \<or> tp_stopping p
      then if tp_stopping p \<and> tp_tasks p = []
           then set_worker w Exited (p\<lparr>tp_holder := None\<rparr>)
           else set_worker w (Taken (hd (tp_tasks p)))
                  (p\<lparr>tp_holder := None, tp_tasks := tl (tp_tasks p),
                     tp_started := tp_started p @ [hd (tp_tasks p)]\<rparr>)
      else set_worker w Decided p)"

definition sleep_on_cv :: "nat \<Rightarrow> thread_pool \<Rightarrow> thread_pool" where
  "sleep_on_cv w p = set_worker w Waiting (p\<lparr>tp_holder := None\<rparr>)"

definition begin_task :: "nat \<Rightarrow> task \<Rightarrow> thread_pool \<Rightarrow> thread_pool" where
  "begin_task w t p = set_worker w (Busy t) (p\<lparr>tp_activeTasks := tp_activeTasks p + 1\<rparr>)"

text \<open>The handler returns or throws; either way the loop goes on.\<close>

definition finish_task :: "nat \<Rightarrow> task \<Rightarrow> thread_pool \<Rightarrow> thread_pool" where
  "finish_task w t p = set_worker w Ready (p\<lparr>tp_activeTasks := tp_activeTasks p - 1,
     tp_finished := tp_finished p @ [t]\<rparr>)"

definition notify_one :: "nat \<Rightarrow> thread_pool \<Rightarrow> thread_pool" where
  "notify_one w p = set_worker w Ready (p\<lparr>tp_to_notify := tp_to_notify p - 1\<rparr>)"

definition notify_all :: "thread_pool \<Rightarrow> thread_pool" where
  "notify_all p = p\<lparr>tp_workers := map wake (tp_workers p), tp_notified := True\<rparr>"

definition pendingCount :: "thread_pool \<Rightarrow> nat" where
  "pendingCount p = length (tp_tasks p)"

definition threadCount :: "thread_pool \<Rightarrow> int" where
  "threadCount p = int (length (tp_workers p))"

text \<open>\<open>stop\<close> returns when every worker has been joined.\<close>

definition joined :: "thread_pool \<Rightarrow> bool" where
  "joined p \<longleftrightarrow> list_all (\<lambda>st. st = Exited) (tp_workers p)"

definition at_worker :: "thread_pool \<Rightarrow> nat \<Rightarrow> worker \<Rightarrow> bool" where
  "at_worker p w st \<longleftrightarrow> w < length (tp_workers p) \<and> tp_workers p ! w = st"

section \<open>Steps\<close>

datatype pool_label =
    Submit task | NotifyOne nat | NotifyNone | StopFlag | NotifyAll
  | Lock nat | Check nat | Sleep nat | Begin nat | Finish nat | Spurious nat

inductive pool_step :: "thread_pool \<Rightarrow> pool_label \<Rightarrow> thread_pool \<Rightarrow> bool" where
  submit: "tp_holder p = None \<Longrightarrow> pool_step p (Submit t) (submit t p)"
| notify_one: "0 < tp_to_notify p \<Longrightarrow> at_worker p w Waiting \<Longrightarrow> pool_step p (NotifyOne w) (notify_one w p)"
| notify_none: "0 < tp_to_notify p \<Longrightarrow> Waiting \<notin> set (tp_workers p) \<Longrightarrow>
    pool_step p NotifyNone (p\<lparr>tp_to_notify := tp_to_notify p - 1\<rparr>)"
| stop_flag: "\<not> tp_stopping p \<Longrightarrow> pool_step p StopFlag (p\<lparr>tp_stopping := True\<rparr>)"
| notify_all: "tp_stopping p \<Longrightarrow> \<not> tp_notified p \<Longrightarrow> pool_step p NotifyAll (notify_all p)"
| lock: "tp_holder p = None \<Longrightarrow> at_worker p w Ready \<Longrightarrow> pool_step p (Lock w) (lock_mutex w p)"
| check: "at_worker p w Locked \<Longrightarrow> pool_step p (Check w) (check_queue w p)"
| sleep: "at_worker p w Decided \<Longrightarrow> pool_step p (Sleep w) (sleep_on_cv w p)"
| begin_taken: "at_worker p w (Taken t) \<Longrightarrow> pool_step p (Begin w) (begin_task w t p)"
| finish: "at_worker p w (Busy t) \<Longrightarrow> pool_step p (Finish w) (finish_task w t p)"
| spurious: "at_worker p w Waiting \<Longrightarrow> pool_step p (Spurious w) (set_worker w Ready p)"

section \<open>Invariant\<close>

fun task_of :: "worker \<Rightarrow> task list" where
  "task_of (Taken t) = [t]"
| "task_of (Busy t) = [t]"
| "task_of _ = []"

fun busy :: "worker \<Rightarrow> int" where
  "busy (Busy t) = 1"
| "busy _ = 0"

definition in_progress :: "thread_pool \<Rightarrow> task multiset" where
  "in_progress p = (\<Sum>st \<in># mset (tp_workers p). mset (task_of st))"

definition busy_count :: "thread_pool \<Rightarrow> int" where
  "busy_count p = (\<Sum>st \<in># mset (tp_workers p). busy st)"

definition pool_inv :: "thread_pool \<Rightarrow> bool" where
  "pool_inv p \<longleftrightarrow> tp_workers p \<noteq> [] \<and> tp_started p @ tp_tasks p = tp_accepted p \<and>
     mset (tp_started p) = mset (tp_finished p) + in_progress p \<and>
     tp_activeTasks p = busy_count p \<and>
     (\<forall>w. tp_holder p = Some w \<longleftrightarrow> at_worker p w Locked \<or> at_worker p w Decided) \<and>
     (Exited \<in> set (tp_workers p) \<longrightarrow> tp_stopping p \<and> tp_tasks p = [])"

lemma pool_inv_holder: "pool_inv p \<Longrightarrow>
    tp_holder p = Some w \<longleftrightarrow> at_worker p w Locked \<or> at_worker p w Decided"
  by (simp add: pool_inv_def)

text \<open>Changing one worker's state changes the sums by that worker's share.\<close>

lemma sum_set_worker:
  fixes f :: "worker \<Rightarrow> 'a :: comm_monoid_add"
  assumes "at_worker p w st"
  shows "\<exists>rest. (\<Sum>x \<in># mset (tp_workers p). f x) = f st + rest \<and>
     (\<Sum>x \<in># mset ((tp_workers p)[w := st']). f x) = f st' + rest"
proof -
  let ?ws = "tp_workers p"
  have "mset ?ws = add_mset st (mset ?ws - {#st#})"
    using assms by (auto simp: at_worker_def)
  moreover have "mset (?ws[w := st']) = add_mset st' (mset ?ws - {#st#})"
    using assms by (auto simp: at_worker_def mset_update)
  ultimately show ?thesis by (metis image_mset_add_mset sum_mset.insert)
qed

lemma set_worker_simps [simp]:
  "tp_tasks (set_worker w st p) = tp_tasks p" "tp_stopping (set_worker w st p) = tp_stopping p"
  "tp_holder (set_worker w st p) = tp_holder p" "tp_activeTasks (set_worker w st p) = tp_activeTasks p"
  "tp_accepted (set_worker w st p) = tp_accepted p" "tp_started (set_worker w st p) = tp_started p"
  "tp_finished (set_worker w st p) = tp_finished p" "tp_notified (set_worker w st p) = tp_notified p"
  "tp_to_notify (set_worker w st p) = tp_to_notify p"
  "length (tp_workers (set_worker w st p)) = length (tp_workers p)"
  "tp_workers (set_worker w st p) = [] \<longleftrightarrow> tp_workers p = []"
  by (simp_all add: set_worker_def)

lemma moved:
  assumes "at_worker p w st" and "tp_workers p' = tp_workers p"
  shows "in_progress (set_worker w st' p') = in_progress p - mset (task_of st) + mset (task_of st')"
    and "mset (task_of st) \<subseteq># in_progress p"
    and "busy_count (set_worker w st' p') = busy_count p - busy st + busy st'"
    and "at_worker (set_worker w st' p') v x \<longleftrightarrow> (if v = w then x = st' else at_worker p v x)"
    and "Exited \<in> set (tp_workers (set_worker w st' p')) \<Longrightarrow> st' = Exited \<or> Exited \<in> set (tp_workers p)"
proof -
  have p': "at_worker p' w st" using assms by (simp add: at_worker_def)
  show "in_progress (set_worker w st' p') = in_progress p - mset (task_of st) + mset (task_of st')"
    "mset (task_of st) \<subseteq># in_progress p"
    using sum_set_worker [OF p', of "\<lambda>st. mset (task_of st)" st'] assms(2)
    by (auto simp: in_progress_def set_worker_def)
  show "busy_count (set_worker w st' p') = busy_count p - busy st + busy st'"
    using sum_set_worker [OF p', of busy st'] assms(2) by (auto simp: busy_count_def set_worker_def)
  show "at_worker (set_worker w st' p') v x \<longleftrightarrow> (if v = w then x = st' else at_worker p v x)"
    using assms by (auto simp: at_worker_def set_worker_def nth_list_update)
  show "Exited \<in> set (tp_workers (set_worker w st' p')) \<Longrightarrow> st' = Exited \<or> Exited \<in> set (tp_workers p)"
    using set_update_subset_insert [of "tp_workers p" w st'] assms(2) by (auto simp: set_worker_def)
qed

lemma at_worker_mem: "at_worker p w st \<Longrightarrow> st \<in> set (tp_workers p)"
  by (auto simp: at_worker_def)

lemma at_worker_unique: "at_worker p w a \<Longrightarrow> at_worker p w b \<Longrightarrow> a = b"
  by (simp add: at_worker_def)

text \<open>A worker that goes from one state to another without touching the queue.\<close>

lemma pool_inv_move:
  assumes inv: "pool_inv p" and w: "at_worker p w st" and same: "tp_workers p' = tp_workers p"
    and frame: "tp_tasks p' = tp_tasks p" "tp_stopping p' = tp_stopping p"
      "tp_accepted p' = tp_accepted p" "tp_started p' = tp_started p"
    and tasks: "mset (tp_finished p') + mset (task_of st') = mset (tp_finished p) + mset (task_of st)"
    and active: "tp_activeTasks p' = tp_activeTasks p - busy st + busy st'"
    and holder: "st' \<in> {Locked, Decided} \<Longrightarrow> tp_holder p' = Some w"
      "st' \<notin> {Locked, Decided} \<Longrightarrow> tp_holder p' = (if st \<in> {Locked, Decided} then None else tp_holder p)"
      "st' \<in> {Locked, Decided} \<Longrightarrow> st \<in> {Locked, Decided} \<or> tp_holder p = None"
    and live: "st' \<noteq> Exited"
  shows "pool_inv (set_worker w st' p')"
proof -
  note m = moved [OF w same]
  have prog: "mset (tp_started p') = mset (tp_finished p') + in_progress (set_worker w st' p')"
  proof -
    obtain r where r: "in_progress p = mset (task_of st) + r" using m(2) by (auto simp: subset_mset.le_iff_add)
    then have "mset (tp_started p) = mset (tp_finished p) + mset (task_of st) + r"
      using inv by (simp add: pool_inv_def ac_simps)
    also have "\<dots> = mset (tp_finished p') + (mset (task_of st') + r)" using tasks by (simp add: ac_simps)
    finally show ?thesis using frame(4) m(1) [of st'] r by (simp add: ac_simps)
  qed
  have hold: "tp_holder p' = Some v \<longleftrightarrow>
      at_worker (set_worker w st' p') v Locked \<or> at_worker (set_worker w st' p') v Decided" for v
  proof -
    have h: "tp_holder p = Some v \<longleftrightarrow> at_worker p v Locked \<or> at_worker p v Decided" for v
      using inv by (simp add: pool_inv_def)
    have "st \<in> {Locked, Decided} \<longleftrightarrow> tp_holder p = Some w"
      using h [of w] w at_worker_unique by blast
    note own = this
    show ?thesis
    proof (cases "st' \<in> {Locked, Decided}")
      case True
      then have "tp_holder p' = Some w" "tp_holder p = Some w \<or> tp_holder p = None"
        using holder(1) [OF True] holder(3) [OF True] own by auto
      then show ?thesis using True h [of v] by (auto simp: m(4))
    next
      case False
      then have "tp_holder p' = (if st \<in> {Locked, Decided} then None else tp_holder p)"
        by (rule holder(2))
      then show ?thesis using False h [of v] own by (auto simp: m(4))
    qed
  qed
  show ?thesis
    using inv prog hold active frame same m(5) [of st'] live
    by (auto simp: pool_inv_def m(3))
qed

lemma pool_inv_start: "pool_inv (start_pool n)"
  by (auto simp: pool_inv_def start_pool_def in_progress_def busy_count_def at_worker_def Let_def)

lemma pool_inv_submit: "pool_inv p \<Longrightarrow> pool_inv (submit t p)"
  by (auto simp: pool_inv_def submit_def in_progress_def busy_count_def at_worker_def)

lemma sum_wake:
  assumes "\<And>st. f (wake st) = f st"
  shows "(\<Sum>st \<in># mset (map wake ws). f st) = (\<Sum>st \<in># mset ws. f st)"
  using assms by (induction ws) auto

lemma pool_inv_notify_all: "pool_inv p \<Longrightarrow> pool_inv (notify_all p)"
proof -
  assume inv: "pool_inv p"
  have "task_of (wake st) = task_of st" "busy (wake st) = busy st" for st by (simp_all add: wake_def)
  then have "in_progress (notify_all p) = in_progress p" "busy_count (notify_all p) = busy_count p"
    unfolding in_progress_def busy_count_def notify_all_def by (simp_all add: sum_wake del: mset_map)
  moreover have "at_worker (notify_all p) w st \<longleftrightarrow> at_worker p w st" if "st \<in> {Locked, Decided}" for w st
    using that by (auto simp: at_worker_def notify_all_def wake_def split: if_splits)
  moreover have "Exited \<in> set (tp_workers (notify_all p)) \<longleftrightarrow> Exited \<in> set (tp_workers p)"
    by (auto simp: notify_all_def wake_def image_iff)
  ultimately show ?thesis using inv by (simp add: pool_inv_def notify_all_def)
qed

lemma pool_inv_check:
  assumes inv: "pool_inv p" and w: "at_worker p w Locked"
  shows "pool_inv (check_queue w p)"
proof -
  have hold: "tp_holder p = Some v \<longleftrightarrow> at_worker p v Locked \<or> at_worker p v Decided" for v
    using inv by (simp add: pool_inv_def)
  then have own: "tp_holder p = Some w" using w by blast
  consider (exit) "tp_stopping p" "tp_tasks p = []" | (task) "tp_tasks p \<noteq> []"
    | (wait) "\<not> tp_stopping p" "tp_tasks p = []" by blast
  then show ?thesis
  proof cases
    case exit
    have same: "tp_workers (p\<lparr>tp_holder := None\<rparr>) = tp_workers p" by simp
      note m = moved [OF w same]
    show ?thesis using inv exit m own hold
      by (simp add: pool_inv_def check_queue_def) (metis option.inject)
  next
    case task
    let ?p' = "p\<lparr>tp_holder := None, tp_tasks := tl (tp_tasks p),
       tp_started := tp_started p @ [hd (tp_tasks p)]\<rparr>"
    have same: "tp_workers ?p' = tp_workers p" by simp
    note m = moved [OF w same]
    have c: "check_queue w p = set_worker w (Taken (hd (tp_tasks p))) ?p'"
      using task by (simp add: check_queue_def)
    have e: "Exited \<notin> set (tp_workers p)" using inv task by (auto simp: pool_inv_def)
    have "in_progress (check_queue w p) = in_progress p + {#hd (tp_tasks p)#}"
      "busy_count (check_queue w p) = busy_count p"
      "Exited \<notin> set (tp_workers (check_queue w p))"
      using m e unfolding c by (simp, simp, fastforce)
    moreover have "\<not> (at_worker (check_queue w p) v Locked \<or> at_worker (check_queue w p) v Decided)" for v
      using m(4) own hold [of v] unfolding c by auto
    moreover have "tp_workers (check_queue w p) \<noteq> []" "tp_holder (check_queue w p) = None"
      "tp_tasks (check_queue w p) = tl (tp_tasks p)" "tp_activeTasks (check_queue w p) = tp_activeTasks p"
      "tp_started (check_queue w p) = tp_started p @ [hd (tp_tasks p)]"
      "tp_finished (check_queue w p) = tp_finished p" "tp_accepted (check_queue w p) = tp_accepted p"
      unfolding c using inv by (simp_all add: pool_inv_def)
    ultimately show ?thesis using inv task unfolding pool_inv_def
      by simp
  next
    case wait
    then show ?thesis unfolding check_queue_def
      by (simp, intro pool_inv_move [OF inv w]) (simp_all add: own)
  qed
qed

lemma pool_inv_step:
  assumes "pool_inv p" and "pool_step p l q" shows "pool_inv q"
  using assms(2,1)
proof (induction rule: pool_step.induct)
  case (submit p t)
  then show ?case by (simp add: pool_inv_submit)
next
  case (notify_one p w)
  then show ?case unfolding notify_one_def by (intro pool_inv_move [where st = Waiting]) simp_all
next
  case (notify_none p)
  then show ?case by (simp add: pool_inv_def in_progress_def busy_count_def at_worker_def)
next
  case (stop_flag p)
  then show ?case by (auto simp: pool_inv_def in_progress_def busy_count_def at_worker_def)
next
  case (notify_all p)
  then show ?case by (simp add: pool_inv_notify_all)
next
  case (lock p w)
  then show ?case unfolding lock_mutex_def by (intro pool_inv_move [where st = Ready]) simp_all
next
  case (check p w)
  then show ?case by (simp add: pool_inv_check)
next
  case (sleep p w)
  then show ?case unfolding sleep_on_cv_def by (intro pool_inv_move [where st = Decided]) simp_all
next
  case (begin_taken p w t)
  then show ?case unfolding begin_task_def by (intro pool_inv_move [where st = "Taken t"]) simp_all
next
  case (finish p w t)
  then show ?case unfolding finish_task_def by (intro pool_inv_move [where st = "Busy t"]) simp_all
next
  case (spurious p w)
  then show ?case by (intro pool_inv_move [where st = Waiting]) simp_all
qed

interpretation pool: invariant_of pool_step pool_inv
  by unfold_locales (rule pool_inv_step)

section \<open>Stopping\<close>

text \<open>
  A worker that sleeps after the last notification: only a spurious wakeup, which the
  standard allows but does not promise, can wake it.
\<close>

definition asleep :: "nat \<Rightarrow> thread_pool \<Rightarrow> bool" where
  "asleep w p \<longleftrightarrow> at_worker p w Waiting \<and> tp_stopping p \<and> tp_notified p \<and> tp_to_notify p = 0"

lemma asleep_step:
  assumes "pool_step p l q" and "asleep w p" and "l \<noteq> Spurious w" shows "asleep w q"
  using assms
proof (cases rule: pool_step.cases)
  case (submit t)
  then show ?thesis using assms(2) by (simp add: asleep_def submit_def at_worker_def)
next
  case (notify_one v)
  then show ?thesis using assms(2) by (simp add: asleep_def)
next
  case notify_none
  then show ?thesis using assms(2) by (simp add: asleep_def)
next
  case notify_all
  then show ?thesis using assms(2) by (simp add: asleep_def)
next
  case (spurious v)
  then show ?thesis using assms(2,3) by (auto simp: asleep_def at_worker_def set_worker_def nth_list_update)
qed (use assms(2) in \<open>auto simp: asleep_def lock_mutex_def check_queue_def sleep_on_cv_def
      begin_task_def finish_task_def at_worker_def set_worker_def nth_list_update\<close>)

lemma asleep_runs: "runs pool_step p ls q \<Longrightarrow> asleep w p \<Longrightarrow> Spurious w \<notin> set ls \<Longrightarrow> asleep w q"
proof (induction rule: runs.induct)
  case (runs_cons p l q ls r)
  then show ?case using asleep_step [OF runs_cons(1), of w] by auto
qed

lemma asleep_not_joined: "asleep w p \<Longrightarrow> \<not> joined p"
  by (force simp: asleep_def at_worker_def joined_def list_all_iff in_set_conv_nth)

text \<open>
  After the last notification a worker that is neither asleep nor about to fall asleep makes
  its way to the exit: every step of a worker makes this measure smaller.
\<close>

fun steps_left :: "worker \<Rightarrow> nat" where
  "steps_left (Taken t) = 4"
| "steps_left (Busy t) = 3"
| "steps_left Ready = 2"
| "steps_left Locked = 1"
| "steps_left _ = 0"

definition stop_measure :: "thread_pool \<Rightarrow> nat" where
  "stop_measure p = (\<Sum>st \<in># mset (tp_workers p). steps_left st) + 4 * length (tp_tasks p)"

definition awake :: "thread_pool \<Rightarrow> bool" where
  "awake p \<longleftrightarrow> tp_stopping p \<and> Waiting \<notin> set (tp_workers p) \<and> Decided \<notin> set (tp_workers p)"

fun by_worker :: "pool_label \<Rightarrow> bool" where
  "by_worker (Lock w) = True"
| "by_worker (Check w) = True"
| "by_worker (Sleep w) = True"
| "by_worker (Begin w) = True"
| "by_worker (Finish w) = True"
| "by_worker _ = False"

lemma measure_set:
  assumes "at_worker p w st" and "tp_workers p' = tp_workers p"
  shows "(\<Sum>st \<in># mset (tp_workers (set_worker w st' p')). steps_left st) + steps_left st =
     (\<Sum>st \<in># mset (tp_workers p). steps_left st) + steps_left st'"
  using sum_set_worker [OF assms(1), of steps_left st'] assms(2) by (auto simp: set_worker_def)

lemma awake_set:
  assumes "awake p" and "tp_workers p' = tp_workers p" and "tp_stopping p' = tp_stopping p"
    and "st' \<notin> {Waiting, Decided}"
  shows "awake (set_worker w st' p')"
  using assms set_update_subset_insert [of "tp_workers p" w st'] by (auto simp: awake_def set_worker_def)

lemma worker_step_measure:
  assumes "pool_step p l q" and "by_worker l" and "awake p"
  shows "awake q \<and> stop_measure q < stop_measure p"
  using assms(1)
proof (cases rule: pool_step.cases)
  case (lock w)
  have "awake q" using lock awake_set [OF assms(3)] by (simp add: lock_mutex_def)
  then show ?thesis using lock measure_set [of p w Ready "p\<lparr>tp_holder := Some w\<rparr>" Locked]
    by (simp add: stop_measure_def lock_mutex_def)
next
  case (check w)
  show ?thesis
  proof (cases "tp_tasks p = []")
    case True
    then have q: "q = set_worker w Exited (p\<lparr>tp_holder := None\<rparr>)"
      using check assms(3) by (simp add: check_queue_def awake_def)
    have "awake q" unfolding q by (rule awake_set [OF assms(3)]) simp_all
    then show ?thesis using measure_set [OF check(3), of "p\<lparr>tp_holder := None\<rparr>" Exited] True
      by (simp add: stop_measure_def q)
  next
    case False
    let ?p' = "p\<lparr>tp_holder := None, tp_tasks := tl (tp_tasks p),
       tp_started := tp_started p @ [hd (tp_tasks p)]\<rparr>"
    have q: "q = set_worker w (Taken (hd (tp_tasks p))) ?p'" using check False by (simp add: check_queue_def)
    have "awake q" unfolding q by (rule awake_set [OF assms(3)]) simp_all
    moreover have "4 * length (tp_tasks p) = 4 * length (tp_tasks q) + 4"
      using False by (cases "tp_tasks p") (simp_all add: q)
    ultimately show ?thesis using measure_set [OF check(3), of ?p' "Taken (hd (tp_tasks p))"]
      by (simp add: stop_measure_def flip: q)
  qed
next
  case (sleep w)
  then show ?thesis using assms(3) at_worker_mem by (metis awake_def)
next
  case (begin_taken w t)
  let ?p' = "p\<lparr>tp_activeTasks := tp_activeTasks p + 1\<rparr>"
  have "awake q" unfolding begin_taken(2) begin_task_def by (rule awake_set [OF assms(3)]) simp_all
  then show ?thesis using begin_taken measure_set [of p w "Taken t" ?p' "Busy t"]
    by (simp add: stop_measure_def begin_task_def)
next
  case (finish w t)
  let ?p' = "p\<lparr>tp_activeTasks := tp_activeTasks p - 1, tp_finished := tp_finished p @ [t]\<rparr>"
  have "awake q" unfolding finish(2) finish_task_def by (rule awake_set [OF assms(3)]) simp_all
  then show ?thesis using finish measure_set [of p w "Busy t" ?p' Ready]
    by (simp add: stop_measure_def finish_task_def)
qed (use assms(2) in simp_all)

lemma worker_runs_measure:
  "runs pool_step p ls q \<Longrightarrow> \<forall>l \<in> set ls. by_worker l \<Longrightarrow> awake p \<Longrightarrow>
     awake q \<and> stop_measure q + length ls \<le> stop_measure p"
proof (induction rule: runs.induct)
  case (runs_cons p l q ls r)
  have "awake q \<and> stop_measure q < stop_measure p"
    using worker_step_measure [OF runs_cons(1)] runs_cons.prems by simp
  then show ?case using runs_cons.IH runs_cons.prems(1) by simp
qed simp

lemma worker_enabled:
  assumes "pool_inv p" and "awake p" and "\<not> joined p"
  shows "\<exists>l q. by_worker l \<and> pool_step p l q"
proof (cases "tp_holder p")
  case (Some w)
  then have "at_worker p w Locked \<or> at_worker p w Decided"
    using pool_inv_holder [OF assms(1)] by simp
  then have "at_worker p w Locked" using assms(2) at_worker_mem by (metis awake_def)
  then show ?thesis using pool_step.check by_worker.simps(2) by blast
next
  case None
  obtain w where w: "w < length (tp_workers p)" "tp_workers p ! w \<noteq> Exited"
    using assms(3) by (auto simp: joined_def list_all_iff in_set_conv_nth)
  have at: "at_worker p w (tp_workers p ! w)" using w by (simp add: at_worker_def)
  have mem: "tp_workers p ! w \<in> set (tp_workers p)" using w(1) by simp
  show ?thesis
  proof (cases "tp_workers p ! w")
    case Ready
    then show ?thesis using pool_step.lock [OF None, of w] at by_worker.simps(1) by fastforce
  next
    case Locked
    then show ?thesis using assms(1) None at by (auto simp: pool_inv_def)
  next
    case (Taken t)
    then show ?thesis using pool_step.begin_taken [of p w t] at by_worker.simps(4) by fastforce
  next
    case (Busy t)
    then show ?thesis using pool_step.finish [of p w t] at by_worker.simps(5) by fastforce
  qed (use assms(2) w(2) mem in \<open>simp_all add: awake_def\<close>)
qed

section \<open>Properties\<close>

lemma sums_exited:
  assumes "joined p"
  shows "in_progress p = {#}" and "busy_count p = 0"
proof -
  have *: "\<forall>st \<in> set ws. st = Exited \<Longrightarrow> (\<Sum>st \<in># mset ws. mset (task_of st)) = {#} \<and>
      (\<Sum>st \<in># mset ws. busy st) = 0" for ws by (induction ws) auto
  show "in_progress p = {#}" "busy_count p = 0"
    using * [of "tp_workers p"] assms by (simp_all add: joined_def list_all_iff in_progress_def busy_count_def)
qed

lemma pool_drained:
  assumes "pool_inv p" and "joined p"
  shows "tp_tasks p = [] \<and> tp_started p = tp_accepted p \<and> mset (tp_finished p) = mset (tp_accepted p) \<and>
    tp_activeTasks p = 0 \<and> tp_stopping p"
proof -
  have "Exited \<in> set (tp_workers p)" using assms
    by (cases "tp_workers p") (auto simp: joined_def pool_inv_def)
  then show ?thesis using assms(1) sums_exited [OF assms(2)] by (auto simp: pool_inv_def)
qed

text \<open>C18. In every interleaving of the workers with submissions and a stop, clients are started in
  the order they were accepted, none is lost or served twice, the count of active tasks is the
  number of busy workers, and at most one worker holds the lock.\<close>

theorem tasks_served_in_order:
  assumes "runs pool_step (start_pool n) ls p"
  shows "tp_started p @ tp_tasks p = tp_accepted p \<and>
    mset (tp_accepted p) = mset (tp_tasks p) + in_progress p + mset (tp_finished p) \<and>
    tp_activeTasks p = busy_count p \<and>
    (\<forall>v w. (at_worker p v Locked \<or> at_worker p v Decided) \<longrightarrow>
       (at_worker p w Locked \<or> at_worker p w Decided) \<longrightarrow> v = w)"
proof -
  have inv: "pool_inv p" using pool.inv_runs [OF assms pool_inv_start] .
  then have "mset (tp_accepted p) = mset (tp_started p) + mset (tp_tasks p)"
    by (metis mset_append pool_inv_def)
  then show ?thesis using inv by (auto simp: pool_inv_def ac_simps) (metis option.inject)+
qed

text \<open>C20. When \<open>stop\<close> returns, every client that was accepted has been served to its end: the
  queue is drained, not discarded as the header file says.\<close>

theorem stop_drains_queue:
  assumes "runs pool_step (start_pool n) ls p" and "joined p"
  shows "tp_tasks p = [] \<and> mset (tp_finished p) = mset (tp_accepted p) \<and> tp_activeTasks p = 0 \<and>
    tp_stopping p"
  using pool_drained [OF pool.inv_runs [OF assms(1) pool_inv_start] assms(2)] by simp

text \<open>C23. Once \<open>stop\<close> has set the flag and no worker sleeps or is about to, the workers finish on
  their own: whatever order they run in, at most \<open>stop_measure\<close> steps remain, and until all
  have exited one of them can take a step (handlers are assumed to return).\<close>

theorem stop_returns:
  assumes "runs pool_step (start_pool n) ks p" and "awake p"
    and "runs pool_step p ls q" and "\<forall>l \<in> set ls. by_worker l"
  shows "length ls \<le> stop_measure p \<and> (\<not> joined q \<longrightarrow> (\<exists>l r. by_worker l \<and> pool_step q l r))"
proof -
  have "pool_inv q"
    using pool.inv_runs [OF assms(3)] pool.inv_runs [OF assms(1) pool_inv_start] by blast
  then show ?thesis using worker_runs_measure [OF assms(3,4,2)] worker_enabled by auto
qed

text \<open>C21. \<open>stop\<close> can hang: it sets the flag without holding the mutex, so the flag and the
  notification can both fall between a worker's look at the wait predicate and its going to
  sleep. Then no step of the program wakes the worker again, and \<open>join\<close> never returns
  (except for a spurious wakeup).\<close>

theorem stop_can_lose_wakeup:
  "\<exists>ls p. runs pool_step (start_pool 1) ls p \<and> tp_stopping p \<and> tp_notified p \<and>
     (\<forall>ms q. runs pool_step p ms q \<longrightarrow> (\<forall>w. Spurious w \<notin> set ms) \<longrightarrow> \<not> joined q)"
proof -
  define p1 where "p1 = lock_mutex 0 (start_pool 1)"
  define p2 where "p2 = check_queue 0 p1"
  define p3 where "p3 = notify_all (p2\<lparr>tp_stopping := True\<rparr>)"
  define p4 where "p4 = sleep_on_cv 0 p3"
  note defs = p1_def p2_def p3_def p4_def start_pool_def lock_mutex_def check_queue_def
    sleep_on_cv_def notify_all_def set_worker_def at_worker_def wake_def
  have "pool_step (start_pool 1) (Lock 0) p1" unfolding p1_def
    by (rule pool_step.lock) (simp_all add: start_pool_def at_worker_def)
  moreover have "pool_step p1 (Check 0) p2" unfolding p2_def
    by (rule pool_step.check) (simp add: defs)
  moreover have "pool_step p2 StopFlag (p2\<lparr>tp_stopping := True\<rparr>)"
    by (rule pool_step.stop_flag) (simp add: defs)
  moreover have "pool_step (p2\<lparr>tp_stopping := True\<rparr>) NotifyAll p3" unfolding p3_def
    by (rule pool_step.notify_all) (simp_all add: defs)
  moreover have "pool_step p3 (Sleep 0) p4" unfolding p4_def
    by (rule pool_step.sleep) (simp add: defs)
  ultimately have "runs pool_step (start_pool 1) [Lock 0, Check 0, StopFlag, NotifyAll, Sleep 0] p4"
    by (auto simp: runs_Cons_iff)
  moreover have "asleep 0 p4" by (simp add: asleep_def defs)
  ultimately show ?thesis using asleep_runs asleep_not_joined
    by (metis asleep_def)
qed

theorem stop_can_lose_wakeup_witness:
  "\<exists>ls p. runs pool_step (start_pool 1) ls p \<and> tp_notified p \<and> \<not> joined p"
proof -
  obtain ls p where run: "runs pool_step (start_pool 1) ls p" and n: "tp_notified p"
    and hang: "\<forall>ms q. runs pool_step p ms q \<longrightarrow> (\<forall>w. Spurious w \<notin> set ms) \<longrightarrow> \<not> joined q"
    using stop_can_lose_wakeup by blast
  have "\<not> joined p" using hang [rule_format, of "[]" p] by simp
  with run n show ?thesis by blast
qed

text \<open>One worker and one client: accepted, served, and the pool stopped.\<close>

definition client_task :: task where "client_task = \<lparr>tk_fd = 5, tk_addr = ''10.0.0.1:4000''\<rparr>"

definition served_labels :: "pool_label list" where
  "served_labels = [Submit client_task, NotifyNone, Lock 0, Check 0, Begin 0, StopFlag, NotifyAll]"

definition served_pool :: thread_pool where
  "served_pool = notify_all ((begin_task 0 client_task (check_queue 0 (lock_mutex 0
     ((submit client_task (start_pool 1))\<lparr>tp_to_notify := 0\<rparr>))))\<lparr>tp_stopping := True\<rparr>)"

lemmas example_defs = served_pool_def submit_def start_pool_def lock_mutex_def check_queue_def
  begin_task_def finish_task_def notify_all_def set_worker_def wake_def at_worker_def

lemma served_runs: "runs pool_step (start_pool 1) served_labels served_pool"
proof -
  define p1 where "p1 = submit client_task (start_pool 1)"
  define p2 where "p2 = p1\<lparr>tp_to_notify := tp_to_notify p1 - 1\<rparr>"
  define p3 where "p3 = lock_mutex 0 p2"
  define p4 where "p4 = check_queue 0 p3"
  define p5 where "p5 = begin_task 0 client_task p4"
  define p6 where "p6 = p5\<lparr>tp_stopping := True\<rparr>"
  note defs = p1_def p2_def p3_def p4_def p5_def p6_def example_defs
  have "pool_step (start_pool 1) (Submit client_task) p1"
    unfolding p1_def by (rule pool_step.submit) (simp add: start_pool_def)
  moreover have "pool_step p1 NotifyNone p2" unfolding p2_def by (rule pool_step.notify_none) (simp_all add: defs)
  moreover have "pool_step p2 (Lock 0) p3" unfolding p3_def by (rule pool_step.lock) (simp_all add: defs)
  moreover have "pool_step p3 (Check 0) p4" unfolding p4_def by (rule pool_step.check) (simp add: defs)
  moreover have "pool_step p4 (Begin 0) p5" unfolding p5_def by (rule pool_step.begin_taken) (simp add: defs)
  moreover have "pool_step p5 StopFlag p6" unfolding p6_def by (rule pool_step.stop_flag) (simp add: defs)
  moreover have "pool_step p6 NotifyAll (notify_all p6)"
    by (rule pool_step.notify_all) (simp_all add: defs)
  moreover have "notify_all p6 = served_pool" by (simp add: defs)
  ultimately show ?thesis unfolding served_labels_def by (metis runs_cons runs_nil)
qed

theorem tasks_served_in_order_witness:
  "tp_started served_pool @ tp_tasks served_pool = tp_accepted served_pool \<and>
     tp_accepted served_pool = [client_task]"
  using tasks_served_in_order [OF served_runs] by (simp add: example_defs)

lemma served_exit: "runs pool_step served_pool [Finish 0, Lock 0, Check 0]
    (check_queue 0 (lock_mutex 0 (finish_task 0 client_task served_pool)))"
proof -
  have "pool_step served_pool (Finish 0) (finish_task 0 client_task served_pool)"
    by (rule pool_step.finish) (simp add: example_defs)
  moreover have "pool_step (finish_task 0 client_task served_pool) (Lock 0)
      (lock_mutex 0 (finish_task 0 client_task served_pool))"
    by (rule pool_step.lock) (simp_all add: example_defs)
  moreover have "pool_step (lock_mutex 0 (finish_task 0 client_task served_pool)) (Check 0)
      (check_queue 0 (lock_mutex 0 (finish_task 0 client_task served_pool)))"
    by (rule pool_step.check) (simp add: example_defs)
  ultimately show ?thesis by (auto simp: runs_Cons_iff)
qed

theorem stop_drains_queue_witness:
  "mset (tp_finished (check_queue 0 (lock_mutex 0 (finish_task 0 client_task served_pool)))) = {#client_task#}"
proof -
  let ?q = "check_queue 0 (lock_mutex 0 (finish_task 0 client_task served_pool))"
  have "joined ?q" "tp_accepted ?q = [client_task]" by (simp_all add: joined_def example_defs)
  then show ?thesis using stop_drains_queue [OF runs_append [OF served_runs served_exit]] by simp
qed

theorem stop_returns_witness: "3 \<le> stop_measure served_pool"
proof -
  have "awake served_pool" by (simp add: awake_def example_defs)
  then show ?thesis using stop_returns [OF served_runs _ served_exit] by simp
qed

end
