(* ===== verification/Service.thy ===== *)
theory Service
  imports Requests Match
begin

text \<open>
  The properties of the request handler: one printed reply and one count per request, the
  invariant of the server, what a refused request leaves alone, the one way into undefined
  behaviour, which requests are accepted, and the effect of a request on the players.
\<close>

section \<open>The game operation a request asks for\<close>

definition int_arg :: "json \<Rightarrow> string \<Rightarrow> int option" where
  "int_arg req k = (case requireInt req k of Some (Ret (Inr i)) \<Rightarrow> Some i | _ \<Rightarrow> None)"

definition string_arg :: "json \<Rightarrow> string \<Rightarrow> string option" where
  "string_arg req k = (case requireString req k of Some (Ret (Inr t)) \<Rightarrow> Some t | _ \<Rightarrow> None)"

definition requested_op :: "request_env \<Rightarrow> string \<Rightarrow> json \<Rightarrow> game_op option" where
  "requested_op env action req =
     (if action = ''JOIN'' then do {
        pid \<leftarrow> int_arg req ''player_id''; Some (AddPlayer (e_clk env) pid) }
      else if action = ''MOVE'' then do {
        pid \<leftarrow> int_arg req ''player_id''; x \<leftarrow> int_arg req ''x''; y \<leftarrow> int_arg req ''y'';
        Some (MovePlayer pid x y) }
      else if action = ''ATTACK'' then do {
        pid \<leftarrow> int_arg req ''player_id''; target \<leftarrow> int_arg req ''target_id'';
        Some (AttackPlayer pid target) }
      else if action = ''UPDATE_SCORE'' then do {
        pid \<leftarrow> int_arg req ''player_id''; score \<leftarrow> int_arg req ''score'';
        if score < 0 then None else Some (SetScore pid score) }
      else if action = ''LEAVE'' then do {
        pid \<leftarrow> int_arg req ''player_id''; Some (RemovePlayer pid) }
      else None)"

definition apply_op :: "game_op option \<Rightarrow> (int \<rightharpoonup> player_state) \<Rightarrow> (int \<rightharpoonup> player_state)" where
  "apply_op op m = (case op of None \<Rightarrow> m | Some o' \<Rightarrow> spec_op o' m)"

lemma apply_op_simps [simp]: "apply_op None m = m" "apply_op (Some op) m = spec_op op m"
  by (simp_all add: apply_op_def)

definition requested :: "request_env \<Rightarrow> string \<Rightarrow> game_op option" where
  "requested env raw = (case parse raw of
       Throw _ \<Rightarrow> None
     | Ret req \<Rightarrow> (case json_get req ''action'' of
          Some (JString action) \<Rightarrow> requested_op env action req
        | _ \<Rightarrow> None))"

section \<open>Effects outside the game leave the players alone\<close>

lemma arena_log_event [simp]: "arena (s_game (log_event env pid ty dat s)) = arena (s_game s)"
  by (simp add: log_event_def arena_event)

lemma game_update_gauge [simp]: "s_game (update_gauge s) = s_game s"
  by (simp add: update_gauge_def)

lemma game_if_db [simp]: "s_game (if_db body s) = s_game s"
  by (auto simp: if_db_def split: option.splits prod.splits)

lemma game_if_cache: "if_cache body s = (r, s') \<Longrightarrow> s_game s' = s_game s"
  by (auto simp: if_cache_def split: option.splits prod.splits if_splits)

lemma required_int_arg:
  obtains (err) e where "int_arg j k = None"
      and "\<And>s rest. required (requireInt j k) s rest = Some (Ret (errorResponse e), s)"
  | (pass) i where "int_arg j k = Some i" and "in_i32 i"
      and "\<And>s rest. required (requireInt j k) s rest = rest i"
  by (rule requireInt_cases [of j k]) (auto simp: required_def int_arg_def intro: err pass)

lemma required_string_arg:
  obtains (err) e where "string_arg j k = None"
      and "\<And>s rest. required (requireString j k) s rest = Some (Ret (errorResponse e), s)"
  | (pass) t where "string_arg j k = Some t"
      and "\<And>s rest. required (requireString j k) s rest = rest t"
  by (rule requireString_cases [of j k]) (auto simp: required_def string_arg_def intro: err pass)

lemma clamp_spec: "spec_op (MovePlayer pid (clamp x MAP_MIN MAP_MAX) (clamp y MAP_MIN MAP_MAX)) m =
    spec_op (MovePlayer pid x y) m"
  by (auto simp: clamp_def game_consts split: option.splits)

section \<open>The effect of the actions on the players\<close>

lemma arena_join: "handleJoin env req s = Some (r, s') \<Longrightarrow>
    arena (s_game s') = apply_op (requested_op env ''JOIN'' req) (arena (s_game s))"
proof (cases rule: required_int_arg [of req "''player_id''"])
  case (pass pid)
  assume h: "handleJoin env req s = Some (r, s')"
  obtain q g where g: "addPlayer (e_clk env) pid (s_game s) = (q, g)" by fastforce
  then have "arena g = spec_op (AddPlayer (e_clk env) pid) (arena (s_game s))"
    using arena_add by (metis snd_conv)
  then show ?thesis using h g pass
    by (auto simp: handleJoin_def requested_op_def Let_def split: sum.splits prod.splits exc.splits
        dest!: game_if_cache)
qed (auto simp: handleJoin_def requested_op_def)

lemma arena_handleMove: "handleMove env req s = Some (r, s') \<Longrightarrow>
    arena (s_game s') = apply_op (requested_op env ''MOVE'' req) (arena (s_game s))"
proof (cases rule: required_int_arg [of req "''player_id''"])
  case (pass pid)
  assume h: "handleMove env req s = Some (r, s')"
  show ?thesis
  proof (cases rule: required_int_arg [of req "''x''"])
    case px: (pass x)
    show ?thesis
    proof (cases rule: required_int_arg [of req "''y''"])
      case py: (pass y)
      let ?x = "clamp x MAP_MIN MAP_MAX" and ?y = "clamp y MAP_MIN MAP_MAX"
      obtain q g where g: "movePlayer pid ?x ?y (s_game s) = (q, g)" by fastforce
      then have "arena g = spec_op (MovePlayer pid x y) (arena (s_game s))"
        using arena_move clamp_spec by (metis snd_conv)
      then show ?thesis using h g pass px py
        by (auto simp: handleMove_def requested_op_def Let_def split: sum.splits prod.splits
            dest!: game_if_cache)
    qed (use h pass px in \<open>auto simp: handleMove_def requested_op_def\<close>)
  qed (use h pass in \<open>auto simp: handleMove_def requested_op_def\<close>)
qed (auto simp: handleMove_def requested_op_def)

lemma arena_handleAttack: "handleAttack env req s = Some (r, s') \<Longrightarrow>
    arena (s_game s') = apply_op (requested_op env ''ATTACK'' req) (arena (s_game s))"
proof (cases rule: required_int_arg [of req "''player_id''"])
  case (pass pid)
  assume h: "handleAttack env req s = Some (r, s')"
  show ?thesis
  proof (cases rule: required_int_arg [of req "''target_id''"])
    case pt: (pass target)
    obtain q g where g: "attackPlayer pid target (s_game s) = Some (q, g)"
      using h pass pt by (cases "attackPlayer pid target (s_game s)") (auto simp: handleAttack_def)
    then have "arena g = spec_op (AttackPlayer pid target) (arena (s_game s))" by (rule arena_attack)
    then show ?thesis using h g pass pt
      by (auto simp: handleAttack_def requested_op_def Let_def simp del: spec_op.simps
          split: sum.splits)
  qed (use h pass in \<open>auto simp: handleAttack_def requested_op_def\<close>)
qed (auto simp: handleAttack_def requested_op_def)

lemma arena_handleScore: "handleUpdateScore env req s = Some (r, s') \<Longrightarrow>
    arena (s_game s') = apply_op (requested_op env ''UPDATE_SCORE'' req) (arena (s_game s))"
proof (cases rule: required_int_arg [of req "''player_id''"])
  case (pass pid)
  assume h: "handleUpdateScore env req s = Some (r, s')"
  show ?thesis
  proof (cases rule: required_int_arg [of req "''score''"])
    case ps: (pass score)
    obtain q g where g: "setScore pid score (s_game s) = (q, g)" by fastforce
    then have "arena g = spec_op (SetScore pid score) (arena (s_game s))"
      using arena_score by (metis snd_conv)
    then show ?thesis using h g pass ps
      by (auto simp: handleUpdateScore_def requested_op_def Let_def split: sum.splits if_splits)
  qed (use h pass in \<open>auto simp: handleUpdateScore_def requested_op_def\<close>)
qed (auto simp: handleUpdateScore_def requested_op_def)

lemma arena_leave: "handleLeave env req s = Some (r, s') \<Longrightarrow>
    arena (s_game s') = apply_op (requested_op env ''LEAVE'' req) (arena (s_game s))"
proof (cases rule: required_int_arg [of req "''player_id''"])
  case (pass pid)
  assume h: "handleLeave env req s = Some (r, s')"
  obtain q g where g: "removePlayer pid (s_game s) = (q, g)" by fastforce
  then have "arena g = spec_op (RemovePlayer pid) (arena (s_game s))"
    using arena_remove by (metis snd_conv)
  then show ?thesis using h g pass
    by (auto simp: handleLeave_def requested_op_def Let_def split: sum.splits prod.splits
        dest!: game_if_cache)
qed (auto simp: handleLeave_def requested_op_def)

lemma arena_chat: "handleChat env req s = Some (r, s') \<Longrightarrow> arena (s_game s') = arena (s_game s)"
proof (cases rule: required_int_arg [of req "''player_id''"])
  case (pass pid)
  assume h: "handleChat env req s = Some (r, s')"
  show ?thesis
    by (cases rule: required_string_arg [of req "''message''"])
       (use h pass in \<open>auto simp: handleChat_def split: if_splits\<close>)
qed (auto simp: handleChat_def)

lemma arena_state: "handleGetState env req s = Some (r, s') \<Longrightarrow> s_game s' = s_game s"
  by (auto simp: handleGetState_def split: option.splits exc.splits if_splits prod.splits
      dest!: game_if_cache)

lemma arena_metrics: "handleGetMetrics s = Some (r, s') \<Longrightarrow> s_game s' = s_game s"
  by (auto simp: handleGetMetrics_def split: exc.splits)

lemma requested_none: "action \<notin> {''JOIN'', ''MOVE'', ''ATTACK'', ''UPDATE_SCORE'', ''LEAVE''} \<Longrightarrow>
    requested_op env action req = None"
  by (simp add: requested_op_def)

lemma arena_dispatch:
  assumes "dispatch_action env action req s = Some (r, s')"
  shows "arena (s_game s') = apply_op (requested_op env action req) (arena (s_game s))"
proof -
  note d = assms [unfolded dispatch_action_def]
  show ?thesis
  proof (cases "action \<in> {''JOIN'', ''MOVE'', ''ATTACK'', ''CHAT'', ''GET_STATE'', ''UPDATE_SCORE'',
      ''LEAVE'', ''GET_METRICS''}")
    case True
    then show ?thesis using d
      by (elim insertE emptyE)
         (simp_all add: arena_join arena_handleMove arena_handleAttack arena_chat arena_state
           arena_handleScore arena_leave arena_metrics requested_none)
  next
    case False
    then show ?thesis using d requested_none [of action] by simp
  qed
qed

lemma arena_handle:
  assumes "handle env raw s = Some (r, s')"
  shows "arena (s_game s') = apply_op (requested env raw) (arena (s_game s))"
proof (cases rule: handle_cases [of raw env s])
  case (invalid e)
  then have "requested env raw = None"
    by (auto simp: requested_def split: exc.splits option.splits json.splits)
  then show ?thesis using invalid assms by simp
next
  case (valid req action)
  obtain j s1 where r: "respond env action req (with_metrics incrementRequestsTotal s) = Some (j, s1)"
    using assms valid(5) by (auto split: option.splits)
  obtain x where "dispatch_action env action req (with_metrics incrementRequestsTotal s) = Some (x, s1)"
    using r by (auto simp: respond_def split: option.splits exc.splits)
  then have "arena (s_game s1) = apply_op (requested env raw) (arena (s_game s))"
    using arena_dispatch valid(1,2) by (simp add: requested_def)
  moreover have "s_game s' = s_game s1"
    using assms valid(5) r by (auto simp: count_result_def split: exc.splits prod.splits)
  ultimately show ?thesis by simp
qed

lemma one_request: "handle env raw s = Some (Ret r, t) \<Longrightarrow> runs server_step s [(env, raw, r)] t"
  by (rule runs_cons, erule server_step.request) simp

text \<open>A request that is not an attack returns.\<close>

lemma handle_returns:
  assumes "log_printable s" and "parse raw = Ret req" and "json_get req ''action'' \<noteq> Some (JString ''ATTACK'')"
  obtains r s' where "handle env raw s = Some (Ret r, s')" and "log_printable s'"
proof -
  have "handle env raw s \<noteq> None" using assms(2,3) by (auto simp: handle_undefined asks_attack_def)
  then obtain x s' where x: "handle env raw s = Some (x, s')" by auto
  then obtain j u where "x = Ret u" "serves s j s'" using handle_serves [OF assms(1)] by blast
  then show thesis using that x by (simp add: serves_def)
qed

definition join_text :: "string \<Rightarrow> string" where
  "join_text pid = ''{\"action\":\"JOIN\",\"player_id\":'' @ pid @ ''}''"

definition join_req :: "nat \<Rightarrow> json" where
  "join_req n = JObject [(''action'', JString ''JOIN''), (''player_id'', JUInt n)]"

lemma join_parse: "parse (join_text ''1'') = Ret (join_req 1)" "parse (join_text ''2'') = Ret (join_req 2)"
  unfolding join_text_def join_req_def by code_simp+

lemma join_action [simp]: "json_get (join_req n) ''action'' = Some (JString ''JOIN'')"
  by (simp add: join_req_def json_get_def)

lemma join_requested: "in_i32 (int n) \<Longrightarrow>
    requested_op env ''JOIN'' (join_req n) = Some (AddPlayer (e_clk env) (int n))"
  by (simp add: requested_op_def join_req_def int_arg_def requireInt_def contains_def json_get_def
      is_number_integer_def get_int_def)

section \<open>Which requests are accepted\<close>

definition present :: "server_state \<Rightarrow> int option \<Rightarrow> bool" where
  "present s pid \<longleftrightarrow> (\<exists>i. pid = Some i \<and> arena (s_game s) i \<noteq> None)"

definition accepted :: "string \<Rightarrow> json \<Rightarrow> server_state \<Rightarrow> bool" where
  "accepted action req s \<longleftrightarrow>
     (let pid = int_arg req ''player_id'' in
      if action = ''JOIN'' then pid \<noteq> None \<and> \<not> present s pid
      else if action = ''MOVE'' then
        present s pid \<and> int_arg req ''x'' \<noteq> None \<and> int_arg req ''y'' \<noteq> None
      else if action = ''ATTACK'' then
        present s pid \<and> present s (int_arg req ''target_id'') \<and> pid \<noteq> int_arg req ''target_id''
      else if action = ''CHAT'' then
        present s pid \<and> (\<exists>m. string_arg req ''message'' = Some m \<and> m \<noteq> [] \<and>
           to_i32 (int (length m)) \<le> 256)
      else if action = ''GET_STATE'' then pid = None \<or> present s pid
      else if action = ''UPDATE_SCORE'' then
        present s pid \<and> (\<exists>sc. int_arg req ''score'' = Some sc \<and> 0 \<le> sc)
      else if action = ''LEAVE'' then present s pid
      else action = ''GET_METRICS'')"

lemma accepted_join: "handleJoin env req s = Some (Ret j, s') \<Longrightarrow>
    status_of j = Some ''ok'' \<longleftrightarrow> accepted ''JOIN'' req s"
proof (cases rule: required_int_arg [of req "''player_id''"])
  case (pass pid)
  assume "handleJoin env req s = Some (Ret j, s')"
  then show ?thesis using pass
    by (auto simp: handleJoin_def accepted_def present_def addPlayer_def hm_count_def arena_def Let_def
        status_init split: if_splits prod.splits exc.splits)
qed (auto simp: handleJoin_def accepted_def)

lemma accepted_move: "handleMove env req s = Some (Ret j, s') \<Longrightarrow>
    status_of j = Some ''ok'' \<longleftrightarrow> accepted ''MOVE'' req s"
proof (cases rule: required_int_arg [of req "''player_id''"])
  case (pass pid)
  assume h: "handleMove env req s = Some (Ret j, s')"
  show ?thesis
  proof (cases rule: required_int_arg [of req "''x''"])
    case px: (pass x)
    show ?thesis
      by (cases rule: required_int_arg [of req "''y''"])
         (use h pass px in \<open>auto simp: handleMove_def accepted_def present_def movePlayer_def arena_def
            Let_def status_init split: option.splits prod.splits\<close>)
  qed (use h pass in \<open>auto simp: handleMove_def accepted_def\<close>)
qed (auto simp: handleMove_def accepted_def present_def)

lemma accepted_attack: "handleAttack env req s = Some (Ret j, s') \<Longrightarrow>
    status_of j = Some ''ok'' \<longleftrightarrow> accepted ''ATTACK'' req s"
proof (cases rule: required_int_arg [of req "''player_id''"])
  case (pass a)
  assume h: "handleAttack env req s = Some (Ret j, s')"
  show ?thesis
  proof (cases rule: required_int_arg [of req "''target_id''"])
    case pb: (pass b)
    obtain q g where g: "attackPlayer a b (s_game s) = Some (q, g)"
      using h pass pb by (cases "attackPlayer a b (s_game s)") (auto simp: handleAttack_def)
    have ok: "(\<exists>x. q = Inr x) \<longleftrightarrow> a \<noteq> b \<and> arena (s_game s) a \<noteq> None \<and> arena (s_game s) b \<noteq> None"
      using g by (cases rule: attack_cases) (auto simp: arena_def)
    show ?thesis
    proof (cases q)
      case (Inl e)
      then have "status_of j = Some ''error''" using h pass pb g by (auto simp: handleAttack_def Let_def)
      then show ?thesis using ok Inl pass pb by (auto simp: accepted_def present_def)
    next
      case (Inr x)
      then have "attack_reply a b x = Ret j" using h pass pb g by (auto simp: handleAttack_def Let_def)
      then have "status_of j = Some ''ok''" using attack_reply_ok [of a b x] by auto
      then show ?thesis using ok Inr pass pb by (auto simp: accepted_def present_def)
    qed
  qed (use h pass in \<open>auto simp: handleAttack_def accepted_def present_def\<close>)
qed (auto simp: handleAttack_def accepted_def present_def)

lemma accepted_chat: "handleChat env req s = Some (Ret j, s') \<Longrightarrow>
    status_of j = Some ''ok'' \<longleftrightarrow> accepted ''CHAT'' req s"
proof (cases rule: required_int_arg [of req "''player_id''"])
  case (pass pid)
  assume h: "handleChat env req s = Some (Ret j, s')"
  show ?thesis
    by (cases rule: required_string_arg [of req "''message''"])
       (use h pass in \<open>auto simp: handleChat_def accepted_def present_def hasPlayer_def hm_count_def
          arena_def status_init game_consts split: if_splits\<close>)
qed (auto simp: handleChat_def accepted_def present_def)

lemma accepted_score: "handleUpdateScore env req s = Some (Ret j, s') \<Longrightarrow>
    status_of j = Some ''ok'' \<longleftrightarrow> accepted ''UPDATE_SCORE'' req s"
proof (cases rule: required_int_arg [of req "''player_id''"])
  case (pass pid)
  assume h: "handleUpdateScore env req s = Some (Ret j, s')"
  show ?thesis
    by (cases rule: required_int_arg [of req "''score''"])
       (use h pass in \<open>auto simp: handleUpdateScore_def accepted_def present_def setScore_def arena_def
          Let_def status_init split: option.splits if_splits\<close>)
qed (auto simp: handleUpdateScore_def accepted_def present_def)

lemma accepted_leave: "handleLeave env req s = Some (Ret j, s') \<Longrightarrow>
    status_of j = Some ''ok'' \<longleftrightarrow> accepted ''LEAVE'' req s"
proof (cases rule: required_int_arg [of req "''player_id''"])
  case (pass pid)
  assume "handleLeave env req s = Some (Ret j, s')"
  then show ?thesis using pass
    by (auto simp: handleLeave_def accepted_def present_def removePlayer_def arena_def Let_def
        status_init split: option.splits if_splits prod.splits)
qed (auto simp: handleLeave_def accepted_def present_def)

lemma int_arg_integer: "int_arg req k = (case json_get req k of
     None \<Rightarrow> None
   | Some v \<Rightarrow> if is_number_integer v then (case get_int v of Some (Ret i) \<Rightarrow> Some i | _ \<Rightarrow> None) else None)"
  by (auto simp: int_arg_def requireInt_def contains_iff_get split: option.splits exc.splits)

lemma state_reply_status: "state_reply env s = Ret j \<Longrightarrow> status_of j = Some ''ok''"
  using state_reply_ok [of env s] by auto

lemma accepted_state: "handleGetState env req s = Some (Ret j, s') \<Longrightarrow>
    status_of j = Some ''ok'' \<longleftrightarrow> accepted ''GET_STATE'' req s"
  by (auto simp: handleGetState_def accepted_def present_def int_arg_integer contains_iff_get
      hasPlayer_def hm_count_def arena_def state_reply_status
      split: option.splits if_splits exc.splits prod.splits dest: get_int_integer)

lemma accepted_dispatch:
  assumes "dispatch_action env action req s = Some (Ret j, s')"
  shows "status_of j = Some ''ok'' \<longleftrightarrow> accepted action req s"
proof -
  note d = assms [unfolded dispatch_action_def]
  show ?thesis
  proof (cases "action \<in> {''JOIN'', ''MOVE'', ''ATTACK'', ''CHAT'', ''GET_STATE'', ''UPDATE_SCORE'',
      ''LEAVE'', ''GET_METRICS''}")
    case True
    then show ?thesis using d metrics_reply_ok [of s]
      by (elim insertE emptyE)
         (simp_all add: accepted_join accepted_move accepted_attack accepted_chat accepted_state
           accepted_score accepted_leave, auto simp: accepted_def)
  next
    case False
    then have "status_of j = Some ''error''" using d by auto
    then show ?thesis using False by (simp add: accepted_def)
  qed
qed

section \<open>Exceptions of the handlers\<close>

text \<open>
  The look-up of the session of a player is the only call that can throw: on a reply of Redis
  whose length is not a number.
\<close>

definition session_unreadable :: "request_env \<Rightarrow> string \<Rightarrow> json \<Rightarrow> server_state \<Rightarrow> bool" where
  "session_unreadable env action req s \<longleftrightarrow> action = ''GET_STATE'' \<and> present s (int_arg req ''player_id'') \<and>
     (case s_cache s of None \<Rightarrow> False
      | Some c \<Rightarrow> m_enabled c \<and>
          (case getPlayerSession (e_redis env 0) (the (int_arg req ''player_id'')) (c, s_metrics s) of
             (Throw _, _) \<Rightarrow> True | (Ret _, _) \<Rightarrow> False))"

definition no_throw :: "reply \<Rightarrow> bool" where
  "no_throw r \<longleftrightarrow> (\<forall>e s'. r \<noteq> Some (Throw e, s'))"

lemma no_throw_simps [simp]: "no_throw None" "no_throw (Some (Ret j, s))" "\<not> no_throw (Some (Throw e, s))"
  by (simp_all add: no_throw_def)

lemma no_throw_required_int: "(\<And>i. no_throw (rest i)) \<Longrightarrow> no_throw (required (requireInt j k) s rest)"
  by (rule required_int_arg [of j k]) simp_all

lemma no_throw_required_string: "(\<And>t. no_throw (rest t)) \<Longrightarrow> no_throw (required (requireString j k) s rest)"
  by (rule required_string_arg [of j k]) simp_all

lemma setPlayerSession_returns:
  assumes "setPlayerSession a pid session ttl c = (r, c')" and "dumpable session" shows "\<exists>ok. r = Ret ok"
proof -
  obtain t where "dump session = Ret t" using dump_total [OF assms(2)] by blast
  then show ?thesis using assms(1)
    by (auto simp: setPlayerSession_def on_pool_def with_pooled_def
        split: bool.splits option.splits prod.splits)
qed

lemma no_throw_game_op: "(\<And>x g. no_throw (K x g)) \<Longrightarrow>
    no_throw (case op of (Inl err, g) \<Rightarrow> Some (Ret (errorResponse err), s\<lparr>s_game := g\<rparr>) | (Inr x, g) \<Rightarrow> K x g)"
  by (simp split: prod.split sum.split)

lemma no_throw_if_cache:
  assumes "\<And>c m. \<exists>cm. body (c, m) = (Ret (), cm)" and "\<And>s2. no_throw (K s2)"
  shows "no_throw (case if_cache body s1 of (Throw e, s2) \<Rightarrow> Some (Throw e, s2) | (Ret _, s2) \<Rightarrow> K s2)"
proof -
  obtain r s2 where i: "if_cache body s1 = (r, s2)" by fastforce
  have "r = Ret ()"
  proof (cases "s_cache s1")
    case (Some c)
    then show ?thesis using i assms(1) [of c "s_metrics s1"]
      by (auto simp: if_cache_def split: if_splits prod.splits)
  qed (use i in \<open>simp add: if_cache_def\<close>)
  then show ?thesis using i assms(2) by simp
qed

lemma no_throw_join: "no_throw (handleJoin env req s)"
  unfolding handleJoin_def Let_def
proof (intro no_throw_required_int no_throw_game_op no_throw_if_cache)
  fix pid x g c and m :: metrics
  have d: "dumpable (json_init [kv ''player_id'' (JInt pid), kv ''joined_at'' (JInt (e_time env))])"
    by (auto simp: reply_simps intro!: dumpable_init)
  obtain r c1 where "setPlayerSession (e_redis env 0) pid
      (json_init [kv ''player_id'' (JInt pid), kv ''joined_at'' (JInt (e_time env))]) 300 c = (r, c1)" by fastforce
  with setPlayerSession_returns [OF this d]
  show "\<exists>cm. (case (c, m) of (c, m) \<Rightarrow> case setPlayerSession (e_redis env 0) pid
      (json_init [kv ''player_id'' (JInt pid), kv ''joined_at'' (JInt (e_time env))]) 300 c of
        (Throw e, c1) \<Rightarrow> (Throw e, c1, m)
      | (Ret _, c1) \<Rightarrow> (Ret (), snd (setPlayerPosition (e_redis env 1) pid 500 500 c1), m)) = (Ret (), cm)"
    by auto
qed simp

lemma no_throw_others: "no_throw (handleMove env req s)" "no_throw (handleAttack env req s)"
  "no_throw (handleChat env req s)" "no_throw (handleUpdateScore env req s)" "no_throw (handleLeave env req s)"
  "no_throw (handleGetMetrics s)"
proof -
  show "no_throw (handleMove env req s)" "no_throw (handleChat env req s)"
    "no_throw (handleUpdateScore env req s)" "no_throw (handleLeave env req s)"
    unfolding handler_defs Let_def
    by (intro no_throw_required_int no_throw_required_string; simp split: prod.split sum.split)+
  have "no_throw (Some (attack_reply pid target r, s'))" for pid target r s'
    using attack_reply_ok [of pid target r] by auto
  then show "no_throw (handleAttack env req s)" unfolding handleAttack_def Let_def
    by (intro no_throw_required_int) (simp split: prod.split sum.split option.split)
  show "no_throw (handleGetMetrics s)" using metrics_reply_ok [of s] by auto
qed

lemma state_throws:
  assumes "handleGetState env req s = Some (r, s')"
  shows "(\<exists>e. r = Throw e) \<longleftrightarrow> session_unreadable env ''GET_STATE'' req s"
proof -
  have ok: "\<exists>j. state_reply env t = Ret j" for t using state_reply_ok [of env t] by blast
  have ne: "state_reply env t \<noteq> Throw e" for t e using ok [of t] by auto
  show ?thesis using assms
    by (auto simp: handleGetState_def session_unreadable_def present_def int_arg_integer contains_iff_get if_cache_def
        hasPlayer_def hm_count_def arena_def ne
        split: option.splits if_splits exc.splits prod.splits dest: get_int_integer)
qed

lemma dispatch_throws:
  assumes "dispatch_action env action req s = Some (r, s')"
  shows "(\<exists>e. r = Throw e) \<longleftrightarrow> session_unreadable env action req s"
proof (cases "action = ''GET_STATE''")
  case True
  then show ?thesis using assms state_throws by (simp add: dispatch_action_def)
next
  case False
  then have "no_throw (dispatch_action env action req s)"
    by (simp add: dispatch_action_def no_throw_join no_throw_others)
  then show ?thesis using False assms by (auto simp: session_unreadable_def)
qed

lemma session_unreadable_metrics:
  "session_unreadable env action req (with_metrics f s) = session_unreadable env action req s"
proof -
  have eq: "(case getPlayerSession a pid (c, m) of (Throw _, _) \<Rightarrow> True | (Ret _, _) \<Rightarrow> False) =
      (case getPlayerSession a pid (c, m') of (Throw _, _) \<Rightarrow> True | (Ret _, _) \<Rightarrow> False)" for a pid c m m'
    by (auto simp: getPlayerSession_def split: prod.splits exc.splits option.splits)
  show ?thesis
    by (simp add: session_unreadable_def present_def with_metrics_def
        eq [of _ _ _ "f (s_metrics s)" "s_metrics s"] split: option.split)
qed

definition request_accepted :: "request_env \<Rightarrow> string \<Rightarrow> server_state \<Rightarrow> bool" where
  "request_accepted env raw s = (case parse raw of
       Throw _ \<Rightarrow> False
     | Ret req \<Rightarrow> (case json_get req ''action'' of
          Some (JString action) \<Rightarrow> accepted action req s \<and> \<not> session_unreadable env action req s
        | _ \<Rightarrow> False))"

section \<open>Properties\<close>

lemma garbage_utf8: "\<exists>r s'. handle still_env ''x'' started = Some (r, s')"
  by (simp add: handle_garbage)

text \<open>C1. Whatever the text of a request, if the request returns, it returns one printed reply and
  no exception; the reply has the status "ok" or is an error reply; the request is counted once
  in the total, once as successful or failed according to that status, and once in the latency
  histogram.\<close>

theorem one_reply_per_request:
  assumes "log_printable s" and "handle env raw s = Some (r, s')"
  shows "\<exists>j t. r = Ret t \<and> dump j = Ret t \<and>
     (status_of j = Some ''ok'' \<or> (\<exists>e. j = errorResponse e)) \<and>
     counts (status_of j = Some ''ok'') (s_metrics s) (s_metrics s') \<and> log_printable s'"
  using handle_serves [OF assms] by (auto simp: serves_def)

theorem one_reply_per_request_witness:
  "\<exists>t s'. handle still_env ''x'' started = Some (Ret t, s') \<and>
     m_requestsTotal (s_metrics s') = m_requestsTotal (s_metrics started) + 1"
proof -
  obtain r s' where h: "handle still_env ''x'' started = Some (r, s')" using garbage_utf8 by blast
  then show ?thesis using one_reply_per_request [OF started_utf8 h] by (auto simp: counts_def)
qed

text \<open>C7. A request that is answered with an error leaves the game, the cache with its connections
  and the database exactly as they were, unless the error is "internal server error".\<close>

theorem refused_request_changes_nothing:
  assumes "log_printable s" and "handle env raw s = Some (Ret t, s')"
  shows "\<exists>j. dump j = Ret t \<and> (status_of j = Some ''ok'' \<or>
     j = errorResponse ''internal server error'' \<or>
     (s_game s' = s_game s \<and> s_cache s' = s_cache s \<and> s_db s' = s_db s))"
  using handle_serves [OF assms] by (auto simp: serves_def refusal_def)

theorem refused_request_changes_nothing_witness:
  "\<exists>t s' j. handle still_env ''x'' started = Some (Ret t, s') \<and> dump j = Ret t \<and>
     (status_of j = Some ''ok'' \<or> j = errorResponse ''internal server error'' \<or> s_game s' = s_game started)"
proof -
  obtain t where "dump (errorResponse ''invalid JSON'') = Ret t"
    using dump_total [of "errorResponse ''invalid JSON''"] by auto
  then obtain s' where h: "handle still_env ''x'' started = Some (Ret t, s')" by (simp add: handle_garbage)
  then show ?thesis using refused_request_changes_nothing [OF started_utf8 h] by blast
qed

lemma requests_counted:
  "runs server_step s ls t \<Longrightarrow> server_inv s \<Longrightarrow>
     m_requestsTotal (s_metrics t) = m_requestsTotal (s_metrics s) + of_nat (length ls)"
proof (induction rule: runs.induct)
  case (runs_cons s l t ls u)
  obtain env raw reply where l: "l = (env, raw, reply)" by (metis prod.collapse)
  have "log_printable s" using runs_cons.prems by (simp add: server_inv_def)
  then obtain j where "serves s j t" using runs_cons(1) l server_step_serves by metis
  then show ?case using runs_cons server.inv_step by (auto simp: serves_def counts_def)
qed simp

text \<open>C3. In every sequence of requests to a server that has just started, with any cache whose
  pool is within its size and any database whose high scores are not below the scores, the
  total of requests is the number of requests (modulo 2^64) and the sum of the successful and
  the failed ones, the latency count agrees, and the match, the pool and the database keep
  their invariants.\<close>

theorem server_invariant:
  assumes "runs server_step (init_server clk c d) ls t"
    and "\<And>x. c = Some x \<Longrightarrow> cache_ok x" and "\<And>x. d = Some x \<Longrightarrow> db_ok x"
  shows "game_inv (s_game t) \<and> stores_ok t \<and>
     m_requestsTotal (s_metrics t) = of_nat (length ls) \<and>
     m_requestsTotal (s_metrics t) = m_successfulRequests (s_metrics t) + m_failedRequests (s_metrics t) \<and>
     m_latencyCount (s_metrics t) = m_requestsTotal (s_metrics t)"
  using server.inv_runs [OF assms(1) server_inv_init] requests_counted [OF assms(1) server_inv_init] assms(2,3)
  by (simp add: server_inv_def) (simp add: init_server_def metrics_reset_def)

theorem server_invariant_witness:
  "\<exists>r t. runs server_step started [(still_env, ''x'', r)] t \<and> m_latencyCount (s_metrics t) = 1"
proof -
  obtain t0 where "dump (errorResponse ''invalid JSON'') = Ret t0"
    using dump_total [of "errorResponse ''invalid JSON''"] by auto
  then obtain s' where h: "handle still_env ''x'' started = Some (Ret t0, s')" by (simp add: handle_garbage)
  then have r: "runs server_step (init_server (\<lambda>_. 0) None None) [(still_env, ''x'', t0)] s'"
    using one_request by (simp add: started_def)
  then have "m_latencyCount (s_metrics s') = 1" using server_invariant [OF r] by simp
  then show ?thesis using r unfolding started_def by blast
qed

text \<open>C2. The requests change the players exactly as the operations they ask for change the
  specification map; requests that ask for none (unknown or missing action, missing fields,
  chat, queries, text that is not JSON) change no player.\<close>

theorem requests_refine_players:
  assumes "runs server_step s ls t"
  shows "arena (s_game t) = fold (\<lambda>(env, raw, _). apply_op (requested env raw)) ls (arena (s_game s))"
  using assms
proof (induction rule: runs.induct)
  case (runs_cons s l t ls u)
  obtain env raw reply where l: "l = (env, raw, reply)" by (metis prod.collapse)
  then have "handle env raw s = Some (Ret reply, t)" using runs_cons(1) by (auto elim: server_stepE)
  then show ?case using runs_cons.IH arena_handle l by simp
qed simp

theorem requests_refine_players_witness:
  "\<exists>r t. runs server_step started [(still_env, join_text ''1'', r)] t \<and>
     arena (s_game t) = [1 \<mapsto> new_player 1 0]"
proof -
  obtain r t where h: "handle still_env (join_text ''1'') started = Some (Ret r, t)"
    by (rule handle_returns [OF started_utf8 join_parse(1)]) simp_all
  have q: "requested still_env (join_text ''1'') = Some (AddPlayer (e_clk still_env) 1)"
    using join_requested [of 1 still_env] by (simp add: requested_def join_parse in_i32_def)
  have r: "runs server_step started [(still_env, join_text ''1'', r)] t"
    by (rule one_request [OF h])
  have "arena (s_game started) = Map.empty" "e_clk still_env = (\<lambda>_. 0)"
    by (simp_all add: started_def init_server_def init_game_def arena_def still_env_def)
  then have "arena (s_game t) = [1 \<mapsto> new_player 1 0]"
    using requests_refine_players [OF r] q by simp
  then show ?thesis using r by blast
qed

text \<open>C6. Which requests succeed. A text is answered with the status "ok" exactly when it is a JSON
  document with a string as its action, and it is one of: JOIN with an id that is not in the
  match; MOVE, ATTACK, CHAT, UPDATE_SCORE and LEAVE with the id of a player in the match and
  their own arguments in order (coordinates that are integers, another player as the target, a
  message of 1 to 256 bytes, a score that is not negative); GET_STATE without an integer id or
  with that of a player whose session, where the cache is enabled, Redis does not answer with an
  unreadable length; GET_METRICS. Every other text that is answered at all (an attack that overflows
  a score is undefined behaviour) is answered with an error reply. The event log of the server is
  assumed to be printable, an invariant of the server.\<close>

theorem accepted_requests:
  assumes "log_printable s" and "handle env raw s = Some (r, s')"
  shows "\<exists>j t. r = Ret t \<and> dump j = Ret t \<and>
     (if request_accepted env raw s then status_of j = Some ''ok'' else \<exists>e. j = errorResponse e)"
proof (cases rule: handle_cases [of raw env s])
  case (invalid e)
  obtain t where t: "dump (errorResponse e) = Ret t" using dump_total [OF dumpable_error [OF invalid(1)]] by blast
  have "\<not> request_accepted env raw s"
    using invalid(2) by (auto simp: request_accepted_def split: exc.splits option.splits json.splits)
  then show ?thesis using t invalid(3) assms(2) by auto
next
  case (valid req action)
  let ?s = "with_metrics incrementRequestsTotal s"
  obtain j s1 where resp: "respond env action req ?s = Some (j, s1)"
    using assms(2) valid(5) by (auto split: option.splits)
  obtain x where x: "dispatch_action env action req ?s = Some (x, s1)"
    "j = (case x of Ret i \<Rightarrow> i | Throw e \<Rightarrow> errorResponse ''internal server error'')"
    using resp by (auto simp: respond_def split: option.splits exc.splits)
  have "request_accepted env raw s \<longleftrightarrow> accepted action req ?s \<and> \<not> session_unreadable env action req ?s"
    using valid(1,2) by (simp add: request_accepted_def session_unreadable_metrics accepted_def present_def)
  moreover have "status_of j = Some ''ok'' \<or> (\<exists>e. j = errorResponse e)"
    using sound_dispatch [OF valid(3,4), of ?s env] x by (cases x) (auto simp: outcome_def)
  moreover have "status_of j = Some ''ok'' \<longleftrightarrow> accepted action req ?s \<and> \<not> session_unreadable env action req ?s"
    using x accepted_dispatch [of env action req ?s _ s1] dispatch_throws [OF x(1)] by (cases x) auto
  moreover obtain s2 where "count_result j s1 = (Ret (), s2)" "serves s j (stop_timer env s2)"
    using serves_valid [OF valid(3,4) assms(1) resp] by blast
  moreover have "\<exists>t. dump j = Ret t" using dump_total calculation(5) by (auto simp: serves_def)
  ultimately show ?thesis using valid(5) resp assms(2) by auto
qed

theorem accepted_requests_witness:
  "\<exists>t s' j. handle still_env (join_text ''1'') started = Some (Ret t, s') \<and> dump j = Ret t \<and>
     status_of j = Some ''ok''"
proof -
  obtain t s' where h: "handle still_env (join_text ''1'') started = Some (Ret t, s')"
    by (rule handle_returns [OF started_utf8 join_parse(1)]) simp_all
  have "int_arg (join_req 1) ''player_id'' = Some 1"
    by (simp add: join_req_def int_arg_integer json_get_def is_number_integer_def get_int_def in_i32_def)
  then have "request_accepted still_env (join_text ''1'') started"
    by (simp add: request_accepted_def join_parse accepted_def session_unreadable_def present_def started_def
        init_server_def init_game_def arena_def)
  then show ?thesis using accepted_requests [OF started_utf8 h] h by auto
qed

text \<open>C17. In a server whose match keeps its invariant, a request runs into undefined behaviour
  exactly when it asks for an attack between two players of the match that would take the
  attacker's score (or kills) beyond 2147483647. All other input, malformed or not, is handled.\<close>

theorem request_undefined_iff:
  assumes "game_inv (s_game s)"
  shows "handle env raw s = None \<longleftrightarrow> (\<exists>a b att tgt. asks_attack raw a b \<and> a \<noteq> b \<and>
     arena (s_game s) a = Some att \<and> arena (s_game s) b = Some tgt \<and>
     (if p_health tgt = 25 then 2 ^ 31 \<le> p_score att + 100 \<or> 2 ^ 31 \<le> p_kills att + 1
      else 2 ^ 31 \<le> p_score att + 10))"
  unfolding handle_undefined attack_undefined_live [OF assms] by blast

theorem request_undefined_iff_witness: "handle still_env ''x'' started \<noteq> None"
proof -
  have "case parse ''x'' of Throw _ \<Rightarrow> True | Ret _ \<Rightarrow> False" by code_simp
  then have "\<not> asks_attack ''x'' a b" for a b by (auto simp: asks_attack_def)
  then show ?thesis using request_undefined_iff [of started still_env "''x''"] started_inv
    by (simp add: server_inv_def)
qed

text \<open>The texts that lead there: two players join, one sets its score to 2147483647 and attacks.\<close>

definition score_text :: string where
  "score_text = ''{\"action\":\"UPDATE_SCORE\",\"player_id\":1,\"score\":2147483647}''"

definition attack_text :: string where
  "attack_text = ''{\"action\":\"ATTACK\",\"player_id\":1,\"target_id\":2}''"

lemma score_parse: "parse score_text = Ret (JObject [(''action'', JString ''UPDATE_SCORE''),
    (''player_id'', JUInt 1), (''score'', JUInt 2147483647)])"
  unfolding score_text_def by code_simp

lemma attack_parse: "parse attack_text = Ret (JObject [(''action'', JString ''ATTACK''),
    (''player_id'', JUInt 1), (''target_id'', JUInt 2)])"
  unfolding attack_text_def by code_simp

lemmas request_values = int_arg_integer json_get_def is_number_integer_def get_int_def

lemma score_requested: "requested env score_text = Some (SetScore 1 2147483647)"
  by (simp add: requested_def score_parse requested_op_def request_values in_i32_def)

lemma attack_asked: "asks_attack attack_text 1 2"
  by (simp add: asks_attack_def attack_parse requireInt_def contains_def request_values in_i32_def)

text \<open>C37. That undefined behaviour can be reached by a client alone: from a server that has just
  started, three accepted requests (two JOINs and an UPDATE_SCORE) lead to a state in which a
  plain ATTACK request overflows the attacker's score.\<close>

theorem client_reaches_overflow:
  "\<exists>ls t. runs server_step started ls t \<and> length ls = 3 \<and> handle env attack_text t = None"
proof -
  obtain r1 s1 where h1: "handle still_env (join_text ''1'') started = Some (Ret r1, s1)" "log_printable s1"
    by (rule handle_returns [OF started_utf8 join_parse(1)]) simp_all
  obtain r2 s2 where h2: "handle still_env (join_text ''2'') s1 = Some (Ret r2, s2)" "log_printable s2"
    by (rule handle_returns [OF h1(2) join_parse(2)]) simp_all
  obtain r3 s3 where h3: "handle still_env score_text s2 = Some (Ret r3, s3)" "log_printable s3"
    by (rule handle_returns [OF h2(2) score_parse]) (simp_all add: json_get_def)
  have r: "runs server_step started [(still_env, join_text ''1'', r1), (still_env, join_text ''2'', r2),
      (still_env, score_text, r3)] s3"
    using h1(1) h2(1) h3(1) by (blast intro: runs.intros server_step.request)
  have q: "requested still_env (join_text ''1'') = Some (AddPlayer (e_clk still_env) 1)"
    "requested still_env (join_text ''2'') = Some (AddPlayer (e_clk still_env) 2)"
    using join_requested [of 1 still_env] join_requested [of 2 still_env]
    by (simp_all add: requested_def join_parse in_i32_def)
  have "arena (s_game started) = Map.empty"
    by (simp add: started_def init_server_def init_game_def arena_def)
  then have a: "arena (s_game s3) = [1 \<mapsto> new_player 1 (e_clk still_env 0)\<lparr>p_score := 2147483647\<rparr>,
      2 \<mapsto> new_player 2 (e_clk still_env 0)]"
    using arena_handle [OF h1(1)] arena_handle [OF h2(1)] arena_handle [OF h3(1)]
    by (simp add: q score_requested fun_upd_twist [of "2 :: int" 1])
  have "game_inv (s_game s3)" using server.inv_runs [OF r started_inv] by (simp add: server_inv_def)
  then have "attackPlayer 1 2 (s_game s3) = None"
    using attack_undefined_live [of "s_game s3" 1 2] by (simp add: a new_player_def)
  then have "handle env attack_text s3 = None" using attack_asked by (auto simp: handle_undefined)
  then show ?thesis using r by fastforce
qed

lemma attack_in_arena:
  assumes "int_arg req ''player_id'' = Some a" and "int_arg req ''target_id'' = Some b"
    and "attackPlayer a b (s_game s) = Some (Inr res, g)"
  shows "handleAttack env req s =
    Some (attack_reply a b res, log_event env a ''ATTACK'' (attack_data b res) (s\<lparr>s_game := g\<rparr>))"
proof (cases rule: required_int_arg [of req "''player_id''"])
  case (pass i)
  show ?thesis
    by (cases rule: required_int_arg [of req "''target_id''"])
       (use assms pass in \<open>simp_all add: handleAttack_def Let_def\<close>)
qed (use assms in simp)

text \<open>Two players, the second with 25 health left and 40 points that the database does not have yet.\<close>

definition wounded_duel :: game_state where
  "wounded_duel = the (attacks 3 1 2 (snd (setScore 2 40 duel)))"

definition wounded_server :: server_state where
  "wounded_server = (init_server (\<lambda>_. 0) (Some (new_cache True))
     (Some \<lparr>m_conn = True, m_connected = True,
        t_players = [(2, \<lparr>pr_username = ''bob'', pr_score = 0, pr_high_score = 0, pr_kills = 0,
          pr_created_at = [], pr_updated_at = []\<rparr>)],
        t_events = [], t_matches = [], t_test_runs = []\<rparr>))
     \<lparr>s_game := wounded_duel, s_metrics := setActivePlayers 2 metrics_reset\<rparr>"

lemma attacks_inv: "attacks n a b s = Some t \<Longrightarrow> game_inv s \<Longrightarrow> game_inv t"
proof (induction n arbitrary: s)
  case (Suc n)
  then obtain r u where u: "attackPlayer a b s = Some (r, u)" "attacks n a b u = Some t"
    by (auto split: option.splits)
  have "game_inv u" using game.inv_step [OF Suc.prems(2) game_step.attack [OF u(1)]] .
  then show ?case using Suc.IH u(2) by blast
qed simp

lemma wounded_duel:
  "game_inv wounded_duel" "arena wounded_duel 1 = Some (new_player 1 0\<lparr>p_score := 30\<rparr>)"
  "arena wounded_duel 2 = Some (new_player 2 0\<lparr>p_score := 40, p_health := 25\<rparr>)"
proof -
  let ?s = "snd (setScore 2 40 duel)"
  have a: "arena ?s 1 = Some (new_player 1 0)" "arena ?s 2 = Some (new_player 2 0\<lparr>p_score := 40\<rparr>)"
    by (simp_all add: arena_score duel_arena)
  obtain t where t: "attacks 3 1 2 ?s = Some t" "arena t 1 = Some (new_player 1 0\<lparr>p_score := 30\<rparr>)"
      "arena t 2 = Some (new_player 2 0\<lparr>p_score := 40, p_health := 25\<rparr>)"
    using attacks_wound [of 1 2 ?s, OF _ a, of 3] by (auto simp: new_player_def in_i32_def)
  have "game_inv ?s" using game.inv_step [OF duel_inv game_step.score [of 40 duel 2]]
    by (simp add: in_i32_def)
  then show "game_inv wounded_duel" using attacks_inv t(1) by (simp add: wounded_duel_def)
  show "arena wounded_duel 1 = Some (new_player 1 0\<lparr>p_score := 30\<rparr>)"
    "arena wounded_duel 2 = Some (new_player 2 0\<lparr>p_score := 40, p_health := 25\<rparr>)"
    using t by (simp_all add: wounded_duel_def)
qed

text \<open>C39. A player eliminated by ATTACK is not recorded as gone. In a match that keeps its invariant, take
  a request that asks for an attack on a target with 25 health left, without overflow of the
  attacker's score or kills: it returns, and the target is no longer in the match; but the gauge
  of active players still counts the target, and the cache (its session) and the database (its
  score) are as before; only the counters of requests and latencies have moved.\<close>

theorem elimination_not_recorded:
  assumes "game_inv (s_game s)" and "asks_attack raw a b" and "a \<noteq> b"
    and "arena (s_game s) a = Some att" and "arena (s_game s) b = Some tgt" and "p_health tgt = 25"
    and "p_score att + 100 < 2 ^ 31" and "p_kills att + 1 < 2 ^ 31"
  shows "\<exists>r s'. handle env raw s = Some (r, s') \<and> arena (s_game s') b = None \<and>
     s_metrics s' = (s_metrics s)\<lparr>m_requestsTotal := m_requestsTotal (s_metrics s'),
       m_successfulRequests := m_successfulRequests (s_metrics s'),
       m_failedRequests := m_failedRequests (s_metrics s'),
       m_latencyCount := m_latencyCount (s_metrics s'),
       m_latencySumSeconds := m_latencySumSeconds (s_metrics s'),
       m_latencyBucketCounts := m_latencyBucketCounts (s_metrics s')\<rparr> \<and>
     m_activePlayers (s_metrics s') = m_activePlayers (s_metrics s) \<and>
     s_cache s' = s_cache s \<and> s_db s' = s_db s"
proof -
  obtain req where req: "parse raw = Ret req" "json_get req ''action'' = Some (JString ''ATTACK'')"
    and args: "int_arg req ''player_id'' = Some a" "int_arg req ''target_id'' = Some b"
    using assms(2) by (auto simp: asks_attack_def int_arg_def)
  let ?s = "with_metrics incrementRequestsTotal s"
  obtain res g where hit: "attackPlayer a b (s_game s) = Some (Inr res, g)" "arena g b = None"
    using eliminating_attack [OF assms(1,3-8)] by blast
  have "handle env raw s \<noteq> None"
    using hit(1) req args assms(2) by (auto simp: handle_undefined asks_attack_def)
  then obtain r s' where h: "handle env raw s = Some (r, s')" by auto
  show ?thesis
  proof (cases rule: handle_cases [of raw env s])
    case (invalid e)
    then show ?thesis using req by blast
  next
    case (valid req' action')
    then have same: "req' = req" "action' = ''ATTACK''" using req by simp_all
    obtain j s1 where resp: "respond env ''ATTACK'' req ?s = Some (j, s1)"
      using h valid(5) same by (auto split: option.splits)
    obtain x where "handleAttack env req ?s = Some (x, s1)"
      using resp by (auto simp: respond_def dispatch_action_def split: option.splits exc.splits)
    then have s1: "s1 = log_event env a ''ATTACK'' (attack_data b res) (?s\<lparr>s_game := g\<rparr>)"
      using attack_in_arena [OF args] hit(1) by simp
    show ?thesis using h valid(5) same resp hit(2)
      by (auto simp: s1 count_result_def log_event_def with_metrics_def stop_timer_def arena_event
          metrics_counter_defs Let_def split: exc.splits prod.splits)
  qed
qed

theorem elimination_not_recorded_witness:
  "\<exists>r s'. handle still_env attack_text wounded_server = Some (r, s') \<and>
     arena (s_game s') 2 = None \<and> m_activePlayers (s_metrics s') = 2 \<and>
     map_option (\<lambda>d. pr_score (the (map_of (t_players d) 2))) (s_db s') = Some 0"
proof -
  have g: "s_game wounded_server = wounded_duel" "m_activePlayers (s_metrics wounded_server) = 2"
    "map_option (\<lambda>d. pr_score (the (map_of (t_players d) 2))) (s_db wounded_server) = Some 0"
    by (simp_all add: wounded_server_def init_server_def setActivePlayers_def)
  have "\<exists>r s'. handle still_env attack_text wounded_server = Some (r, s') \<and>
     arena (s_game s') 2 = None \<and>
     m_activePlayers (s_metrics s') = m_activePlayers (s_metrics wounded_server) \<and>
     s_db s' = s_db wounded_server"
    using elimination_not_recorded [OF _ attack_asked, of wounded_server
        "new_player 1 0\<lparr>p_score := 30\<rparr>" "new_player 2 0\<lparr>p_score := 40, p_health := 25\<rparr>" still_env]
    by (simp add: g(1) wounded_duel) (simp add: new_player_def, blast)
  then show ?thesis using g(2,3) by fastforce
qed

end
