(* ===== verification/Protocol.thy ===== *)
theory Protocol
  imports Framer Metrics JsonTotal
begin

text \<open>
  The properties of the layers below the request handler: frames on a byte stream, reading and
  writing a socket, the JSON text of requests and replies, and the latency histogram.
\<close>

section \<open>Frames\<close>

text \<open>C13. A message of at most 1 MiB that was encoded is decoded back whatever follows it in the
  buffer, the rest of the buffer is kept, and any proper part of its frame is recognised as
  incomplete.\<close>

theorem frame_roundtrip:
  assumes "length p \<le> 1048576"
  shows "decode (encode p @ rest) = Decoded p rest \<and>
     (\<forall>b. strict_prefix b (encode p) \<longrightarrow> decode b = NeedMore)"
  using decode_encode decode_partial assms by (simp add: frame_ok_def)

theorem frame_roundtrip_witness: "decode (encode ''{}'' @ [7]) = Decoded ''{}'' [7]"
  using frame_roundtrip [of "''{}''" "[7]"] by simp

text \<open>From the bytes of any sequence of frames, followed by nothing that is a frame, decoding
  as long as possible gives back the messages in order and keeps the unfinished rest.\<close>

theorem frames_reassembled:
  assumes "\<forall>p \<in> set ps. length p \<le> 1048576" and "\<forall>p r. decode rest \<noteq> Decoded p r"
  shows "drain (length (concat (map encode ps) @ rest)) decode_frame (concat (map encode ps) @ rest)
     = (ps, rest)"
proof (rule frame.drain_concat)
  show "list_all frame_ok ps" using assms(1) by (simp add: list_all_iff frame_ok_def)
  show "decode_frame rest = None" using assms(2) by (simp add: decode_frame_def split: decode_result.split)
qed simp

theorem frames_reassembled_witness:
  "drain 11 decode_frame (concat (map encode [''a'', ''b'']) @ [9]) = ([''a'', ''b''], [9])"
proof -
  have "decode [9] = NeedMore" by (simp add: decode_def HEADER_SIZE_def)
  moreover have "length (concat (map encode [''a'', ''b'']) @ [9]) = 11" by (simp add: length_encode)
  ultimately show ?thesis using frames_reassembled [of "[''a'', ''b'']" "[9]"] by simp
qed

section \<open>Sockets\<close>

text \<open>\<open>readExact\<close> delivers exactly the next \<open>n\<close> bytes of the stream, whatever chunks the
  network cuts it into, and leaves the bytes behind them; it fails exactly when the stream
  ends, by shutdown or error, before \<open>n\<close> bytes.\<close>

theorem readExact_exact:
  "(n \<le> length (rx_bytes q) \<longrightarrow>
      (\<exists>q'. readExact n q = (Some (take n (rx_bytes q)), q') \<and> rx_bytes q' = drop n (rx_bytes q))) \<and>
   (length (rx_bytes q) < n \<longrightarrow> fst (readExact n q) = None)"
  using readExact_enough readExact_short by blast

theorem readExact_exact_witness:
  "fst (readExact 3 [RxData [1], RxData [2, 3, 4]]) = Some [1, 2, 3]"
  using readExact_exact [of 3 "[RxData [1], RxData [2, 3, 4]]"] by auto

text \<open>\<open>writeAll\<close> hands the network a prefix of the data, and reports success exactly when it
  is all of it; a network that takes at least one byte per call gets all of it.\<close>

theorem writeAll_complete:
  assumes "writeAll data q = (ok, out, q')"
  shows "prefix out data \<and> (ok \<longleftrightarrow> out = data) \<and> (tx_fine q \<longrightarrow> ok)"
proof -
  have "ok" if "tx_fine q" using writeAll_fine [OF that, of data] assms by auto
  then show ?thesis using writeAll_prefix [OF assms] by blast
qed

theorem writeAll_complete_witness:
  "\<exists>out q'. writeAll [1, 2, 3] [TxAccept 2, TxError] = (False, out, q') \<and> prefix out [1, 2, 3]"
proof -
  have w: "writeAll [1, 2, 3] [TxAccept 2, TxError] = (False, [1, 2], [])" by code_simp
  then show ?thesis using writeAll_complete [OF w] by blast
qed

section \<open>JSON text\<close>

text \<open>C14. A document that is printed is read back: as itself, except that a non-negative integer
  comes back as unsigned and an infinite number as null. This covers every string, every finite
  double and every nesting.\<close>

theorem json_roundtrip:
  assumes "dump j = Ret s" and "storable j" shows "parse s = Ret (reread j)"
  by (rule parse_dump [OF assms])

theorem json_roundtrip_witness: "parse ''[null,-5]'' = Ret (JArray [JNull, JInt (- 5)])"
proof -
  have "dump (JArray [JNull, JInt (- 5)]) = Ret ''[null,-5]''" by code_simp
  then show ?thesis using json_roundtrip [of "JArray [JNull, JInt (- 5)]"] by simp
qed

text \<open>C16. Every document that is accepted can be printed again: the strings that the lexer lets
  through (directly or by escapes) are the ones the printer accepts, and every number that is
  read has a decimal text.\<close>

theorem accepted_documents_print:
  assumes "parse raw = Ret j" shows "\<exists>s. dump j = Ret s"
  by (rule dump_total [OF parse_dumpable [OF assms]])

theorem accepted_documents_print_witness: "\<exists>s. dump (JArray [JUInt 7]) = Ret s"
proof -
  have "parse ''[7]'' = Ret (JArray [JUInt 7])" by code_simp
  then show ?thesis by (rule accepted_documents_print)
qed

text \<open>The printer accepts a string exactly when it is well-formed UTF-8 (no overlong forms, no
  surrogates, nothing above U+10FFFF); otherwise it throws.\<close>

theorem printer_accepts_utf8: "(\<exists>t. dump_string s = Ret t) \<longleftrightarrow> utf8 s"
proof
  assume "\<exists>t. dump_string s = Ret t"
  then show "utf8 s" using dump_utf8 [of 0 s] by (auto simp: dump_string_def split: exc.splits)
next
  assume "utf8 s"
  then show "\<exists>t. dump_string s = Ret t" by (rule dump_string_total)
qed

text \<open>The printing of floating point numbers always ends with a text: for every finite double
  the Grisu2 loops terminate within their bounds and no access is out of range.\<close>

theorem doubles_print:
  assumes "fl x = x" and "\<bar>x\<bar> < pow2 1024" shows "\<exists>s. to_chars x = Some s"
  using to_chars_total [OF assms] by auto

theorem doubles_print_witness: "\<exists>s. to_chars 0 = Some s"
  by (rule doubles_print) simp_all

text \<open>C15. Grisu2 is exact. A finite double, given by its number and its sign bit (that of negative zero
  included), is printed as a JSON number, which \<open>strtod\<close> reads as the same number, and so does the
  parser. The digits of a double that is not zero, as a decimal number before they are laid out by
  \<open>format_buffer\<close>, lie strictly between its two boundaries, half way to the neighbouring doubles.
  (The model's doubles have one zero, so "-0.0" is read as zero.)\<close>

theorem doubles_roundtrip:
  assumes "fl x = x" and "\<bar>x\<bar> < pow2 1024" and "x = 0 \<or> signbit = (x < 0)"
  shows "\<exists>s. to_chars_signed signbit \<bar>x\<bar> = Some s \<and> strtod s = Some x \<and> parse s = Ret (JFloat x) \<and>
     (if x = 0 then s = (if signbit then ''-0.0'' else ''0.0'')
      else to_chars x = Some s \<and>
        (\<exists>f e ds k. double_parts \<bar>x\<bar> f e \<and> \<bar>x\<bar> = of_nat f * pow2 e \<and>
           s = (if signbit then ''-'' else []) @ format_buffer (map digit_char ds) k (- 4) 15 \<and>
           lower_boundary f e < of_nat (digits_nat ds) * 10 powi k \<and>
           of_nat (digits_nat ds) * 10 powi k < upper_boundary f e))"
proof (cases "x = 0")
  case True
  have "dump (JFloat 0) = Ret ''0.0''" by (simp add: dump_float_def to_chars_def to_chars_signed_def not_le)
  then have "parse ''0.0'' = Ret (reread (JFloat 0))" by (rule parse_dump) simp
  then show ?thesis using True zero_read(1,2) parse_negative_zero by (simp add: to_chars_signed_def)
next
  case False
  then have sign: "to_chars_signed signbit \<bar>x\<bar> = to_chars x" "signbit = (x < 0)"
    using assms(3) by (simp_all add: to_chars_def)
  obtain s where s: "to_chars x = Some s" using to_chars_total [OF assms(1,2)] by auto
  then have "dump (JFloat x) = Ret s" using assms(2) by (simp add: dump_float_def)
  then have p: "parse s = Ret (reread (JFloat x))" using assms by (intro parse_dump) simp_all
  obtain f e ds k where "double_parts \<bar>x\<bar> f e" "\<bar>x\<bar> = of_nat f * pow2 e" "grisu2 \<bar>x\<bar> = Some (ds, k)"
      "s = (if x < 0 then ''-'' else []) @ format_buffer (map digit_char ds) k (- 4) 15"
      "lower_boundary f e < of_nat (digits_nat ds) * 10 powi k"
      "of_nat (digits_nat ds) * 10 powi k < upper_boundary f e"
    by (rule to_chars_digits [OF assms(1,2) False s])
  then show ?thesis using s p sign False to_chars_read(1) [OF assms(1,2) s] assms(2) by auto
qed

theorem doubles_roundtrip_witness:
  "(\<exists>s. to_chars (pow2 (- 3)) = Some s \<and> parse s = Ret (JFloat (pow2 (- 3)))) \<and>
   (\<exists>s. to_chars_signed True 0 = Some s \<and> parse s = Ret (JFloat 0) \<and> s = ''-0.0'')"
proof -
  have "pow2 (- 3) \<noteq> 0" "False = (pow2 (- 3) < 0)" by (simp_all add: not_less)
  then show ?thesis
    using doubles_roundtrip [of "pow2 (- 3)" False] doubles_roundtrip [of 0 True] by auto
qed

section \<open>The latency histogram\<close>

text \<open>C30. After any sequence of recorded latencies every bucket of the histogram counts the
  latencies up to its bound, so the buckets are cumulative, and the last one and the counter
  count all of them (modulo 2^64).\<close>

theorem histogram_counts:
  "m_latencyCount (fold recordRequestLatency ls metrics_reset) = of_nat (length ls) \<and>
   m_latencyBucketCounts (fold recordRequestLatency ls metrics_reset) =
     map (\<lambda>b. of_nat (length (filter (\<lambda>s. s \<le> b) ls))) m_latencyBuckets @ [of_nat (length ls)] \<and>
   sorted (map (\<lambda>b. length (filter (\<lambda>s. s \<le> b) ls)) m_latencyBuckets)"
proof -
  have h: "histogram_of (rev ls @ []) (fold recordRequestLatency ls metrics_reset)"
    by (rule histogram_runs [OF histogram_reset])
  have "sorted (map (\<lambda>b. at_most b ls) m_latencyBuckets)"
    using buckets_sorted at_most_mono by (auto simp: sorted_map intro: sorted_wrt_mono_rel)
  then show ?thesis using h by (simp add: histogram_of_def at_most_rev) (simp add: at_most_def)
qed

end
