(* ===== verification/Collector.thy ===== *)
theory Collector
  imports Prelude Double "HOL-Library.Multiset"
begin

text \<open>
  \<open>MetricsCollector.cpp\<close> of the load simulator: the list of measured requests and its
  summary with counts, rates and percentiles.
\<close>

record request_metric =
  rm_action :: string
  rm_latencyMicros :: u64
  rm_success :: bool

record performance_summary =
  ps_totalRequests :: u64
  ps_successfulRequests :: u64
  ps_failedRequests :: u64
  ps_durationSeconds :: double
  ps_requestsPerSec :: double
  ps_avgLatencyMs :: double
  ps_p50LatencyMs :: double
  ps_p95LatencyMs :: double
  ps_p99LatencyMs :: double
  ps_maxLatencyMs :: double
  ps_errorRatePercent :: double

definition empty_summary :: performance_summary where
  "empty_summary = \<lparr>ps_totalRequests = 0, ps_successfulRequests = 0, ps_failedRequests = 0,
     ps_durationSeconds = 0, ps_requestsPerSec = 0, ps_avgLatencyMs = 0, ps_p50LatencyMs = 0,
     ps_p95LatencyMs = 0, ps_p99LatencyMs = 0, ps_maxLatencyMs = 0, ps_errorRatePercent = 0\<rparr>"

definition collector_record ::
    "string \<Rightarrow> u64 \<Rightarrow> bool \<Rightarrow> request_metric list \<Rightarrow> request_metric list" where
  "collector_record action latency success ms =
     ms @ [\<lparr>rm_action = action, rm_latencyMicros = latency, rm_success = success\<rparr>]"

definition recordBatch :: "request_metric list \<Rightarrow> request_metric list \<Rightarrow> request_metric list" where
  "recordBatch batch ms = ms @ batch"

section \<open>The summary\<close>

text \<open>\<open>static_cast<double>(n)\<close> for an unsigned 64-bit integer.\<close>

definition double_of :: "u64 \<Rightarrow> double" where
  "double_of n = fl (of_nat (unat n))"

definition to_ms :: "u64 \<Rightarrow> double" where
  "to_ms micros = fdiv (double_of micros) 1000"

text \<open>One pass of the loop over the metrics.\<close>

definition tally ::
    "request_metric \<Rightarrow> performance_summary \<times> u64 list \<times> u64 \<Rightarrow> performance_summary \<times> u64 list \<times> u64" where
  "tally m acc = (case acc of (s, latencies, micros) \<Rightarrow>
     (if rm_success m then s\<lparr>ps_successfulRequests := ps_successfulRequests s + 1\<rparr>
      else s\<lparr>ps_failedRequests := ps_failedRequests s + 1\<rparr>,
      latencies @ [rm_latencyMicros m], micros + rm_latencyMicros m))"

definition percentile_index :: "double \<Rightarrow> nat \<Rightarrow> nat" where
  "percentile_index pct n =
     (let idx = nat \<lfloor>fmul (fdiv pct 100) (fl (of_nat n))\<rfloor> in if n \<le> idx then n - 1 else idx)"

definition getPercentileMs :: "u64 list \<Rightarrow> double \<Rightarrow> double" where
  "getPercentileMs latencies pct =
     (if length latencies = 0 then 0
      else to_ms (latencies ! percentile_index pct (length latencies)))"

definition computeSummary :: "double \<Rightarrow> request_metric list \<Rightarrow> performance_summary" where
  "computeSummary durationSec ms =
     (let s0 = empty_summary\<lparr>ps_totalRequests := of_nat (length ms),
                  ps_durationSeconds := (if 0 < durationSec then durationSec else fl (1 / 1000))\<rparr>
      in if ms = [] then s0
         else case fold tally ms (s0, [], 0) of (s1, unsorted, totalMicros) \<Rightarrow>
           let latencies = sort unsorted
           in s1\<lparr>
             ps_requestsPerSec := fdiv (double_of (ps_totalRequests s1)) (ps_durationSeconds s1),
             ps_errorRatePercent := (if 0 < ps_totalRequests s1
               then fdiv (fmul 100 (double_of (ps_failedRequests s1)))
                         (double_of (ps_totalRequests s1)) else 0),
             ps_avgLatencyMs := fdiv (fdiv (double_of totalMicros) (fl (of_nat (length ms)))) 1000,
             ps_p50LatencyMs := getPercentileMs latencies 50,
             ps_p95LatencyMs := getPercentileMs latencies 95,
             ps_p99LatencyMs := getPercentileMs latencies 99,
             ps_maxLatencyMs := to_ms (last latencies)\<rparr>)"

section \<open>Counts\<close>

lemma fold_tally:
  "fold tally ms (s, ls, t) =
     (s\<lparr>ps_successfulRequests := ps_successfulRequests s + of_nat (length (filter rm_success ms)),
        ps_failedRequests := ps_failedRequests s + of_nat (length (filter (Not \<circ> rm_success) ms))\<rparr>,
      ls @ map rm_latencyMicros ms, t + sum_list (map rm_latencyMicros ms))"
  by (induction ms arbitrary: s ls t) (simp_all add: tally_def algebra_simps)

lemma success_partition:
  "length (filter rm_success ms) + length (filter (Not \<circ> rm_success) ms) = length ms"
  by (induction ms) auto

text \<open>The summary of a non-empty list, field by field.\<close>

lemma computeSummary_fields:
  assumes "ms \<noteq> []" and "s = computeSummary d ms" and "ls = sort (map rm_latencyMicros ms)"
  shows "ps_totalRequests s = of_nat (length ms)"
    and "ps_successfulRequests s = of_nat (length (filter rm_success ms))"
    and "ps_failedRequests s = of_nat (length (filter (Not \<circ> rm_success) ms))"
    and "ps_durationSeconds s = (if 0 < d then d else fl (1 / 1000))"
    and "ps_p50LatencyMs s = getPercentileMs ls 50" and "ps_p95LatencyMs s = getPercentileMs ls 95"
    and "ps_p99LatencyMs s = getPercentileMs ls 99" and "ps_maxLatencyMs s = to_ms (last ls)"
    and "ps_avgLatencyMs s =
      fdiv (fdiv (double_of (sum_list (map rm_latencyMicros ms))) (fl (of_nat (length ms)))) 1000"
    and "ps_errorRatePercent s = (if 0 < ps_totalRequests s
      then fdiv (fmul 100 (double_of (ps_failedRequests s))) (double_of (ps_totalRequests s)) else 0)"
  using assms by (simp_all add: computeSummary_def Let_def fold_tally empty_summary_def)

lemma unat_of_nat_64: "n < 2 ^ 64 \<Longrightarrow> unat (of_nat n :: u64) = n"
  by (simp add: unat_of_nat take_bit_nat_eq_self_iff)

lemma double_of_small: "unat n < 2 ^ 53 \<Longrightarrow> double_of n = of_nat (unat n)"
  unfolding double_of_def by (rule fl_of_nat)

lemma double_of_mono: "m \<le> n \<Longrightarrow> double_of m \<le> double_of n"
  unfolding double_of_def word_le_nat_alt by (intro fl_mono of_nat_mono)

lemma to_ms_mono: "m \<le> n \<Longrightarrow> to_ms m \<le> to_ms n"
  by (simp add: to_ms_def fdiv_def fl_mono divide_right_mono double_of_mono)

text \<open>The error rate is a percentage; it is 0 only when no request failed.\<close>

lemma rate_bounds:
  assumes "f \<le> t" and "0 < t" and "t < 2 ^ 45"
  shows "0 \<le> fdiv (fmul 100 (of_nat f)) (of_nat t)" and "fdiv (fmul 100 (of_nat f)) (of_nat t) \<le> 100"
    and "fdiv (fmul 100 (of_nat f)) (of_nat t) = 0 \<longleftrightarrow> f = 0"
proof -
  have e: "fmul 100 (of_nat f) = of_nat (100 * f)"
    using fl_of_nat [of "100 * f"] assms by (simp add: fmul_def)
  let ?q = "of_nat (100 * f) / of_nat t :: rat"
  have q: "0 \<le> ?q" "?q \<le> 100" using assms by (simp_all add: divide_le_eq)
  then show "0 \<le> fdiv (fmul 100 (of_nat f)) (of_nat t)"
    using fl_nonneg [OF q(1)] by (simp only: e fdiv_def)
  show "fdiv (fmul 100 (of_nat f)) (of_nat t) \<le> 100"
    unfolding e fdiv_def using fl_mono [OF q(2)] fl_of_nat [of 100] by simp
  show "fdiv (fmul 100 (of_nat f)) (of_nat t) = 0 \<longleftrightarrow> f = 0"
  proof (cases "f = 0")
    case False
    have "of_nat t \<le> (of_nat (2 ^ 45) :: rat)" using assms(3) by (intro of_nat_mono) simp
    then have "1 / 2 ^ 45 \<le> 1 / (of_nat t :: rat)" using assms(2) by (intro divide_left_mono) simp_all
    then have "pow2 (- 45) \<le> 1 / of_nat t" by (simp add: pow2_def power_int_minus)
    also have "\<dots> \<le> ?q" using False assms by (simp add: divide_right_mono)
    finally have "fl (pow2 (- 45)) \<le> fl ?q" by (rule fl_mono)
    then have "0 < fl ?q" by (intro less_le_trans [OF pow2_pos]) simp
    then show ?thesis using False e by (simp add: fdiv_def)
  qed (simp add: fmul_def fdiv_def)
qed

section \<open>Percentiles\<close>

lemma percentile_index_less: "0 < n \<Longrightarrow> percentile_index pct n < n"
  by (auto simp: percentile_index_def Let_def)

lemma percentile_index_mono: "p \<le> q \<Longrightarrow> percentile_index p n \<le> percentile_index q n"
proof -
  assume "p \<le> q"
  then have "fmul (fdiv p 100) (fl (of_nat n)) \<le> fmul (fdiv q 100) (fl (of_nat n))"
    unfolding fmul_def fdiv_def by (intro fl_mono mult_right_mono divide_right_mono fl_nonneg) auto
  then have "nat \<lfloor>fmul (fdiv p 100) (fl (of_nat n))\<rfloor> \<le> nat \<lfloor>fmul (fdiv q 100) (fl (of_nat n))\<rfloor>"
    by (intro nat_mono floor_mono)
  then show ?thesis by (auto simp: percentile_index_def Let_def)
qed

text \<open>Two roundings lose less than one request in \<open>2 ^ 45\<close>.\<close>

lemma percentile_index_rank:
  assumes "0 < n" and "n < 2 ^ 45" and "1 \<le> pct" and "pct \<le> 100"
  shows "pct * n \<le> 100 * (percentile_index (of_nat pct) n + 1)"
proof -
  let ?u = "pow2 (- 53)" and ?x = "fmul (fdiv (of_nat pct) 100) (fl (of_nat n))"
  define q where "q = fdiv (of_nat pct) 100"
  have u: "0 < ?u" "?u \<le> 1" and u1: "?u = 1 / 2 ^ 53" by (simp_all add: pow2_def power_int_minus field_simps)
  have small: "pow2 (- 1022) \<le> pow2 (- 10)" by simp
  then have small: "pow2 (- 1022) \<le> 1 / 1024" by (simp add: pow2_def [of "-10"] power_int_minus)
  have "pow2 (- 1022) \<le> of_nat pct / 100" using small assms by linarith
  from fl_relative(1) [OF this] have q: "of_nat pct / 100 * (1 - ?u) \<le> q" by (simp add: q_def fdiv_def)
  have qmin: "1 / 1024 \<le> q"
    using fl_mono [of "1 / 1024" "of_nat pct / 100"] assms fl_pos_exact [of "1 / 1024" 1 "- 10"]
    by (simp add: q_def fdiv_def pow2_def power_int_minus fl_def)
  have n: "fl (of_nat n) = of_nat n" using assms by (simp add: fl_of_nat)
  have "q * 1 \<le> q * of_nat n" using assms(1) qmin by (intro mult_left_mono) simp_all
  then have "pow2 (- 1022) \<le> q * of_nat n" using small qmin by linarith
  from fl_relative(1) [OF this] have "q * of_nat n * (1 - ?u) \<le> ?x" by (simp add: q_def n fmul_def)
  moreover have "of_nat pct / 100 * (1 - ?u) * (of_nat n * (1 - ?u)) \<le> q * (of_nat n * (1 - ?u))"
    using q u by (intro mult_right_mono) auto
  moreover have "of_nat pct / 100 * (1 - ?u) * (of_nat n * (1 - ?u)) =
      of_nat pct / 100 * of_nat n * ((1 - ?u) * (1 - ?u))" by simp
  moreover have "q * (of_nat n * (1 - ?u)) = q * of_nat n * (1 - ?u)" by simp
  ultimately have x: "of_nat pct / 100 * of_nat n * ((1 - ?u) * (1 - ?u)) \<le> ?x" by linarith
  have "1 - 2 * ?u \<le> (1 - ?u) * (1 - ?u)" using u by (simp add: algebra_simps)
  then have "of_nat pct / 100 * of_nat n * (1 - 2 * ?u) \<le> of_nat pct / 100 * of_nat n * ((1 - ?u) * (1 - ?u))"
    by (intro mult_left_mono) auto
  with x have x: "of_nat (pct * n) * (1 - 2 * ?u) \<le> 100 * ?x" by simp
  have "of_nat (pct * n) \<le> (of_nat (100 * 2 ^ 45) :: rat)" using assms
    by (intro of_nat_mono mult_le_mono) simp_all
  then have "of_nat (pct * n) * (2 * ?u) < 1" unfolding u1 by simp
  with x have lt: "of_nat (pct * n) < 100 * ?x + 1" by (simp add: algebra_simps)
  show ?thesis
  proof (cases "n \<le> nat \<lfloor>?x\<rfloor>")
    case True
    then have "percentile_index (of_nat pct) n = n - 1" by (simp add: percentile_index_def)
    then show ?thesis using assms by simp
  next
    case False
    have "?x < of_int (\<lfloor>?x\<rfloor> + 1)" by linarith
    with lt have "(of_nat (pct * n) :: rat) < of_int (100 * (\<lfloor>?x\<rfloor> + 1) + 1)" by simp
    then have "int (pct * n) \<le> 100 * (\<lfloor>?x\<rfloor> + 1)"
      by (metis of_int_less_iff of_int_of_nat_eq zle_add1_eq_le)
    moreover have "0 \<le> \<lfloor>?x\<rfloor>" using qmin n by (simp add: q_def fmul_def fl_nonneg)
    moreover have "percentile_index (of_nat pct) n = nat \<lfloor>?x\<rfloor>" using False by (simp add: percentile_index_def)
    ultimately show ?thesis by (simp add: nat_add_distrib flip: of_nat_le_iff [where 'a = int])
  qed
qed

text \<open>In a sorted list at least \<open>i + 1\<close> elements do not exceed the one at position \<open>i\<close>.\<close>

lemma sorted_rank:
  fixes xs :: "'a::linorder list"
  assumes "sorted xs" and "i < length xs"
  shows "i + 1 \<le> length (filter (\<lambda>x. x \<le> xs ! i) xs)"
proof -
  have "filter (\<lambda>x. x \<le> xs ! i) (take (i + 1) xs) = take (i + 1) xs"
    using assms(2) sorted_nth_mono [OF assms(1)]
    by (intro filter_True) (auto simp: in_set_conv_nth less_Suc_eq_le)
  then have "length (filter (\<lambda>x. x \<le> xs ! i) (take (i + 1) xs)) = i + 1" using assms(2) by simp
  moreover have "length (filter (\<lambda>x. x \<le> xs ! i) xs) =
      length (filter (\<lambda>x. x \<le> xs ! i) (take (i + 1) xs @ drop (i + 1) xs))" by (simp only: append_take_drop_id)
  ultimately show ?thesis by (simp only: filter_append length_append)
qed

lemma length_filter_sort: "length (filter P (sort xs)) = length (filter P xs)"
  by (metis mset_filter mset_sort size_mset)

lemma length_filter_mono:
  "(\<And>x. P x \<Longrightarrow> Q x) \<Longrightarrow> length (filter P xs) \<le> length (filter Q xs)"
  by (induction xs) auto

text \<open>What a percentile of the summary means for the list it was computed from.\<close>

lemma percentile_rank:
  assumes "ms \<noteq> []" and "length ms < 2 ^ 45" and "1 \<le> pct" and "pct \<le> 100"
  shows "pct * length ms \<le> 100 * length (filter (\<lambda>m. to_ms (rm_latencyMicros m)
      \<le> getPercentileMs (sort (map rm_latencyMicros ms)) (of_nat pct)) ms)"
proof -
  let ?ls = "sort (map rm_latencyMicros ms)" and ?i = "percentile_index (of_nat pct) (length ms)"
  have i: "?i < length ?ls" using assms(1) percentile_index_less by simp
  have p: "getPercentileMs ?ls (of_nat pct) = to_ms (?ls ! ?i)" using assms(1) by (simp add: getPercentileMs_def)
  have "?i + 1 \<le> length (filter (\<lambda>x. x \<le> ?ls ! ?i) (map rm_latencyMicros ms))"
    using sorted_rank [OF sorted_sort i] by (simp only: length_filter_sort)
  also have "\<dots> = length (filter (\<lambda>m. rm_latencyMicros m \<le> ?ls ! ?i) ms)"
    by (simp add: filter_map o_def)
  also have "\<dots> \<le> length (filter (\<lambda>m. to_ms (rm_latencyMicros m) \<le> to_ms (?ls ! ?i)) ms)"
    by (intro length_filter_mono to_ms_mono)
  finally show ?thesis unfolding p using percentile_index_rank [of "length ms" pct] assms by simp
qed

lemma getPercentileMs_mono:
  assumes "sorted ls" and "p \<le> q" shows "getPercentileMs ls p \<le> getPercentileMs ls q"
  using assms percentile_index_mono [OF assms(2), of "length ls"] percentile_index_less [of "length ls" q]
  by (auto simp: getPercentileMs_def intro!: to_ms_mono sorted_nth_mono)

lemma getPercentileMs_last: "sorted ls \<Longrightarrow> ls \<noteq> [] \<Longrightarrow> getPercentileMs ls p \<le> to_ms (last ls)"
  using percentile_index_less [of "length ls" p]
  by (auto simp: getPercentileMs_def last_conv_nth intro!: to_ms_mono sorted_nth_mono)

text \<open>The mean of numbers whose sum is a double does not exceed their maximum.\<close>

lemma unat_sum_list:
  fixes ls :: "u64 list"
  assumes "sum_list (map unat ls) < 2 ^ 64" shows "unat (sum_list ls) = sum_list (map unat ls)"
  using assms
proof (induction ls)
  case (Cons l ls)
  then have "unat (sum_list ls) = sum_list (map unat ls)" by simp
  with Cons.prems have "unat l + unat (sum_list ls) < 2 ^ LENGTH(64)" by simp
  then show ?case using \<open>unat (sum_list ls) = _\<close> by (simp add: unat_add_lem [THEN iffD1])
qed simp

lemma average_le:
  assumes "sum_list (map unat ls) < 2 ^ 53" and "\<forall>l \<in> set ls. l \<le> m"
    and "ls \<noteq> []" and "length ls < 2 ^ 53"
  shows "fdiv (fdiv (double_of (sum_list ls)) (fl (of_nat (length ls)))) 1000 \<le> to_ms m"
proof -
  have s: "unat (sum_list ls) = sum_list (map unat ls)" using assms(1) by (intro unat_sum_list) simp
  have "sum_list (map unat ls) \<le> length ls * unat m" using assms(2)
    by (induction ls) (auto simp: word_le_nat_alt)
  then have "of_nat (sum_list (map unat ls)) \<le> (of_nat (length ls * unat m) :: rat)" by (rule of_nat_mono)
  then have "of_nat (sum_list (map unat ls)) / of_nat (length ls) \<le> (of_nat (unat m) :: rat)"
    using assms(3) by (simp del: of_nat_unat add: divide_le_eq mult.commute)
  then have "fdiv (double_of (sum_list ls)) (fl (of_nat (length ls))) \<le> double_of m"
    using assms(1,4) s by (simp del: of_nat_unat add: double_of_def fl_of_nat fdiv_def fl_mono)
  then show ?thesis by (simp add: to_ms_def fdiv_def fl_mono divide_right_mono)
qed


section \<open>Properties of the summary\<close>

lemma sort_map_cong: "mset ms = mset ns \<Longrightarrow> sort (map f ms) = sort (map f ns)"
  by (intro properties_for_sort) simp_all

lemma default_duration_pos: "0 < fl (1 / 1000)"
proof -
  have "pow2 (- 10) \<le> 1 / 1000" by (simp add: pow2_def power_int_minus)
  from fl_mono [OF this] show ?thesis by (intro less_le_trans [OF pow2_pos]) simp
qed

lemma length_filter_mset: "mset ms = mset ns \<Longrightarrow> length (filter P ms) = length (filter P ns)"
  by (metis mset_filter size_mset)

lemma sum_list_same: "mset ms = mset ns \<Longrightarrow> sum_list (map f ms) = (sum_list (map f ns) :: u64)"
  by (metis mset_map sum_mset_sum_list)

text \<open>C33. The counts of the summary are the counts of the recorded requests: every request is either
  successful or failed, the error rate is a percentage, and it is 0 exactly when every
  recorded request was successful.
\<close>

theorem summary_counts:
  assumes "length ms < 2 ^ 45" and "s = computeSummary d ms"
  shows "unat (ps_totalRequests s) = length ms
    \<and> unat (ps_successfulRequests s) = length (filter rm_success ms)
    \<and> unat (ps_successfulRequests s) + unat (ps_failedRequests s) = unat (ps_totalRequests s)
    \<and> 0 \<le> ps_errorRatePercent s \<and> ps_errorRatePercent s \<le> 100
    \<and> (ps_errorRatePercent s = 0 \<longleftrightarrow> (\<forall>m \<in> set ms. rm_success m))
    \<and> 0 < ps_durationSeconds s"
proof (cases "ms = []")
  case True
  then show ?thesis using assms(2) default_duration_pos
    by (simp add: computeSummary_def empty_summary_def)
next
  case False
  note f = computeSummary_fields [OF False assms(2) refl]
  let ?n = "length ms" and ?g = "length (filter rm_success ms)" and ?b = "length (filter (Not \<circ> rm_success) ms)"
  have le: "?g \<le> ?n" "?b \<le> ?n" by simp_all
  have u: "unat (of_nat ?n :: u64) = ?n" "unat (of_nat ?g :: u64) = ?g" "unat (of_nat ?b :: u64) = ?b"
    using assms(1) le [THEN le_less_trans, OF assms(1)] by (auto intro!: unat_of_nat_64)
  have d: "double_of (of_nat ?n) = of_nat ?n" "double_of (of_nat ?b) = of_nat ?b"
    using assms(1) le [THEN le_less_trans, OF assms(1)] unfolding double_of_def u
    by (auto intro!: fl_of_nat)
  have r: "ps_errorRatePercent s = fdiv (fmul 100 (of_nat ?b)) (of_nat ?n)"
    using False u(1) by (simp add: f(1,3,10) d word_less_nat_alt)
  have "?b = 0 \<longleftrightarrow> (\<forall>m \<in> set ms. rm_success m)" by (simp add: filter_empty_conv)
  then show ?thesis
    using rate_bounds [OF le(2)] False assms(1) success_partition [of ms] default_duration_pos by (simp add: f(1-4) u r)
qed

lemma summary_counts_witness:
  "let s = computeSummary 1 [\<lparr>rm_action = ''JOIN'', rm_latencyMicros = 9, rm_success = True\<rparr>]
   in ps_errorRatePercent s = 0 \<and> unat (ps_successfulRequests s) = 1"
  using summary_counts [OF _ refl, of "[\<lparr>rm_action = ''JOIN'', rm_latencyMicros = 9, rm_success = True\<rparr>]" 1]
  by (simp add: Let_def)

text \<open>C32. The percentiles of the summary are ordered, at least 50, 95 and 99 percent of the requests
  took no longer than the value reported for them, no request took longer than the reported
  maximum and one took just as long, and the mean does not exceed the maximum.
\<close>

theorem summary_percentiles:
  assumes "ms \<noteq> []" and "length ms < 2 ^ 45" and "s = computeSummary d ms"
    and "sum_list (map (unat \<circ> rm_latencyMicros) ms) < 2 ^ 53"
  shows "ps_p50LatencyMs s \<le> ps_p95LatencyMs s \<and> ps_p95LatencyMs s \<le> ps_p99LatencyMs s
    \<and> ps_p99LatencyMs s \<le> ps_maxLatencyMs s \<and> ps_avgLatencyMs s \<le> ps_maxLatencyMs s
    \<and> 50 * length ms \<le> 100 * length (filter (\<lambda>m. to_ms (rm_latencyMicros m) \<le> ps_p50LatencyMs s) ms)
    \<and> 95 * length ms \<le> 100 * length (filter (\<lambda>m. to_ms (rm_latencyMicros m) \<le> ps_p95LatencyMs s) ms)
    \<and> 99 * length ms \<le> 100 * length (filter (\<lambda>m. to_ms (rm_latencyMicros m) \<le> ps_p99LatencyMs s) ms)
    \<and> (\<forall>m \<in> set ms. to_ms (rm_latencyMicros m) \<le> ps_maxLatencyMs s)
    \<and> (\<exists>m \<in> set ms. to_ms (rm_latencyMicros m) = ps_maxLatencyMs s)"
proof -
  let ?ls = "sort (map rm_latencyMicros ms)"
  note f = computeSummary_fields [OF assms(1,3) refl]
  have ne: "?ls \<noteq> []" using assms(1) by (metis length_0_conv length_map length_sort)
  have last: "last ?ls \<in> rm_latencyMicros ` set ms" using last_in_set [OF ne] by simp
  have max: "\<forall>l \<in> set ?ls. l \<le> last ?ls"
    using ne by (auto simp: in_set_conv_nth last_conv_nth simp del: set_sort intro!: sorted_nth_mono)
  then have "\<forall>m \<in> set ms. to_ms (rm_latencyMicros m) \<le> to_ms (last ?ls)" by (auto intro: to_ms_mono)
  moreover have "ps_avgLatencyMs s \<le> ps_maxLatencyMs s"
    using average_le [of "map rm_latencyMicros ms" "last ?ls"] assms(1,2,4) max by (simp add: f(8,9) o_def)
  moreover have "\<exists>m \<in> set ms. to_ms (rm_latencyMicros m) = to_ms (last ?ls)" using last by auto
  ultimately show ?thesis
    using percentile_rank [OF assms(1,2), of 50] percentile_rank [OF assms(1,2), of 95]
      percentile_rank [OF assms(1,2), of 99] getPercentileMs_last [OF sorted_sort ne, of 99]
    by (simp add: f getPercentileMs_mono)
qed

lemma summary_percentiles_witness:
  "let s = computeSummary 1 [\<lparr>rm_action = ''JOIN'', rm_latencyMicros = 9, rm_success = True\<rparr>,
       \<lparr>rm_action = ''LEAVE'', rm_latencyMicros = 4, rm_success = False\<rparr>]
   in ps_p99LatencyMs s \<le> ps_maxLatencyMs s"
  using summary_percentiles [OF _ _ refl, of "[\<lparr>rm_action = ''JOIN'', rm_latencyMicros = 9, rm_success = True\<rparr>,
       \<lparr>rm_action = ''LEAVE'', rm_latencyMicros = 4, rm_success = False\<rparr>]" 1]
  by (simp add: Let_def)

text \<open>Lists with the same requests have the same summary.\<close>

lemma summary_order:
  assumes "mset ms = mset ns" shows "computeSummary d ms = computeSummary d ns"
proof -
  have "length ms = length ns" using assms by (rule mset_eq_length)
  moreover have "(ms = []) = (ns = [])" using assms by auto
  ultimately show ?thesis
    using length_filter_mset [OF assms] sort_map_cong [OF assms, of rm_latencyMicros]
      sum_list_same [OF assms, of rm_latencyMicros]
    by (simp add: computeSummary_def fold_tally Let_def cong: if_cong)
qed

end
