(* ===== verification/Replies.thy ===== *)
theory Replies
  imports Service JsonRoundtrip
begin

text \<open>
  What a client can make of a reply: every reply is a value of the wire format (integers within
  64 bits, doubles, sorted objects), so parsing its text gives back the value that the server
  built. This needs that the ids in the match and in the event log are of type \<open>int\<close>.
\<close>

section \<open>Values built from initializer lists\<close>

lemma storable_emplace:
  "list_all (\<lambda>(k, v). storable v) m \<Longrightarrow> storable v \<Longrightarrow> list_all (\<lambda>(k, v). storable v) (obj_emplace k v m)"
  by (induction k v m rule: obj_emplace.induct) auto

lemma storable_assign:
  "list_all (\<lambda>(k, v). storable v) m \<Longrightarrow> storable v \<Longrightarrow> list_all (\<lambda>(k, v). storable v) (obj_assign k v m)"
  by (induction k v m rule: obj_assign.induct) auto

lemma storable_init:
  assumes "list_all storable es" shows "storable (json_init es)"
proof (cases "list_all is_pair es")
  case True
  have "obj_sorted (foldl (\<lambda>m e. obj_emplace (pair_key e) (pair_val e) m) m es) \<and>
      list_all (\<lambda>(k, v). storable v) (foldl (\<lambda>m e. obj_emplace (pair_key e) (pair_val e) m) m es)"
    if "obj_sorted m" "list_all (\<lambda>(k, v). storable v) m" for m
    using that True assms
  proof (induction es arbitrary: m)
    case (Cons e es)
    then obtain k v where "e = JArray [JString k, v]" using is_pairD [of e] by auto
    then have "storable (pair_val e)" using Cons.prems by simp
    then show ?case using Cons by (simp add: storable_emplace)
  qed simp
  from this [of "[]"] show ?thesis using True by (simp add: json_init_def obj_sorted_def)
qed (use assms in \<open>simp add: json_init_def\<close>)

lemma storable_set: "storable j \<Longrightarrow> storable v \<Longrightarrow> json_set k v j = Ret j' \<Longrightarrow> storable j'"
  by (auto simp: json_set_def storable_assign obj_sorted_def [of "[_]"] split: json.splits)

lemma storable_i32 [simp]: "in_i32 i \<Longrightarrow> storable (JInt i)"
  by (simp add: in_i32_def)

lemma storable_word [simp]: "storable (JUInt (unat (w :: u64)))"
  using unsigned_less [of w, where 'a = nat] by simp

lemma storable_signed [simp]: "storable (JInt (sint (w :: u64)))"
  using sint_greater_eq [of w] sint_less [of w] by simp

declare storable.simps(2,3) [simp del]

lemma storable_error [simp]: "storable (errorResponse e)"
  unfolding errorResponse_def by (rule storable_init) simp

section \<open>The replies\<close>

text \<open>The ids of the players are of type \<open>int\<close>; the map is iterated over its entries.\<close>

definition ids_typed :: "server_state \<Rightarrow> bool" where
  "ids_typed s \<longleftrightarrow> (\<forall>k. arena (s_game s) k \<noteq> None \<longrightarrow> in_i32 k)"

definition iterates :: "request_env \<Rightarrow> bool" where
  "iterates env \<longleftrightarrow> (\<forall>m. set (e_iter env m) = set m)"

lemma player_numbers:
  assumes "player_ok k p" and "in_i32 k"
  shows "in_i32 (p_player_id p)" and "in_i32 (p_x p)" and "in_i32 (p_y p)" and "in_i32 (p_health p)"
    and "in_i32 (p_score p)" and "in_i32 (p_kills p)"
  using assms by (auto simp: player_ok_def game_consts in_i32_def)

lemma storable_player: "player_ok k p \<Longrightarrow> in_i32 k \<Longrightarrow> storable (player_json now p)"
  unfolding player_json_def
  by (rule storable_init) (simp add: player_numbers)

lemma storable_event: "in_i32 (ev_player_id ev) \<Longrightarrow> storable (event_json ev)"
  unfolding event_json_def
  by (rule storable_init) simp

lemma storable_snapshot:
  assumes "game_inv (s_game s)" and "ids_typed s" and "log_printable s" and "iterates env"
  shows "storable (snapshot (e_iter env) clk (s_game s))"
proof -
  have player: "storable (player_json now p)" if "(k, p) \<in> set (e_iter env (m_players (s_game s)))" for k p now
  proof -
    have "(k, p) \<in> set (m_players (s_game s))" using that assms(4) by (simp add: iterates_def)
    then have "arena (s_game s) k = Some p" using assms(1) map_of_in [of "m_players (s_game s)" k p]
      by (simp add: game_inv_def players_ok_def arena_def)
    then have "player_ok k p" "in_i32 k" using assms(1,2)
      by (simp_all add: game_inv_def players_ok_def ids_typed_def)
    then show ?thesis by (rule storable_player)
  qed
  have "list_all storable (map (\<lambda>(i, (k, p)). player_json (clk i) p)
      (enumerate 0 (e_iter env (m_players (s_game s)))))"
    using player by (auto simp: list_all_iff in_set_enumerate_eq) (metis nth_mem)
  moreover have "list_all storable (map event_json (drop n (m_events (s_game s))))" for n
    using assms(3) storable_event by (auto simp: list_all_iff log_printable_def dest: in_set_dropD)
  ultimately show ?thesis
    unfolding snapshot_def Let_def
    by (intro storable_init) simp
qed

lemma storable_metrics: "storable (metrics_json m)"
  unfolding metrics_json_def Let_def by (intro storable_init) simp

lemma storable_state_reply:
  assumes "state_reply env s = Ret j" and "game_inv (s_game s)" and "ids_typed s" and "log_printable s"
    and "iterates env"
  shows "storable j"
  using assms(1) storable_snapshot [OF assms(2-5), of "e_clk env"]
  by (auto simp: state_reply_def split: exc.splits elim!: storable_set [rotated 2])

lemma storable_attack_reply:
  "attack_reply pid target r = Ret j \<Longrightarrow> in_i32 pid \<Longrightarrow> in_i32 target \<Longrightarrow> in_i32 (ar_damage r) \<Longrightarrow>
     in_i32 (ar_targetHealthAfter r) \<Longrightarrow> in_i32 (ar_attackerScore r) \<Longrightarrow> storable j"
  by (auto simp: attack_reply_def Let_def split: if_splits
      elim!: storable_set [rotated 2] intro!: storable_init)

text \<open>A predicate that every value returned by a handler satisfies.\<close>

definition gives :: "(json \<Rightarrow> bool) \<Rightarrow> reply \<Rightarrow> bool" where
  "gives P r \<longleftrightarrow> (\<forall>j s'. r = Some (Ret j, s') \<longrightarrow> P j)"

lemma gives_simps [simp]:
  "gives P None" "gives P (Some (Throw e, s'))" "gives P (Some (Ret j, s')) \<longleftrightarrow> P j"
  by (simp_all add: gives_def)

lemma gives_int:
  "P (errorResponse (missing_field k)) \<Longrightarrow> P (errorResponse (wrong_type k ''an integer'')) \<Longrightarrow>
     (\<And>i. in_i32 i \<Longrightarrow> gives P (rest i)) \<Longrightarrow> gives P (required (requireInt j k) s rest)"
  by (rule requireInt_cases [of j k]) (auto simp: required_def)

lemma gives_string:
  "P (errorResponse (missing_field k)) \<Longrightarrow> P (errorResponse (wrong_type k ''a string'')) \<Longrightarrow>
     (\<And>t. gives P (rest t)) \<Longrightarrow> gives P (required (requireString j k) s rest)"
  by (rule requireString_cases [of j k]) (auto simp: required_def)

lemma gives_sum:
  "(\<And>e g. op = (Inl e, g) \<Longrightarrow> gives P (A e g)) \<Longrightarrow> (\<And>x g. op = (Inr x, g) \<Longrightarrow> gives P (K x g)) \<Longrightarrow>
     gives P (case op of (Inl e, g) \<Rightarrow> A e g | (Inr x, g) \<Rightarrow> K x g)"
  by (auto split: prod.splits sum.splits)

lemma gives_exc:
  "(\<And>s2. gives P (K s2)) \<Longrightarrow>
     gives P (case x of (Throw e, s2) \<Rightarrow> Some (Throw e, s2) | (Ret u, s2) \<Rightarrow> K s2)"
  by (auto split: prod.splits exc.splits)

lemma gives_prod: "(\<And>u s2. gives P (K u s2)) \<Longrightarrow> gives P (case x of (u, s2) \<Rightarrow> K u s2)"
  by (auto split: prod.splits)

lemma gives_if: "(c \<Longrightarrow> gives P a) \<Longrightarrow> (\<not> c \<Longrightarrow> gives P b) \<Longrightarrow> gives P (if c then a else b)"
  by simp

abbreviation wired :: "reply \<Rightarrow> bool" where
  "wired \<equiv> gives storable"

lemma consts_i32 [simp]: "in_i32 MAX_HEALTH" "in_i32 ATTACK_DAMAGE" "in_i32 0" "in_i32 500"
  by (simp_all add: game_consts in_i32_def)

lemma clamp_i32 [simp]: "in_i32 x \<Longrightarrow> in_i32 (clamp x MAP_MIN MAP_MAX)"
  by (auto simp: clamp_def game_consts in_i32_def)

lemma wired_join: "wired (handleJoin env req s)"
  unfolding handleJoin_def Let_def
  by (intro gives_int gives_sum gives_exc) (auto intro!: storable_init)

lemma wired_move: "wired (handleMove env req s)"
  unfolding handleMove_def Let_def
  by (intro gives_int gives_sum gives_prod) (auto intro!: storable_init)

lemma wired_chat: "wired (handleChat env req s)"
  unfolding handleChat_def
  by (intro gives_int gives_string gives_if) (auto intro!: storable_init)

lemma wired_score: "wired (handleUpdateScore env req s)"
  unfolding handleUpdateScore_def
  by (intro gives_int gives_if gives_sum) (auto intro!: storable_init)

lemma wired_leave:
  assumes "game_inv (s_game s)" shows "wired (handleLeave env req s)"
proof -
  have "in_i32 sc" if "removePlayer pid (s_game s) = (Inr sc, g)" for pid sc g
    using that assms player_okD [of "s_game s" pid]
    by (auto simp: removePlayer_def game_inv_def arena_def player_ok_def Let_def split: option.splits)
  then show ?thesis
    unfolding handleLeave_def Let_def
    by (intro gives_int gives_sum gives_prod) (auto intro!: storable_init)
qed

lemma wired_state:
  assumes "game_inv (s_game s)" and "ids_typed s" and "log_printable s" and "iterates env"
  shows "wired (handleGetState env req s)"
proof -
  have "wired (Some (state_reply env s1, s1))" if "s_game s1 = s_game s" for s1
  proof -
    have "game_inv (s_game s1)" "ids_typed s1" "log_printable s1"
      using assms that by (simp_all add: ids_typed_def log_printable_def)
    then show ?thesis using storable_state_reply assms(4)
      by (cases "state_reply env s1") auto
  qed
  then show ?thesis unfolding handleGetState_def
    by (auto split: option.splits exc.splits if_splits prod.splits dest!: game_if_cache)
qed

lemma wired_attack: "wired (handleAttack env req s)"
proof -
  have "wired (case attackPlayer pid target (s_game s) of
         None \<Rightarrow> None
       | Some (Inl err, g) \<Rightarrow> Some (Ret (errorResponse err), s\<lparr>s_game := g\<rparr>)
       | Some (Inr r, g) \<Rightarrow> Some (attack_reply pid target r,
           log_event env pid ''ATTACK'' (attack_data target r) (s\<lparr>s_game := g\<rparr>)))"
    if "in_i32 pid" "in_i32 target" for pid target
  proof (cases "attackPlayer pid target (s_game s)")
    case (Some x)
    obtain q g where x: "x = (q, g)" by fastforce
    have at: "attackPlayer pid target (s_game s) = Some (q, g)" using Some x by simp
    show ?thesis
    proof (cases q)
      case (Inr r)
      have "in_i32 (ar_damage r) \<and> in_i32 (ar_targetHealthAfter r) \<and> in_i32 (ar_attackerScore r)"
        by (cases rule: attack_cases [OF at]) (auto simp: Inr attack_defs in_i32_def max_def game_consts)
      then show ?thesis using Some x Inr that storable_attack_reply
        by (cases "attack_reply pid target r") auto
    qed (simp add: Some x)
  qed simp
  then show ?thesis unfolding handleAttack_def Let_def by (intro gives_int) auto
qed

lemma wired_metrics: "wired (handleGetMetrics s)"
  by (auto simp: handleGetMetrics_def gives_def split: exc.splits elim!: storable_set [rotated 2]
      intro: storable_metrics)

lemma wired_dispatch:
  assumes "game_inv (s_game s)" and "ids_typed s" and "log_printable s" and "iterates env"
  shows "wired (dispatch_action env action req s)"
  using wired_leave [OF assms(1)] wired_state [OF assms]
  by (simp add: dispatch_action_def wired_join wired_move wired_attack wired_chat wired_score wired_metrics
      del: gives_simps(3)) simp


section \<open>The ids stay typed\<close>

lemma int_arg_i32: "int_arg req k = Some i \<Longrightarrow> in_i32 i"
  by (cases rule: required_int_arg [of req k]) auto

text \<open>Only a join adds an id, and it is one that the request gives as an \<open>int\<close>.\<close>

lemma spec_op_ids:
  assumes "requested_op env action req = Some op" and "spec_op op m k \<noteq> None"
  shows "m k \<noteq> None \<or> in_i32 k"
  using assms int_arg_i32
  by (auto simp: requested_op_def split: if_splits bind_splits option.splits)

lemma ids_typed_handle:
  assumes "handle env raw s = Some (r, s')" and "ids_typed s" shows "ids_typed s'"
proof -
  have "arena (s_game s') = apply_op (requested env raw) (arena (s_game s))"
    using assms(1) by (rule arena_handle)
  moreover have "apply_op (requested env raw) m k \<noteq> None \<Longrightarrow> m k \<noteq> None \<or> in_i32 k" for m k
    using spec_op_ids
    by (auto simp: requested_def apply_op_def split: exc.splits option.splits json.splits)
  ultimately show ?thesis using assms(2) by (auto simp: ids_typed_def)
qed

definition typed_inv :: "server_state \<Rightarrow> bool" where
  "typed_inv s \<longleftrightarrow> server_inv s \<and> ids_typed s"

interpretation typed: invariant_of server_step typed_inv
proof unfold_locales
  fix s a t
  assume inv: "typed_inv s" and st: "server_step s a t"
  obtain env raw reply where a: "a = (env, raw, reply)" by (metis prod.collapse)
  have "server_inv t" using inv server.inv_step [OF _ st] by (simp add: typed_inv_def)
  moreover have "ids_typed t" using inv st a ids_typed_handle
    by (auto simp: typed_inv_def elim!: server_stepE)
  ultimately show "typed_inv t" by (simp add: typed_inv_def)
qed

lemma typed_inv_init:
  assumes "\<And>x. c = Some x \<Longrightarrow> cache_ok x" and "\<And>x. d = Some x \<Longrightarrow> db_ok x"
  shows "typed_inv (init_server clk c d)"
  using server_inv_init [OF assms]
  by (simp add: typed_inv_def ids_typed_def init_server_def init_game_def arena_def)

lemma started_typed: "typed_inv started"
  unfolding started_def by (rule typed_inv_init) simp_all

section \<open>What the client reads\<close>

lemma respond_storable:
  assumes "typed_inv s" and "iterates env" and "respond env action req (with_metrics f s) = Some (j, s1)"
  shows "storable j"
proof -
  have "game_inv (s_game (with_metrics f s))" "ids_typed (with_metrics f s)" "log_printable (with_metrics f s)"
    using assms(1) by (simp_all add: typed_inv_def server_inv_def ids_typed_def)
  from wired_dispatch [OF this assms(2), of action req] show ?thesis using assms(3)
    by (auto simp: respond_def gives_def split: option.splits exc.splits)
qed

text \<open>The text of a reply is read back as the value that the server counted.\<close>

lemma handle_readable:
  assumes "typed_inv s" and "iterates env" and "handle env raw s = Some (Ret t, s')"
  shows "\<exists>j. dump j = Ret t \<and> parse t = Ret (reread j) \<and> serves s j s'"
proof (cases rule: handle_cases [of raw env s])
  case (invalid e)
  have "log_printable s" using assms(1) by (simp add: typed_inv_def server_inv_def)
  then have "serves s (errorResponse e) s'" "dump (errorResponse e) = Ret t"
    using invalid assms(3) serves_invalid [of s e env] by simp_all
  then show ?thesis using parse_dump storable_error by blast
next
  case (valid req action)
  have u: "log_printable s" using assms(1) by (simp add: typed_inv_def server_inv_def)
  obtain j s1 where r: "respond env action req (with_metrics incrementRequestsTotal s) = Some (j, s1)"
    using valid(5) assms(3) by (auto split: option.splits)
  obtain s2 where s2: "count_result j s1 = (Ret (), s2)" "serves s j (stop_timer env s2)"
    using serves_valid [OF valid(3,4) u r] by blast
  have "storable j" by (rule respond_storable [OF assms(1,2) r])
  moreover have "dump j = Ret t" "s' = stop_timer env s2" using valid(5) assms(3) r s2(1) by simp_all
  ultimately show ?thesis using parse_dump s2(2) by blast
qed

lemma status_reread: "status_of (reread j) = status_of j"
proof (cases j)
  case (JObject m)
  have "map_of (map (\<lambda>(k, v). (k, reread v)) m) k = map_option reread (map_of m k)" for k
    by (induction m) auto
  then show ?thesis using JObject
    by (auto simp: status_of_def json_get_def split: option.splits json.splits elim: reread.elims)
qed (auto simp: status_of_def json_get_def)

section \<open>Properties\<close>

text \<open>C12. Every reply is well-typed on the wire: whatever the request, the text of the reply parses to
  the value that the server built (non-negative integers as unsigned), with the status "ok" or
  "error"; and the server stays in a state where that holds.
\<close>

theorem replies_read_back:
  assumes "typed_inv s" and "iterates env" and "handle env raw s = Some (Ret t, s')"
  shows "typed_inv s' \<and> (\<exists>j. dump j = Ret t \<and> parse t = Ret (reread j) \<and>
     (status_of (reread j) = Some ''ok'' \<or> status_of (reread j) = Some ''error''))"
proof -
  obtain j where "dump j = Ret t" "parse t = Ret (reread j)" "serves s j s'"
    using handle_readable [OF assms] by blast
  moreover have "typed_inv s'" using typed.inv_step [OF assms(1) server_step.request [OF assms(3)]] .
  ultimately show ?thesis by (auto simp: serves_def status_reread)
qed

theorem replies_read_back_witness:
  "\<exists>t s' j. handle still_env ''x'' started = Some (Ret t, s') \<and> parse t = Ret j \<and>
     (status_of j = Some ''ok'' \<or> status_of j = Some ''error'')"
proof -
  obtain t where "dump (errorResponse ''invalid JSON'') = Ret t"
    using dump_total [of "errorResponse ''invalid JSON''"] by auto
  then obtain s' where h: "handle still_env ''x'' started = Some (Ret t, s')" by (simp add: handle_garbage)
  have "iterates still_env" by (simp add: iterates_def still_env_def)
  from replies_read_back [OF started_typed this h] h show ?thesis by blast
qed






end
