(* ===== verification/Bot.thy ===== *)
theory Bot
  imports Replies Conversation Collector
begin

text \<open>
  The load simulator: \<open>PlayerBot.cpp\<close>, a client that joins, plays for a while and leaves, and
  \<open>Simulator.cpp\<close>, which runs the bots and summarises what they measured. A bot talks over a
  socket of \<open>Socket\<close>; \<open>bt_out\<close> collects the bytes that reach the server. The random generator,
  the clocks and the stop flag are read once per round: \<open>tick\<close>.
\<close>

record simulator_config =
  cf_host :: string
  cf_port :: "16 word"
  cf_playerCount :: int
  cf_durationSeconds :: int
  cf_basePlayerId :: int
  cf_actionIntervalMs :: int
  cf_seed :: int
  cf_debug :: bool

definition default_config :: simulator_config where
  "default_config = \<lparr>cf_host = ''127.0.0.1'', cf_port = 7777, cf_playerCount = 50,
     cf_durationSeconds = 10, cf_basePlayerId = 1000, cf_actionIntervalMs = 50, cf_seed = 42,
     cf_debug = False\<rparr>"

record bot =
  bt_playerId :: int
  bt_open :: bool \<comment> \<open>\<open>m_socketFd >= 0\<close>\<close>
  bt_rx :: "rx list"
  bt_tx :: "tx list"
  bt_out :: bytes
  bt_localMetrics :: "request_metric list"

text \<open>The seed \<open>config.seed + playerId\<close> is an addition of type \<open>int\<close>.\<close>

definition new_bot :: "int \<Rightarrow> simulator_config \<Rightarrow> bot option" where
  "new_bot playerId cfg = map_option (\<lambda>seed.
     \<lparr>bt_playerId = playerId, bt_open = False, bt_rx = [], bt_tx = [], bt_out = [],
      bt_localMetrics = []\<rparr>) (add_i32 (cf_seed cfg) playerId)"

definition connectSocket :: "conn_answer \<Rightarrow> rx list \<Rightarrow> tx list \<Rightarrow> bot \<Rightarrow> bool \<times> bot" where
  "connectSocket a rx tx b =
     (if \<not> ca_socket a then (False, b\<lparr>bt_open := False\<rparr>)
      else if \<not> ca_pton a then (False, b\<lparr>bt_open := False\<rparr>)
      else if \<not> ca_connect a then (False, b\<lparr>bt_open := False\<rparr>)
      else (True, b\<lparr>bt_open := True, bt_rx := rx, bt_tx := tx\<rparr>))"

definition disconnectSocket :: "bot \<Rightarrow> bot" where
  "disconnectSocket b = (if bt_open b then b\<lparr>bt_open := False\<rparr> else b)"

definition push_metric :: "string \<Rightarrow> u64 \<Rightarrow> bool \<Rightarrow> bot \<Rightarrow> bot" where
  "push_metric action latency ok b = b\<lparr>bt_localMetrics := bt_localMetrics b @
     [\<lparr>rm_action = action, rm_latencyMicros = latency, rm_success = ok\<rparr>]\<rparr>"

text \<open>The reply is a success when it parses and its status is "ok"; every exception is caught.\<close>

definition response_ok :: "string \<Rightarrow> bool" where
  "response_ok text = (case parse text of
       Throw _ \<Rightarrow> False
     | Ret resp \<Rightarrow> (case json_value resp ''status'' '''' of
          Throw _ \<Rightarrow> False
        | Ret st \<Rightarrow> st = ''ok''))"

text \<open>One request and its reply; \<open>t0\<close> and \<open>t1\<close> are clock readings in nanoseconds.\<close>

definition sendAndReceive :: "int \<Rightarrow> int \<Rightarrow> string \<Rightarrow> string \<Rightarrow> bot \<Rightarrow> bool \<times> bot" where
  "sendAndReceive t0 t1 action jsonPayload b =
     (if \<not> bt_open b then (False, b)
      else case writeAll (encode jsonPayload) (bt_tx b) of (ok, out, tx) \<Rightarrow>
        let b1 = b\<lparr>bt_tx := tx, bt_out := bt_out b @ out\<rparr>
        in if \<not> ok then (False, push_metric action 0 False b1)
           else case readExact HEADER_SIZE (bt_rx b1) of
             (None, q) \<Rightarrow> (False, push_metric action 0 False (b1\<lparr>bt_rx := q\<rparr>))
           | (Some lenBuf, q) \<Rightarrow>
               let payloadLen = readU32LE lenBuf in
               if MAX_MESSAGE_SIZE < payloadLen
               then (False, push_metric action 0 False (b1\<lparr>bt_rx := q\<rparr>))
               else case readExact (unat payloadLen) q of
                 (None, q1) \<Rightarrow> (False, push_metric action 0 False (b1\<lparr>bt_rx := q1\<rparr>))
               | (Some payload, q1) \<Rightarrow>
                   let latencyMicros = of_int ((t1 - t0) sdiv 1000);
                       success = response_ok (string_of payload)
                   in (success, push_metric action latencyMicros success (b1\<lparr>bt_rx := q1\<rparr>)))"

text \<open>\<open>sendAndReceive(action, req.dump())\<close>.\<close>

definition bot_request :: "int \<Rightarrow> int \<Rightarrow> string \<times> json \<Rightarrow> bot \<Rightarrow> bot exc" where
  "bot_request t0 t1 req b = (case dump (snd req) of
       Throw e \<Rightarrow> Throw e
     | Ret text \<Rightarrow> Ret (snd (sendAndReceive t0 t1 (fst req) text b)))"

section \<open>The requests of a bot\<close>

record tick =
  tk_stop :: bool
  tk_now :: int
  tk_roll :: int
  tk_x :: int
  tk_y :: int
  tk_t0 :: int
  tk_t1 :: int

definition join_request :: "int \<Rightarrow> string \<times> json" where
  "join_request pid = (''JOIN'', json_init [
     kv ''action'' (JString ''JOIN''), kv ''player_id'' (JInt pid)])"

definition leave_request :: "int \<Rightarrow> string \<times> json" where
  "leave_request pid = (''LEAVE'', json_init [
     kv ''action'' (JString ''LEAVE''), kv ''player_id'' (JInt pid)])"

text \<open>\<open>m_config.basePlayerId + m_config.playerCount - 1\<close>.\<close>

definition last_player :: "simulator_config \<Rightarrow> int option" where
  "last_player cfg = do {
     e \<leftarrow> add_i32 (cf_basePlayerId cfg) (cf_playerCount cfg);
     add_i32 e (- 1) }"

definition attack_target :: "simulator_config \<Rightarrow> int \<Rightarrow> int option" where
  "attack_target cfg pid = do {
     l \<leftarrow> last_player cfg;
     if pid = l then Some (cf_basePlayerId cfg) else add_i32 pid 1 }"

definition next_request :: "simulator_config \<Rightarrow> int \<Rightarrow> tick \<Rightarrow> (string \<times> json) option" where
  "next_request cfg pid tk =
     (if tk_roll tk \<le> 60 then Some (''MOVE'', json_init [
        kv ''action'' (JString ''MOVE''), kv ''player_id'' (JInt pid),
        kv ''x'' (JInt (tk_x tk)), kv ''y'' (JInt (tk_y tk))])
      else if tk_roll tk \<le> 75 then map_option (\<lambda>target. (''ATTACK'', json_init [
        kv ''action'' (JString ''ATTACK''), kv ''player_id'' (JInt pid),
        kv ''target_id'' (JInt target)])) (attack_target cfg pid)
      else if tk_roll tk \<le> 90 then Some (''GET_STATE'', json_init [
        kv ''action'' (JString ''GET_STATE''), kv ''player_id'' (JInt pid)])
      else Some (''CHAT'', json_init [
        kv ''action'' (JString ''CHAT''), kv ''player_id'' (JInt pid),
        kv ''message'' (JString ''ggwp'')]))"

text \<open>The two ways out of the loop.\<close>

definition round_ends :: "simulator_config \<Rightarrow> int \<Rightarrow> tick \<Rightarrow> bool" where
  "round_ends cfg start tk \<longleftrightarrow> tk_stop tk \<or> cf_durationSeconds cfg \<le> (tk_now tk - start) sdiv 1000000000"

text \<open>
  The loop over the rounds. \<open>None\<close> is undefined behaviour or a loop that is still running when
  the list of rounds is used up.
\<close>

fun bot_loop :: "simulator_config \<Rightarrow> int \<Rightarrow> tick list \<Rightarrow> bot \<Rightarrow> bot exc option" where
  "bot_loop cfg start [] b = None"
| "bot_loop cfg start (tk # tks) b =
     (if round_ends cfg start tk then Some (Ret b)
      else case next_request cfg (bt_playerId b) tk of
        None \<Rightarrow> None
      | Some req \<Rightarrow> (case bot_request (tk_t0 tk) (tk_t1 tk) req b of
           Throw e \<Rightarrow> Some (Throw e)
         | Ret b1 \<Rightarrow> bot_loop cfg start tks b1))"

text \<open>What one bot meets: the connection, the stream from and to the server, clocks and rounds.\<close>

record bot_env =
  be_conn :: conn_answer
  be_rx :: "rx list"
  be_tx :: "tx list"
  be_join :: "int \<times> int"
  be_start :: int
  be_ticks :: "tick list"
  be_leave :: "int \<times> int"

text \<open>
  \<open>run\<close>, with the collector that all bots share. The distribution of the targets is never drawn
  from, but its bounds must be in order.
\<close>

definition bot_run ::
    "simulator_config \<Rightarrow> bot_env \<Rightarrow> bot \<Rightarrow> request_metric list \<Rightarrow> (bot \<times> request_metric list) exc option" where
  "bot_run cfg env b0 coll =
     (case connectSocket (be_conn env) (be_rx env) (be_tx env) b0 of
        (False, b) \<Rightarrow> Some (Ret (b, collector_record ''CONNECT'' 0 False coll))
      | (True, b) \<Rightarrow>
         (case bot_request (fst (be_join env)) (snd (be_join env)) (join_request (bt_playerId b)) b of
            Throw e \<Rightarrow> Some (Throw e)
          | Ret b1 \<Rightarrow>
             (case last_player cfg of
                None \<Rightarrow> None
              | Some l \<Rightarrow>
                  if l < cf_basePlayerId cfg then None
                  else case bot_loop cfg (be_start env) (be_ticks env) b1 of
                    None \<Rightarrow> None
                  | Some (Throw e) \<Rightarrow> Some (Throw e)
                  | Some (Ret b2) \<Rightarrow>
                     (case bot_request (fst (be_leave env)) (snd (be_leave env))
                             (leave_request (bt_playerId b2)) b2 of
                        Throw e \<Rightarrow> Some (Throw e)
                      | Ret b3 \<Rightarrow>
                          let b4 = disconnectSocket b3
                          in Some (Ret (b4, recordBatch (bt_localMetrics b4) coll))))))"


section \<open>The simulator\<close>

text \<open>
  \<open>Simulator::run\<close>: one bot per player id, each in its own thread. The threads share only the
  collector, which a bot locks once, at its end; \<open>order\<close> is the order in which they do, a
  permutation of the bots 0, 1, ..., playerCount - 1 that the loop starts (\<open>None\<close> for other lists).
\<close>

fun run_bots ::
    "simulator_config \<Rightarrow> (nat \<Rightarrow> bot_env) \<Rightarrow> nat list \<Rightarrow> request_metric list
      \<Rightarrow> request_metric list exc option" where
  "run_bots cfg envs [] coll = Some (Ret coll)"
| "run_bots cfg envs (i # is) coll = do {
     playerId \<leftarrow> add_i32 (cf_basePlayerId cfg) (int i);
     b \<leftarrow> new_bot playerId cfg;
     r \<leftarrow> bot_run cfg (envs i) b coll;
     (case r of
        Throw e \<Rightarrow> Some (Throw e)
      | Ret (_, coll1) \<Rightarrow> run_bots cfg envs is coll1) }"

definition simulator_run ::
    "simulator_config \<Rightarrow> (nat \<Rightarrow> bot_env) \<Rightarrow> nat list \<Rightarrow> int \<Rightarrow> int \<Rightarrow> performance_summary exc option" where
  "simulator_run cfg envs order tStart tEnd =
     (if cf_playerCount cfg < 0 then Some (Throw ''length_error'')
      else if sort order \<noteq> [0..<nat (cf_playerCount cfg)] then None
      else case run_bots cfg envs order [] of
        None \<Rightarrow> None
      | Some (Throw e) \<Rightarrow> Some (Throw e)
      | Some (Ret coll) \<Rightarrow> Some (Ret (computeSummary (duration_seconds (tEnd - tStart)) coll)))"

end
