(* ===== verification/BotProps.thy ===== *)
theory BotProps
  imports Bot
begin

text \<open>
  A bot and the server agree: when the network carries the bytes of the one to the other, the
  bot measures one entry per request, and counts as many successes as the server.
\<close>

section \<open>The size of a text\<close>

fun text_bound :: "json \<Rightarrow> nat" where
  "text_bound (JString s) = 6 * length s + 2"
| "text_bound (JObject m) = 2 + sum_list (map (\<lambda>(k, v). 6 * length k + 4 + text_bound v) m)"
| "text_bound (JArray js) = 2 + sum_list (map (\<lambda>j. text_bound j + 1) js)"
| "text_bound j = 11"

lemma length_int_str: "in_i32 i \<Longrightarrow> length (int_str i) \<le> 11"
proof -
  assume i: "in_i32 i"
  then have "nat i < 10 ^ 10" "nat (- i) < 10 ^ 10" by (auto simp: in_i32_def)
  then have "length (nat_str (nat i)) \<le> 10" "length (nat_str (nat (- i))) \<le> 10"
    by (simp_all add: length_nat_str)
  then show ?thesis by (simp add: int_str_def)
qed

lemma length_escape: "length (escape cp c) \<le> 6"
  by (simp add: escape_def)

lemma length_dump_escaped: "dump_escaped st cp s = Ret t \<Longrightarrow> length t \<le> 6 * length s"
proof (induction st cp s arbitrary: t rule: dump_escaped.induct)
  case (2 st cp c s)
  obtain st' cp' where d: "utf8_decode st cp (of_char c) = (st', cp')" by fastforce
  show ?case using 2 d length_escape [of cp' c]
    by (fastforce simp: put_eq_Ret split: if_splits)
qed (auto split: if_splits)

lemma length_dump_string: "dump_string s = Ret t \<Longrightarrow> length t \<le> 6 * length s + 2"
  using length_dump_escaped by (fastforce simp: dump_string_def put_eq_Ret split: exc.splits)

fun ints_typed :: "json \<Rightarrow> bool" where
  "ints_typed (JInt i) = in_i32 i"
| "ints_typed (JString s) = True"
| "ints_typed (JBool b) = True"
| "ints_typed (JObject m) = list_all (\<lambda>(k, v). ints_typed v) m"
| "ints_typed (JArray js) = list_all ints_typed js"
| "ints_typed _ = False"

lemma length_members:
  "comma_separated (map (\<lambda>(k, v). dump_member k (dump v)) m) = Ret t \<Longrightarrow>
     (\<And>k v s. (k, v) \<in> set m \<Longrightarrow> dump v = Ret s \<Longrightarrow> length s \<le> text_bound v) \<Longrightarrow>
     length t \<le> sum_list (map (\<lambda>(k, v). 6 * length k + 4 + text_bound v) m)"
proof (induction m arbitrary: t)
  case (Cons p m)
  obtain k v where p: "p = (k, v)" by fastforce
  obtain a where a: "dump_member k (dump v) = Ret a"
    and t: "if m = [] then t = a else \<exists>b. comma_separated (map (\<lambda>(k, v). dump_member k (dump v)) m) = Ret b \<and>
      t = a @ '','' @ b"
    using Cons.prems(1) by (auto simp: p comma_separated_cons)
  obtain s1 s2 where s: "dump_string k = Ret s1" "dump v = Ret s2" "a = s1 @ '':'' @ s2"
    using a by (auto simp: dump_member_def put_eq_Ret split: exc.splits)
  have "length a \<le> 6 * length k + 3 + text_bound v"
    using length_dump_string [OF s(1)] Cons.prems(2) [of k v s2] s p by simp
  then show ?case using t Cons.IH Cons.prems(2) p by (fastforce split: if_splits)
qed simp

lemma length_elements:
  "comma_separated (map dump js) = Ret t \<Longrightarrow> (\<And>j s. j \<in> set js \<Longrightarrow> dump j = Ret s \<Longrightarrow> length s \<le> text_bound j) \<Longrightarrow>
     length t \<le> sum_list (map (\<lambda>j. text_bound j + 1) js)"
proof (induction js arbitrary: t)
  case (Cons j js)
  obtain a where a: "dump j = Ret a"
    and t: "if js = [] then t = a else \<exists>b. comma_separated (map dump js) = Ret b \<and> t = a @ '','' @ b"
    using Cons.prems(1) by (auto simp: comma_separated_cons)
  have "length a \<le> text_bound j" using Cons.prems(2) a by simp
  then show ?case using t Cons.IH Cons.prems(2) by (fastforce split: if_splits)
qed simp

lemma dump_bound: "dump j = Ret t \<Longrightarrow> ints_typed j \<Longrightarrow> length t \<le> text_bound j"
proof (induction j arbitrary: t)
  case (JObject m)
  obtain s where s: "comma_separated (map (\<lambda>(k, v). dump_member k (dump v)) m) = Ret s" "t = ''{'' @ s @ ''}''"
    using JObject.prems(1) by (auto simp: enclose_Ret)
  have "length s \<le> sum_list (map (\<lambda>(k, v). 6 * length k + 4 + text_bound v) m)"
    by (rule length_members [OF s(1)]) (use JObject in \<open>fastforce simp: list_all_iff\<close>)
  then show ?case using s(2) by simp
next
  case (JArray js)
  obtain s where s: "comma_separated (map dump js) = Ret s" "t = ''['' @ s @ '']''"
    using JArray.prems(1) by (auto simp: enclose_Ret)
  have "length s \<le> sum_list (map (\<lambda>j. text_bound j + 1) js)"
    by (rule length_elements [OF s(1)]) (use JArray in \<open>auto simp: list_all_iff\<close>)
  then show ?case using s(2) by simp
qed (auto simp: dump_integer_int_str length_int_str split: if_splits dest!: length_dump_string)

lemma bound_emplace:
  "sum_list (map (\<lambda>(k, v). 6 * length k + 4 + text_bound v) (obj_emplace k v m)) \<le>
     6 * length k + 4 + text_bound v + sum_list (map (\<lambda>(k, v). 6 * length k + 4 + text_bound v) m)"
  by (induction k v m rule: obj_emplace.induct) auto

lemma typed_emplace: "list_all (\<lambda>(k, v). ints_typed v) m \<Longrightarrow> ints_typed v \<Longrightarrow>
    list_all (\<lambda>(k, v). ints_typed v) (obj_emplace k v m)"
  by (induction k v m rule: obj_emplace.induct) auto

text \<open>The text of an object written out as a list of pairs.\<close>

definition pairs_bound :: "json list \<Rightarrow> nat" where
  "pairs_bound es = 2 + sum_list (map (\<lambda>e. 6 * length (pair_key e) + 4 + text_bound (pair_val e)) es)"

lemma init_bound:
  assumes "list_all is_pair es" and "list_all (\<lambda>e. ints_typed (pair_val e)) es"
  shows "text_bound (json_init es) \<le> pairs_bound es" and "ints_typed (json_init es)"
proof -
  let ?f = "\<lambda>m. foldl (\<lambda>m e. obj_emplace (pair_key e) (pair_val e) m) m es"
  let ?b = "\<lambda>m. sum_list (map (\<lambda>(k, v). 6 * length k + 4 + text_bound v) m)"
  have "?b (?f m) \<le> ?b m + sum_list (map (\<lambda>e. 6 * length (pair_key e) + 4 + text_bound (pair_val e)) es)" for m
  proof (induction es arbitrary: m)
    case (Cons e es)
    then show ?case using bound_emplace [of "pair_key e" "pair_val e" m] by (fastforce intro: order_trans)
  qed simp
  from this [of "[]"] show "text_bound (json_init es) \<le> pairs_bound es"
    using assms(1) by (simp add: json_init_def pairs_bound_def)
  have "list_all (\<lambda>(k, v). ints_typed v) m \<Longrightarrow> list_all (\<lambda>(k, v). ints_typed v) (?f m)" for m
    using assms(2) by (induction es arbitrary: m) (simp_all add: typed_emplace)
  then show "ints_typed (json_init es)" using assms(1) by (simp add: json_init_def)
qed

lemma pairs_bound_simps [simp]: "pairs_bound [] = 2"
  "pairs_bound (JArray [JString k, v] # es) = 6 * length k + 4 + text_bound v + pairs_bound es"
  by (simp_all add: pairs_bound_def)


section \<open>The requests of a session\<close>

fun bot_requests :: "simulator_config \<Rightarrow> int \<Rightarrow> int \<Rightarrow> tick list \<Rightarrow> (string \<times> json) list option" where
  "bot_requests cfg start pid [] = None"
| "bot_requests cfg start pid (tk # tks) =
     (if round_ends cfg start tk then Some []
      else do { r \<leftarrow> next_request cfg pid tk;
                rs \<leftarrow> bot_requests cfg start pid tks;
                Some (r # rs) })"

definition session_requests :: "simulator_config \<Rightarrow> bot_env \<Rightarrow> int \<Rightarrow> (string \<times> json) list option" where
  "session_requests cfg env pid = do {
     l \<leftarrow> last_player cfg;
     (if l < cf_basePlayerId cfg then None
      else map_option (\<lambda>rs. join_request pid # rs @ [leave_request pid])
             (bot_requests cfg (be_start env) pid (be_ticks env))) }"

definition text_of :: "string \<times> json \<Rightarrow> string" where
  "text_of r = (case dump (snd r) of Ret t \<Rightarrow> t | Throw _ \<Rightarrow> [])"

text \<open>A request with a printable text that fits in a frame.\<close>

definition request_ok :: "string \<times> json \<Rightarrow> bool" where
  "request_ok r \<longleftrightarrow> (\<exists>t. dump (snd r) = Ret t \<and> text_of r = t \<and> frame_ok t)"

lemma request_okI:
  assumes "list_all is_pair es" and "list_all (\<lambda>e. ints_typed (pair_val e)) es" and "list_all dumpable es"
    and "pairs_bound es \<le> 1048576"
  shows "request_ok (a, json_init es)"
proof -
  obtain t where t: "dump (json_init es) = Ret t" using dump_total [OF dumpable_init [OF assms(3)]] by blast
  have "length t \<le> 1048576"
    using dump_bound [OF t init_bound(2) [OF assms(1,2)]] init_bound(1) [OF assms(1,2)] assms(4) by linarith
  then show ?thesis using t by (simp add: request_ok_def text_of_def frame_ok_def)
qed

definition tick_ok :: "tick \<Rightarrow> bool" where
  "tick_ok tk \<longleftrightarrow> in_i32 (tk_x tk) \<and> in_i32 (tk_y tk)"

lemma join_leave_ok: "in_i32 pid \<Longrightarrow> request_ok (join_request pid)" "in_i32 pid \<Longrightarrow> request_ok (leave_request pid)"
  unfolding join_request_def leave_request_def by (rule request_okI; simp)+

lemma next_request_ok:
  assumes "next_request cfg pid tk = Some r" and "in_i32 pid" and "in_i32 (cf_basePlayerId cfg)" and "tick_ok tk"
  shows "request_ok r"
proof -
  have "in_i32 target" if "attack_target cfg pid = Some target" for target
    using that assms(3) by (auto simp: attack_target_def split: bind_splits if_splits)
  then show ?thesis using assms
    by (auto simp: next_request_def tick_ok_def split: if_splits intro!: request_okI)
qed

lemma bot_requests_ok:
  "bot_requests cfg start pid tks = Some rs \<Longrightarrow> in_i32 pid \<Longrightarrow> in_i32 (cf_basePlayerId cfg) \<Longrightarrow>
     list_all tick_ok tks \<Longrightarrow> list_all request_ok rs"
  by (induction cfg start pid tks arbitrary: rs rule: bot_requests.induct)
     (auto split: if_splits bind_splits dest: next_request_ok)

lemma session_requests_ok:
  assumes "session_requests cfg env pid = Some rs" and "in_i32 pid" and "in_i32 (cf_basePlayerId cfg)"
    and "list_all tick_ok (be_ticks env)"
  shows "list_all request_ok rs"
  using assms bot_requests_ok [OF _ assms(2-4)]
  by (auto simp: session_requests_def join_leave_ok split: bind_splits if_splits)

section \<open>Exchanges with a server that answers\<close>

definition exchanged :: "(string \<times> json) list \<Rightarrow> string list \<Rightarrow> bot \<Rightarrow> bot \<Rightarrow> bool" where
  "exchanged reqs rs b b' \<longleftrightarrow> bt_open b' = bt_open b \<and> bt_playerId b' = bt_playerId b \<and>
     tx_fine (bt_tx b') \<and> bt_out b' = bt_out b @ concat (map (encode \<circ> text_of) reqs) \<and>
     rx_bytes (bt_rx b) = concat (map encode rs) @ rx_bytes (bt_rx b') \<and>
     (\<exists>ms. bt_localMetrics b' = bt_localMetrics b @ ms \<and> map rm_action ms = map fst reqs \<and>
        map rm_success ms = map response_ok rs)"

lemma exchanged_refl [simp]: "tx_fine (bt_tx b) \<Longrightarrow> exchanged [] [] b b"
  by (simp add: exchanged_def)

lemma exchanged_trans:
  "exchanged r1 s1 a b \<Longrightarrow> exchanged r2 s2 b c \<Longrightarrow> exchanged (r1 @ r2) (s1 @ s2) a c"
  by (fastforce simp: exchanged_def)

text \<open>The bytes of a reply are on the stream: the bot reads exactly that reply.\<close>

lemma sendAndReceive_reply:
  assumes "bt_open b" and "tx_fine (bt_tx b)" and "rx_bytes (bt_rx b) = encode reply @ rest"
    and "frame_ok reply" and "text_of (action, j) = t"
  shows "\<exists>b'. sendAndReceive t0 t1 action t b = (response_ok reply, b') \<and>
     exchanged [(action, j)] [reply] b b' \<and> rx_bytes (bt_rx b') = rest"
proof -
  obtain tx where tx: "writeAll (encode t) (bt_tx b) = (True, encode t, tx)" "tx_fine tx"
    using writeAll_fine [OF assms(2)] by blast
  have "decode_frame (rx_bytes (bt_rx b)) = Some (reply, rest)"
    unfolding assms(3) by (rule frame.dec_enc [OF assms(4)])
  then have "decode (rx_bytes (bt_rx b)) = Decoded reply rest"
    by (auto simp: decode_frame_def split: decode_result.splits)
  then obtain hdr q pl q1 where r: "readExact HEADER_SIZE (bt_rx b) = (Some hdr, q)"
    "\<not> MAX_MESSAGE_SIZE < readU32LE hdr" "readExact (unat (readU32LE hdr)) q = (Some pl, q1)"
    "string_of pl = reply" "rx_bytes q1 = rest"
    by (rule read_decoded)
  show ?thesis
    using assms tx r by (simp add: sendAndReceive_def exchanged_def push_metric_def Let_def)
qed

lemma bot_request_reply:
  assumes "bt_open b" and "tx_fine (bt_tx b)" and "rx_bytes (bt_rx b) = encode reply @ rest"
    and "frame_ok reply" and "request_ok req"
  shows "\<exists>b'. bot_request t0 t1 req b = Ret b' \<and> exchanged [req] [reply] b b' \<and> rx_bytes (bt_rx b') = rest"
  using sendAndReceive_reply [OF assms(1-4), of "fst req" "snd req" _ t0 t1] assms(5)
  by (fastforce simp: bot_request_def request_ok_def)

lemma bot_loop_replies:
  assumes "bt_open b" and "tx_fine (bt_tx b)" and "bot_requests cfg start (bt_playerId b) tks = Some reqs"
    and "list_all request_ok reqs" and "list_all frame_ok rs" and "length rs = length reqs"
    and "rx_bytes (bt_rx b) = concat (map encode rs) @ rest"
  shows "\<exists>b'. bot_loop cfg start tks b = Some (Ret b') \<and> exchanged reqs rs b b' \<and> rx_bytes (bt_rx b') = rest"
  using assms
proof (induction tks arbitrary: b reqs rs)
  case (Cons tk tks)
  show ?case
  proof (cases "round_ends cfg start tk")
    case True
    then show ?thesis using Cons.prems by simp
  next
    case False
    then obtain req reqs' where req: "next_request cfg (bt_playerId b) tk = Some req"
      "bot_requests cfg start (bt_playerId b) tks = Some reqs'" "reqs = req # reqs'"
      using Cons.prems(3) by (auto split: bind_splits)
    then obtain r rs' where rs: "rs = r # rs'" using Cons.prems(6) by (cases rs) auto
    obtain b1 where b1: "bot_request (tk_t0 tk) (tk_t1 tk) req b = Ret b1" "exchanged [req] [r] b b1"
      "rx_bytes (bt_rx b1) = concat (map encode rs') @ rest"
      using bot_request_reply [of b r "concat (map encode rs') @ rest" req] Cons.prems req(3) rs by auto
    then obtain b2 where "bot_loop cfg start tks b1 = Some (Ret b2)" "exchanged reqs' rs' b1 b2"
      "rx_bytes (bt_rx b2) = rest"
      using Cons.IH [of b1 reqs' rs'] Cons.prems req rs by (auto simp: exchanged_def)
    then show ?thesis using False req b1 rs exchanged_trans [OF b1(2), of reqs' rs' b2] by simp
  qed
qed simp


definition connects :: "conn_answer \<Rightarrow> bool" where
  "connects a \<longleftrightarrow> ca_socket a \<and> ca_pton a \<and> ca_connect a"

lemma bot_run_replies:
  assumes "connects (be_conn env)" and "new_bot pid cfg = Some b0"
    and reqs: "session_requests cfg env pid = Some reqs" "list_all request_ok reqs"
    and rs: "list_all frame_ok rs" "length rs = length reqs"
    and net: "rx_bytes (be_rx env) = concat (map encode rs)" "tx_fine (be_tx env)"
  shows "\<exists>b ms. bot_run cfg env b0 coll = Some (Ret (b, coll @ ms)) \<and> \<not> bt_open b \<and>
     bt_out b = concat (map (encode \<circ> text_of) reqs) \<and> map rm_action ms = map fst reqs \<and>
     map rm_success ms = map response_ok rs"
proof -
  obtain l mid where mid: "last_player cfg = Some l" "\<not> l < cf_basePlayerId cfg"
    "bot_requests cfg (be_start env) pid (be_ticks env) = Some mid"
    "reqs = join_request pid # mid @ [leave_request pid]"
    using reqs(1) by (auto simp: session_requests_def split: bind_splits if_splits)
  obtain r1 rm r2 where r: "rs = r1 # rm @ [r2]" "length rm = length mid"
  proof -
    obtain r1 rs' where "rs = r1 # rs'" "length rs' = Suc (length mid)"
      using rs(2) mid(4) by (cases rs) auto
    moreover then obtain rm r2 where "rs' = rm @ [r2]" by (cases rs' rule: rev_cases) auto
    ultimately show thesis using that by simp
  qed
  define b where "b = b0\<lparr>bt_open := True, bt_rx := be_rx env, bt_tx := be_tx env\<rparr>"
  have b: "connectSocket (be_conn env) (be_rx env) (be_tx env) b0 = (True, b)"
    using assms(1) by (simp add: connectSocket_def connects_def b_def)
  have b0: "bt_playerId b = pid" "bt_open b" "bt_out b = []" "bt_localMetrics b = []" "tx_fine (bt_tx b)"
    "rx_bytes (bt_rx b) = encode r1 @ concat (map encode rm) @ encode r2"
    using assms(2) net by (auto simp: new_bot_def b_def r)
  have ok: "request_ok (join_request pid)" "list_all request_ok mid" "request_ok (leave_request pid)"
    "frame_ok r1" "list_all frame_ok rm" "frame_ok r2"
    using reqs(2) rs(1) by (simp_all add: mid(4) r)
  obtain b1 where b1: "bot_request (fst (be_join env)) (snd (be_join env)) (join_request pid) b = Ret b1"
    "exchanged [join_request pid] [r1] b b1" "rx_bytes (bt_rx b1) = concat (map encode rm) @ encode r2"
    using bot_request_reply [OF b0(2,5,6) ok(4,1)] by blast
  have f1: "bt_open b1" "tx_fine (bt_tx b1)" "bt_playerId b1 = pid"
    using b1(2) b0 by (simp_all add: exchanged_def)
  obtain b2 where b2: "bot_loop cfg (be_start env) (be_ticks env) b1 = Some (Ret b2)"
    "exchanged mid rm b1 b2" "rx_bytes (bt_rx b2) = encode r2 @ []"
    using bot_loop_replies [OF f1(1,2) _ ok(2,5) r(2) b1(3), of cfg "be_start env" "be_ticks env"] mid(3) f1(3)
    by auto
  have f2: "bt_open b2" "tx_fine (bt_tx b2)" "bt_playerId b2 = pid"
    using b2(2) f1 by (simp_all add: exchanged_def)
  obtain b3 where b3: "bot_request (fst (be_leave env)) (snd (be_leave env)) (leave_request pid) b2 = Ret b3"
    "exchanged [leave_request pid] [r2] b2 b3"
    using bot_request_reply [OF f2(1,2) b2(3) ok(6,3)] by blast
  have all: "exchanged reqs rs b b3"
    using exchanged_trans [OF exchanged_trans [OF b1(2) b2(2)] b3(2)] by (simp add: mid(4) r)
  then have "bt_open b3" using b0 by (simp add: exchanged_def)
  then show ?thesis using all b b0 b1(1) b2(1) b3(1) mid(1,2) f2(3)
    by (fastforce simp: bot_run_def exchanged_def disconnectSocket_def recordBatch_def Let_def)
qed

section \<open>What the server counts\<close>

lemma response_ok_status:
  assumes "dump j = Ret t" and "parse t = Ret (reread j)"
    and "status_of j = Some ''ok'' \<or> (\<exists>e. j = errorResponse e)"
  shows "response_ok t \<longleftrightarrow> status_of j = Some ''ok''"
proof -
  obtain st where st: "status_of j = Some st" "st = ''ok'' \<or> st = ''error''" using assms(3) by auto
  then have "json_value (reread j) ''status'' '''' = Ret st"
    by (intro json_value_status) (simp add: status_reread)
  then show ?thesis using assms(2) st by (auto simp: response_ok_def)
qed

lemma serve_all_counts:
  assumes "serve_all envs n ts s = Some (rs, s')" and "typed_inv s" and "\<And>i. iterates (envs i)"
  shows "length rs = length ts \<and> typed_inv s' \<and>
     m_successfulRequests (s_metrics s') =
       m_successfulRequests (s_metrics s) + of_nat (length (filter response_ok rs)) \<and>
     m_failedRequests (s_metrics s') =
       m_failedRequests (s_metrics s) + of_nat (length (filter (Not \<circ> response_ok) rs))"
  using assms(1,2)
proof (induction ts arbitrary: n s rs)
  case (Cons t ts)
  obtain r s1 rs1 where h: "handle (envs n) t s = Some (Ret r, s1)"
    "serve_all envs (Suc n) ts s1 = Some (rs1, s')" "rs = r # rs1"
    using Cons.prems(1) by (auto split: option.splits exc.splits prod.splits)
  obtain j where j: "dump j = Ret r" "parse r = Ret (reread j)" "serves s j s1"
    using handle_readable [OF Cons.prems(2) assms(3) h(1)] by blast
  have ok: "response_ok r \<longleftrightarrow> status_of j = Some ''ok''"
    using response_ok_status [OF j(1,2)] j(3) by (auto simp: serves_def)
  have "server_step s (envs n, t, r) s1" using h(1) by (rule server_step.request)
  then have "typed_inv s1" using typed.inv_step Cons.prems(2) by blast
  from Cons.IH [OF h(2) this] show ?case
    using j(3) h(3) ok by (auto simp: serves_def counts_def)
qed simp

section \<open>Short replies\<close>

text \<open>The replies to a join, a move and a leave fit in a frame.\<close>

definition short :: "json \<Rightarrow> bool" where
  "short j \<longleftrightarrow> ints_typed j \<and> text_bound j \<le> 3000"

lemma short_init: "list_all is_pair es \<Longrightarrow> list_all (\<lambda>e. ints_typed (pair_val e)) es \<Longrightarrow> pairs_bound es \<le> 3000 \<Longrightarrow>
    short (json_init es)"
  using init_bound [of es] by (simp add: short_def)

lemma short_error: "length e \<le> 400 \<Longrightarrow> short (errorResponse e)"
  unfolding errorResponse_def by (rule short_init) simp_all

lemma short_not_in_game: "in_i32 pid \<Longrightarrow> length (not_in_game ''player_id '' pid) \<le> 400"
  using length_int_str [of pid] by (simp add: not_in_game_def)

lemma short_join: "gives short (handleJoin env req s)"
proof -
  have errors: "length e \<le> 400" if "in_i32 pid" "addPlayer (e_clk env) pid (s_game s) = (Inl e, g)" for pid e g
    using that length_int_str [of pid] by (auto simp: addPlayer_def Let_def split: if_splits)
  show ?thesis
    unfolding handleJoin_def Let_def
    by (intro gives_int gives_sum gives_exc)
       (auto simp: missing_field_def wrong_type_def intro!: short_init short_error intro: errors
         dest: length_int_str)
qed

lemma short_leave:
  assumes "game_inv (s_game s)" shows "gives short (handleLeave env req s)"
proof -
  have "length e \<le> 400" if "in_i32 pid" "removePlayer pid (s_game s) = (Inl e, g)" for pid e g
    using that short_not_in_game [of pid] by (auto simp: removePlayer_def Let_def split: option.splits)
  moreover have "in_i32 sc" if "removePlayer pid (s_game s) = (Inr sc, g)" for pid sc g
    using that assms player_okD [of "s_game s" pid]
    by (auto simp: removePlayer_def game_inv_def arena_def player_ok_def Let_def split: option.splits)
  ultimately show ?thesis
    unfolding handleLeave_def Let_def
    by (intro gives_int gives_sum gives_prod)
       (auto simp: missing_field_def wrong_type_def intro!: short_init short_error dest: length_int_str)
qed

lemma short_move: "gives short (handleMove env req s)"
proof -
  have errors: "length e \<le> 400" if "in_i32 pid" "movePlayer pid x y (s_game s) = (Inl e, g)" for pid x y e g
    using that short_not_in_game [of pid] by (auto simp: movePlayer_def Let_def split: option.splits)
  have "in_i32 (clamp x MAP_MIN MAP_MAX)" for x by (simp add: clamp_def game_consts in_i32_def)
  then show ?thesis
    unfolding handleMove_def Let_def
    by (intro gives_int gives_sum gives_prod)
       (auto simp: missing_field_def wrong_type_def intro!: short_init short_error intro: errors
         dest: length_int_str)
qed

lemma json_get_reread: "json_get (reread j) k = map_option reread (json_get j k)"
proof (cases j)
  case (JObject m)
  have "map_of (map (\<lambda>(k, v). (k, reread v)) m) k = map_option reread (map_of m k)"
    by (induction m) auto
  then show ?thesis using JObject by (simp add: json_get_def)
qed (simp_all add: json_get_def)

lemma served_short:
  assumes "typed_inv s" and "action \<in> {''JOIN'', ''MOVE'', ''LEAVE''}"
    and "request_ok req" and "storable (snd req)" and "json_get (snd req) ''action'' = Some (JString action)"
  shows "\<exists>r s'. handle env (text_of req) s = Some (Ret r, s') \<and> frame_ok r"
proof -
  have inv: "log_printable s" "game_inv (s_game s)" using assms(1) by (simp_all add: typed_inv_def server_inv_def)
  have p: "parse (text_of req) = Ret (reread (snd req))" "json_get (reread (snd req)) ''action'' = Some (JString action)"
    using parse_dump assms(3-5) by (auto simp: request_ok_def json_get_reread)
  then have "json_get (reread (snd req)) ''action'' \<noteq> Some (JString ''ATTACK'')" using assms(2) by auto
  then obtain r s' where h: "handle env (text_of req) s = Some (Ret r, s')"
    by (rule handle_returns [OF inv(1) p(1)])
  have "frame_ok r"
  proof (cases rule: handle_cases [of "text_of req" env s])
    case (invalid e)
    then show ?thesis using p by blast
  next
    case (valid req' action')
    then have a: "req' = reread (snd req)" "action' = action" using p by simp_all
    obtain j s1 where j: "respond env action req' (with_metrics incrementRequestsTotal s) = Some (j, s1)"
      "dump j = Ret r"
      using valid(5) h a by (auto split: option.splits prod.splits exc.splits)
    have "gives short (dispatch_action env action req' (with_metrics incrementRequestsTotal s))"
      using assms(2) short_join short_move short_leave inv(2) by (auto simp: dispatch_action_def)
    moreover have "short (errorResponse ''internal server error'')" by (rule short_error) simp
    ultimately have "short j" using j(1) by (auto simp: respond_def gives_def split: option.splits exc.splits)
    then show ?thesis using dump_bound [OF j(2)] by (simp add: short_def frame_ok_def)
  qed
  then show ?thesis using h by blast
qed

text \<open>A session of one round: a join, a move and a leave.\<close>

definition move_tick :: tick where
  "move_tick = \<lparr>tk_stop = False, tk_now = 0, tk_roll = 1, tk_x = 10, tk_y = 2000, tk_t0 = 100, tk_t1 = 200\<rparr>"

definition short_session :: "int \<Rightarrow> (string \<times> json) list" where
  "short_session pid = [join_request pid, the (next_request default_config pid move_tick), leave_request pid]"

lemma short_session: "next_request default_config pid move_tick = Some (''MOVE'', json_init [
    kv ''action'' (JString ''MOVE''), kv ''player_id'' (JInt pid), kv ''x'' (JInt 10), kv ''y'' (JInt 2000)])"
  by (simp add: next_request_def move_tick_def)

lemma short_session_requests:
  assumes "r \<in> set (short_session pid)" and "in_i32 pid"
  shows "fst r \<in> {''JOIN'', ''MOVE'', ''LEAVE''}" and "storable (snd r)"
    and "json_get (snd r) ''action'' = Some (JString (fst r))" and "request_ok r"
proof -
  have i: "in_i32 10" "in_i32 2000" by (simp_all add: in_i32_def)
  show "fst r \<in> {''JOIN'', ''MOVE'', ''LEAVE''}" "json_get (snd r) ''action'' = Some (JString (fst r))"
    using assms(1)
    by (auto simp: short_session_def short_session join_request_def leave_request_def json_init_get)
  show "storable (snd r)" using assms i
    by (auto simp: short_session_def short_session join_request_def leave_request_def
        simp del: storable.simps(2,3) intro!: storable_init)
  have "request_ok (the (next_request default_config pid move_tick))"
    by (rule next_request_ok [of default_config pid move_tick])
       (use assms(2) i in \<open>simp_all add: short_session, simp_all add: tick_ok_def move_tick_def
          default_config_def in_i32_def\<close>)
  then show "request_ok r" using assms join_leave_ok by (auto simp: short_session_def)
qed

lemma short_served:
  assumes "typed_inv s" and "in_i32 pid" and "set reqs \<subseteq> set (short_session pid)"
  shows "\<exists>rs s'. serve_all envs n (map text_of reqs) s = Some (rs, s') \<and> list_all frame_ok rs"
  using assms(1,3)
proof (induction reqs arbitrary: n s)
  case (Cons q reqs)
  note q = short_session_requests [OF _ assms(2), of q]
  obtain r s1 where h: "handle (envs n) (text_of q) s = Some (Ret r, s1)" "frame_ok r"
    using served_short [OF Cons.prems(1) q(1,4,2,3)] Cons.prems(2) by fastforce
  have "typed_inv s1" using typed.inv_step [OF Cons.prems(1) server_step.request [OF h(1)]] .
  then obtain rs s' where "serve_all envs (Suc n) (map text_of reqs) s1 = Some (rs, s')" "list_all frame_ok rs"
    using Cons.IH Cons.prems(2) by fastforce
  then show ?case using h by simp
qed simp

section \<open>Properties\<close>

lemma filter_same: "map f xs = map g ys \<Longrightarrow> length (filter f xs) = length (filter g ys) \<and>
    length (filter (Not \<circ> f) xs) = length (filter (Not \<circ> g) ys)"
  by (induction xs arbitrary: ys) (auto simp: Cons_eq_map_conv)

text \<open>C11. End to end: a bot plays a session (a join, the requests of its rounds, a leave) against the
  server. Suppose that the bot connects and its session ends; its ids, seed and coordinates fit an
  int; the server keeps its invariant, visits each entry of a hash map once, and answers every request
  of the session (no attack overflows a score); no reply is longer than 1 MiB (the limit of a frame,
  which a snapshot of very many players could exceed); and the network carries the bytes of the one to
  the other, in any pieces. Then the server's conversation with the bot yields exactly the bytes that
  the bot reads; the bot returns, flushes one measurement per request in order, and counts as many
  successes and failures as the server's metrics.
\<close>

theorem bot_agrees_with_server:
  assumes "connects (be_conn env)" and "new_bot pid cfg = Some b0" and "in_i32 pid"
    and "in_i32 (cf_basePlayerId cfg)" and "list_all tick_ok (be_ticks env)"
    and reqs: "session_requests cfg env pid = Some reqs"
    and server: "typed_inv (sv_state sv)" "\<And>i. iterates (envs i)"
      "serve_all envs 0 (map text_of reqs) (sv_state sv) = Some (rs, s)" "list_all frame_ok rs"
    and net: "rx_bytes (be_rx env) = concat (map encode rs)" "tx_fine (be_tx env)"
      "rx_bytes rx = concat (map (encode \<circ> text_of) reqs)" "tx_fine tx"
  shows "\<exists>b ms c sv1. bot_run cfg env b0 coll = Some (Ret (b, coll @ ms)) \<and> bt_out b = rx_bytes rx \<and>
     handleClient envs now fd addr rx tx sv = Some (Ret (), c, sv1) \<and> sv_state sv1 = s \<and>
     cl_out c = rx_bytes (be_rx env) \<and> map rm_action ms = map fst reqs \<and>
     m_successfulRequests (s_metrics s) =
       m_successfulRequests (s_metrics (sv_state sv)) + of_nat (length (filter rm_success ms)) \<and>
     m_failedRequests (s_metrics s) =
       m_failedRequests (s_metrics (sv_state sv)) + of_nat (length (filter (Not \<circ> rm_success) ms))"
proof -
  have ok: "list_all request_ok reqs" using session_requests_ok [OF reqs assms(3-5)] .
  note counted = serve_all_counts [OF server(3,1,2)]
  then have len: "length rs = length reqs" by simp
  obtain b ms where b: "bot_run cfg env b0 coll = Some (Ret (b, coll @ ms))"
    "bt_out b = concat (map (encode \<circ> text_of) reqs)" "map rm_action ms = map fst reqs"
    "map rm_success ms = map response_ok rs"
    using bot_run_replies [OF assms(1,2) reqs ok server(4) len net(1,2), of coll] by blast
  note same = filter_same [OF b(4)]
  moreover have "list_all frame_ok (map text_of reqs)"
    using ok by (auto simp: list_all_iff request_ok_def)
  then have "\<exists>c sv1. handleClient envs now fd addr rx tx sv = Some (Ret (), c, sv1) \<and> sv_state sv1 = s \<and>
      cl_out c = concat (map encode rs)"
    using conversation [of rx "map text_of reqs" "[]" tx envs sv rs s] net(3,4) server(3) frame.dec_Nil by simp
  ultimately show ?thesis using b(1-3) counted net(1,3) by (simp add: same)
qed

definition quick_env :: "string list \<Rightarrow> bot_env" where
  "quick_env rs = \<lparr>be_conn = \<lparr>ca_socket = True, ca_pton = True, ca_connect = True\<rparr>,
     be_rx = [RxData (concat (map encode rs))], be_tx = [TxAccept 7], be_join = (0, 5000), be_start = 0,
     be_ticks = [move_tick, \<lparr>tk_stop = True, tk_now = 0, tk_roll = 1, tk_x = 0, tk_y = 0, tk_t0 = 0, tk_t1 = 0\<rparr>],
     be_leave = (0, 9000)\<rparr>"

theorem bot_agrees_with_server_witness:
  "\<exists>rs b0 b ms. new_bot 1 default_config = Some b0 \<and>
     bot_run default_config (quick_env rs) b0 [] = Some (Ret (b, ms)) \<and>
     map rm_action ms = [''JOIN'', ''MOVE'', ''LEAVE'']"
proof -
  define sv where "sv = fresh_server"
  have "sv_state sv = started" by (simp add: sv_def fresh_server_def started_def)
  then have inv: "typed_inv (sv_state sv)" using started_typed by simp
  have it: "iterates still_env" by (simp add: iterates_def still_env_def)
  have pid: "in_i32 (1 :: int)" by (simp add: in_i32_def)
  let ?reqs = "short_session 1"
  obtain rs s where rs: "serve_all (\<lambda>_. still_env) 0 (map text_of ?reqs) (sv_state sv) = Some (rs, s)"
      "list_all frame_ok rs"
    using short_served [OF inv pid, of ?reqs] by blast
  let ?b0 = "\<lparr>bt_playerId = 1, bt_open = False, bt_rx = [], bt_tx = [], bt_out = [], bt_localMetrics = []\<rparr>"
  have b0: "new_bot 1 default_config = Some ?b0" by (simp add: new_bot_def default_config_def add_i32_def in_i32_def)
  have "\<not> round_ends default_config 0 move_tick" by (simp add: round_ends_def move_tick_def default_config_def)
  then have "bot_requests default_config (be_start (quick_env rs)) 1 (be_ticks (quick_env rs)) =
      Some [the (next_request default_config 1 move_tick)]"
    by (simp add: quick_env_def short_session) (simp add: round_ends_def)
  moreover have "last_player default_config = Some 1049" "cf_basePlayerId default_config = 1000"
    by (simp_all add: last_player_def default_config_def add_i32_def in_i32_def)
  ultimately have reqs: "session_requests default_config (quick_env rs) 1 = Some ?reqs"
    by (simp add: session_requests_def short_session_def)
  have hyps: "connects (be_conn (quick_env rs))" "in_i32 (cf_basePlayerId default_config)"
    "list_all tick_ok (be_ticks (quick_env rs))" "rx_bytes (be_rx (quick_env rs)) = concat (map encode rs)"
    "tx_fine (be_tx (quick_env rs))" "tx_fine []"
    "rx_bytes [RxData (concat (map (encode \<circ> text_of) ?reqs))] = concat (map (encode \<circ> text_of) ?reqs)"
    by (simp_all add: quick_env_def connects_def tx_fine_def tick_ok_def move_tick_def default_config_def in_i32_def)
  obtain b ms where "bot_run default_config (quick_env rs) ?b0 [] = Some (Ret (b, [] @ ms))"
      "map rm_action ms = map fst ?reqs"
    using bot_agrees_with_server [OF hyps(1) b0 pid hyps(2,3) reqs inv it rs hyps(4,5,7,6),
      of "[]" 0 5 "''10.0.0.1:4000''"] by blast
  moreover have "map fst ?reqs = [''JOIN'', ''MOVE'', ''LEAVE'']"
    by (simp add: short_session_def short_session join_request_def leave_request_def)
  ultimately show ?thesis using b0 by (intro exI conjI) (assumption | simp)+
qed

section \<open>The schedule of the bots\<close>

lemma bot_run_append: "bot_run cfg env b coll = (case bot_run cfg env b [] of
     Some (Ret (b', ms)) \<Rightarrow> Some (Ret (b', coll @ ms)) | x \<Rightarrow> x)"
  by (auto simp: bot_run_def collector_record_def recordBatch_def Let_def
      split: prod.split bool.split exc.split option.split)

definition bot_batch ::
    "simulator_config \<Rightarrow> (nat \<Rightarrow> bot_env) \<Rightarrow> nat \<Rightarrow> request_metric list option" where
  "bot_batch cfg envs i = do {
     playerId \<leftarrow> add_i32 (cf_basePlayerId cfg) (int i);
     b \<leftarrow> new_bot playerId cfg;
     r \<leftarrow> bot_run cfg (envs i) b [];
     (case r of Throw e \<Rightarrow> None | Ret (_, ms) \<Rightarrow> Some ms) }"

lemma run_bots_batches:
  "run_bots cfg envs is coll = Some (Ret c) \<longleftrightarrow>
     (\<forall>i \<in> set is. bot_batch cfg envs i \<noteq> None) \<and> c = coll @ concat (map (the \<circ> bot_batch cfg envs) is)"
proof (induction "is" arbitrary: coll)
  case (Cons i "is")
  show ?case
  proof (cases "bot_batch cfg envs i")
    case None
    then have "run_bots cfg envs (i # is) coll \<noteq> Some (Ret c)"
      using bot_run_append [of cfg "envs i" _ coll]
      by (auto simp: bot_batch_def split: bind_splits exc.splits prod.splits)
    then show ?thesis using None by simp
  next
    case (Some ms)
    then have "run_bots cfg envs (i # is) coll = run_bots cfg envs is (coll @ ms)"
      using bot_run_append [of cfg "envs i" _ coll]
      by (auto simp: bot_batch_def split: bind_splits exc.splits prod.splits)
    then show ?thesis using Some Cons.IH [of "coll @ ms"] by simp
  qed
qed auto

lemma mset_concat_map: "mset is = mset js \<Longrightarrow> mset (concat (map f is)) = mset (concat (map f js))"
  by (simp add: mset_concat flip: sum_mset_sum_list)

text \<open>C34. The order in which the bots of a simulation take the collector's lock does not change its
  result: two schedules of the same bots return the same summary.
\<close>

theorem simulation_schedule_irrelevant:
  assumes "mset order1 = mset order2" and "simulator_run cfg envs order1 tStart tEnd = Some (Ret s)"
  shows "simulator_run cfg envs order2 tStart tEnd = Some (Ret s)"
proof -
  obtain c where c: "\<not> cf_playerCount cfg < 0" "sort order1 = [0..<nat (cf_playerCount cfg)]" "run_bots cfg envs order1 [] = Some (Ret c)"
    "s = computeSummary (duration_seconds (tEnd - tStart)) c"
    using assms(2) by (auto simp: simulator_run_def split: if_splits option.splits exc.splits)
  let ?f = "the \<circ> bot_batch cfg envs"
  have all: "\<forall>i \<in> set order1. bot_batch cfg envs i \<noteq> None" "c = concat (map ?f order1)"
    using c(3) by (simp_all add: run_bots_batches)
  have "set order2 = set order1" using assms(1) by (metis set_mset_mset)
  then have "run_bots cfg envs order2 [] = Some (Ret (concat (map ?f order2)))"
    using all(1) by (simp add: run_bots_batches)
  moreover have "computeSummary (duration_seconds (tEnd - tStart)) (concat (map ?f order2)) = s"
    unfolding c(4) all(2) by (rule summary_order) (rule mset_concat_map [OF assms(1), symmetric])
  moreover have "sort order2 = [0..<nat (cf_playerCount cfg)]"
    using c(2) assms(1) by (metis mset_sort properties_for_sort sorted_sort)
  ultimately show ?thesis using c(1) by (simp add: simulator_run_def)
qed

definition deaf_env :: bot_env where
  "deaf_env = (quick_env [])\<lparr>be_conn := \<lparr>ca_socket = True, ca_pton = True, ca_connect = False\<rparr>\<rparr>"

theorem simulation_schedule_irrelevant_witness:
  "\<exists>s. simulator_run (default_config\<lparr>cf_playerCount := 2\<rparr>) (\<lambda>_. deaf_env) [0, 1] 0 5 = Some (Ret s) \<and>
     simulator_run (default_config\<lparr>cf_playerCount := 2\<rparr>) (\<lambda>_. deaf_env) [1, 0] 0 5 = Some (Ret s)"
proof -
  let ?cfg = "default_config\<lparr>cf_playerCount := 2\<rparr>"
  have "run_bots ?cfg (\<lambda>_. deaf_env) [0, 1] [] \<noteq> None \<and>
      (\<forall>e. run_bots ?cfg (\<lambda>_. deaf_env) [0, 1] [] \<noteq> Some (Throw e))"
    by (simp add: default_config_def add_i32_def in_i32_def new_bot_def bot_run_def connectSocket_def deaf_env_def)
  moreover have "sort [0, 1] = [0..<nat (cf_playerCount ?cfg)]" by (simp add: upt_rec numeral_2_eq_2)
  ultimately obtain s where "simulator_run ?cfg (\<lambda>_. deaf_env) [0, 1] 0 5 = Some (Ret s)"
    by (fastforce simp: simulator_run_def split: option.splits exc.splits)
  then show ?thesis using simulation_schedule_irrelevant [of "[0, 1]" "[1, 0]"] by fastforce
qed

end
