(* ===== verification/HttpMetrics.thy ===== *)
theory HttpMetrics
  imports Framer Metrics FloatText
begin

text \<open>
  The metrics endpoint: \<open>toPrometheusText\<close> of \<open>Metrics.cpp\<close> and \<open>HttpMetricsServer.cpp\<close>.
  A client that reads the response as HTTP and the body in the text format of Prometheus
  (\<open>http_read\<close>, \<open>samples\<close>) finds the values of the registry.
\<close>

section \<open>std::fixed\<close>

text \<open>A double printed with \<open>p\<close> digits after the point: the exact value, rounded to even.\<close>

definition fixed_str :: "nat \<Rightarrow> double \<Rightarrow> string" where
  "fixed_str p x = (let n = nat (round_even (\<bar>x\<bar> * 10 ^ p))
     in (if x < 0 then ''-'' else []) @ nat_str (n div 10 ^ p) @ ''.'' @ zero_pad p (nat_str (n mod 10 ^ p)))"

section \<open>toPrometheusText\<close>

definition metric_head :: "string \<Rightarrow> string \<Rightarrow> string \<Rightarrow> string" where
  "metric_head name help kind = ''# HELP '' @ name @ '' '' @ help @ [LF] @
     ''# TYPE '' @ name @ '' '' @ kind @ [LF]"

definition metric_line :: "string \<Rightarrow> string \<Rightarrow> string" where
  "metric_line name v = name @ '' '' @ v @ [LF]"

definition bucket_name :: "string \<Rightarrow> string" where
  "bucket_name le = ''game_server_request_latency_seconds_bucket{le='' @ [CHR 0x22] @ le @ [CHR 0x22] @ ''}''"

definition u64_str :: "u64 \<Rightarrow> string" where
  "u64_str w = nat_str (unat w)"

definition toPrometheusText :: "metrics \<Rightarrow> string" where
  "toPrometheusText m =
     metric_head ''game_server_active_players'' ''Number of currently connected active players'' ''gauge'' @
     metric_line ''game_server_active_players'' (int_str (sint (m_activePlayers m))) @ [LF] @
     metric_head ''game_server_requests_total'' ''Total number of gameplay requests received'' ''counter'' @
     metric_line ''game_server_requests_total'' (u64_str (m_requestsTotal m)) @ [LF] @
     metric_head ''game_server_successful_requests'' ''Total successful gameplay requests'' ''counter'' @
     metric_line ''game_server_successful_requests'' (u64_str (m_successfulRequests m)) @ [LF] @
     metric_head ''game_server_failed_requests'' ''Total failed or invalid gameplay requests'' ''counter'' @
     metric_line ''game_server_failed_requests'' (u64_str (m_failedRequests m)) @ [LF] @
     metric_head ''game_server_request_latency_seconds'' ''Request processing turnaround latency'' ''histogram'' @
     concat (map (\<lambda>i. metric_line (bucket_name (fixed_str 5 (m_latencyBuckets ! i)))
                        (u64_str (m_latencyBucketCounts m ! i))) [0..<length m_latencyBuckets]) @
     metric_line (bucket_name ''+Inf'') (u64_str (last (m_latencyBucketCounts m))) @
     metric_line ''game_server_request_latency_seconds_sum'' (fixed_str 6 (m_latencySumSeconds m)) @
     metric_line ''game_server_request_latency_seconds_count'' (u64_str (m_latencyCount m)) @ [LF] @
     metric_head ''game_server_redis_cache_hits_total'' ''Cache hit count'' ''counter'' @
     metric_line ''game_server_redis_cache_hits_total'' (u64_str (m_redisCacheHits m)) @ [LF] @
     metric_head ''game_server_redis_cache_misses_total'' ''Cache miss count'' ''counter'' @
     metric_line ''game_server_redis_cache_misses_total'' (u64_str (m_redisCacheMisses m)) @ [LF] @
     metric_head ''game_server_database_operations_total'' ''Total database queries executed'' ''counter'' @
     metric_line ''game_server_database_operations_total'' (u64_str (m_dbOperationsTotal m)) @ [LF]"

section \<open>handleHttpClient\<close>

definition http_response :: "string \<Rightarrow> string \<Rightarrow> string \<Rightarrow> string" where
  "http_response status kind body =
     ''HTTP/1.1 '' @ status @ [CR, LF] @
     ''Content-Type: '' @ kind @ [CR, LF] @
     ''Content-Length: '' @ nat_str (length body) @ [CR, LF] @
     ''Connection: close'' @ [CR, LF, CR, LF] @
     body"

definition health_body :: string where
  "health_body = [CHR 0x7B, CHR 0x22] @ ''status'' @ [CHR 0x22] @ '':'' @ [CHR 0x22] @ ''UP'' @ [CHR 0x22, CHR 0x7D, LF]"

definition not_found_body :: string where
  "not_found_body = ''Not Found. Use /metrics or /health'' @ [LF]"

definition http_answer :: "metrics \<Rightarrow> string \<Rightarrow> string" where
  "http_answer m req =
     (if sublist ''GET /metrics'' req
      then http_response ''200 OK'' ''text/plain; version=0.0.4; charset=utf-8'' (toPrometheusText m)
      else if sublist ''GET /health'' req then http_response ''200 OK'' ''application/json'' health_body
      else http_response ''404 Not Found'' ''text/plain'' not_found_body)"

text \<open>One \<open>recv\<close> and one \<open>send\<close>; the result is what reaches the client before the close.\<close>

definition handleHttpClient :: "metrics \<Rightarrow> rx list \<Rightarrow> tx list \<Rightarrow> bytes" where
  "handleHttpClient m q t = (case recv 2047 q of
       (None, _) \<Rightarrow> []
     | (Some bs, _) \<Rightarrow>
         let response = bytes_of (http_answer m (string_of bs))
         in (case send response t of (None, _) \<Rightarrow> [] | (Some k, _) \<Rightarrow> take k response))"

section \<open>The client: an HTTP response\<close>

text \<open>The text up to the next CR LF, and what follows.\<close>

fun header_line :: "string \<Rightarrow> (string \<times> string) option" where
  "header_line (c # d # s) =
     (if c = CR \<and> d = LF then Some ([], s) else map_option (apfst (Cons c)) (header_line (d # s)))"
| "header_line _ = None"

lemma header_line_shorter: "header_line s = Some (l, r) \<Longrightarrow> length r < length s"
  by (induction s arbitrary: l r rule: header_line.induct) (auto split: if_splits)

function header_lines :: "string \<Rightarrow> (string list \<times> string) option" where
  "header_lines s = (case header_line s of
       None \<Rightarrow> None
     | Some (l, r) \<Rightarrow> if l = [] then Some ([], r) else map_option (apfst (Cons l)) (header_lines r))"
  by pat_completeness auto
termination
  by (relation "measure length") (auto dest: header_line_shorter)

declare header_lines.simps [simp del]

definition header_value :: "string \<Rightarrow> string list \<Rightarrow> string option" where
  "header_value name ls = map_option (drop (length name)) (List.find (prefix name) ls)"

text \<open>Status and body: as many characters as \<open>Content-Length\<close> says.\<close>

definition http_read :: "string \<Rightarrow> (string \<times> string) option" where
  "http_read s = (case header_lines s of
       Some (status # headers, rest) \<Rightarrow>
         (case header_value ''Content-Length: '' headers of
            Some n \<Rightarrow> if digits_val n \<le> length rest
                      then Some (drop (length ''HTTP/1.1 '') status, take (digits_val n) rest) else None
          | None \<Rightarrow> None)
     | _ \<Rightarrow> None)"

lemma header_line_append: "CR \<notin> set l \<Longrightarrow> header_line (l @ CR # LF # s) = Some (l, s)"
proof (induction l)
  case (Cons c l)
  then show ?case by (cases l) auto
qed simp

lemma header_lines_append:
  "CR \<notin> set l \<Longrightarrow> l \<noteq> [] \<Longrightarrow> header_lines (l @ CR # LF # s) = map_option (apfst (Cons l)) (header_lines s)"
  by (subst header_lines.simps) (simp add: header_line_append)

lemma header_lines_end: "header_lines (CR # LF # s) = Some ([], s)"
  by (subst header_lines.simps) simp

text \<open>Every response is framed: the client gets the body exactly, whatever follows it.\<close>

lemma http_read_response:
  assumes "CR \<notin> set status" and "CR \<notin> set kind"
  shows "http_read (http_response status kind body @ rest) = Some (status, body)"
proof -
  let ?cl = "''Content-Length: '' @ nat_str (length body)"
  have eq: "http_response status kind body @ rest =
      (''HTTP/1.1 '' @ status) @ CR # LF # (''Content-Type: '' @ kind) @ CR # LF # ?cl @ CR # LF #
      ''Connection: close'' @ CR # LF # CR # LF # (body @ rest)"
    by (simp add: http_response_def)
  have clean: "CR \<notin> set (''HTTP/1.1 '' @ status)" "CR \<notin> set (''Content-Type: '' @ kind)" "CR \<notin> set ?cl"
    "CR \<notin> set ''Connection: close''"
    using assms digits_not [OF CR_LF_chars(1), of "length body"] by (simp_all add: CR_def)
  have "header_lines (http_response status kind body @ rest) =
      Some ([''HTTP/1.1 '' @ status, ''Content-Type: '' @ kind, ?cl, ''Connection: close''], body @ rest)"
    unfolding eq
    by (subst header_lines_append header_lines_end, use clean in \<open>simp; fail\<close>, simp)+
       (simp add: header_lines_end)
  then show ?thesis by (simp add: http_read_def header_value_def)
qed

section \<open>The client: the text format\<close>

text \<open>A number with an optional sign and an optional fraction.\<close>

definition sample_value :: "string \<Rightarrow> rat" where
  "sample_value s = (let (neg, t) = split_sign s;
       ip = takeWhile is_digit t;
       fp = (case dropWhile is_digit t of c # u \<Rightarrow> if c = CHR ''.'' then takeWhile is_digit u else [] | [] \<Rightarrow> []);
       v = of_nat (digits_val (ip @ fp)) / 10 ^ length fp
     in if neg then - v else v)"

definition sample_of :: "string \<Rightarrow> (string \<times> rat) option" where
  "sample_of l = (if l = [] \<or> hd l = CHR ''#'' then None
     else Some (takeWhile (\<lambda>c. c \<noteq> CHR '' '') l, sample_value (drop 1 (dropWhile (\<lambda>c. c \<noteq> CHR '' '') l))))"

definition samples :: "string \<Rightarrow> (string \<times> rat) list" where
  "samples s = List.map_filter sample_of (text_lines s)"

lemma samples_line: "LF \<notin> set l \<Longrightarrow>
    samples (l @ LF # s) = (case sample_of l of None \<Rightarrow> samples s | Some x \<Rightarrow> x # samples s)"
  by (simp add: samples_def text_lines_append map_filter_simps split: option.split)

lemma samples_empty [simp]: "samples [] = []" "samples (LF # s) = samples s"
  using samples_line [of "[]" s] by (simp_all add: samples_def sample_of_def map_filter_simps)

lemma samples_head [simp]:
  "LF \<notin> set name \<Longrightarrow> LF \<notin> set help \<Longrightarrow> LF \<notin> set kind \<Longrightarrow> samples (metric_head name help kind @ s) = samples s"
proof -
  assume clean: "LF \<notin> set name" "LF \<notin> set help" "LF \<notin> set kind"
  let ?a = "''# HELP '' @ name @ '' '' @ help" and ?b = "''# TYPE '' @ name @ '' '' @ kind"
  have "metric_head name help kind @ s = ?a @ LF # ?b @ LF # s" by (simp add: metric_head_def)
  moreover have "LF \<notin> set ?a" "LF \<notin> set ?b" using clean by (simp_all add: LF_def)
  moreover have "sample_of ?a = None" "sample_of ?b = None" by (simp_all add: sample_of_def)
  ultimately show ?thesis by (simp only: samples_line option.case not_False_eq_True)
qed

definition series_name :: "string \<Rightarrow> bool" where
  "series_name n \<longleftrightarrow> n \<noteq> [] \<and> hd n \<noteq> CHR ''#'' \<and> LF \<notin> set n \<and> CHR '' '' \<notin> set n"

lemma samples_metric [simp]:
  assumes "series_name n" and "LF \<notin> set v"
  shows "samples (metric_line n v @ s) = (n, sample_value v) # samples s"
proof -
  have "metric_line n v @ s = (n @ '' '' @ v) @ LF # s" by (simp add: metric_line_def)
  moreover have "LF \<notin> set (n @ '' '' @ v)" using assms by (simp add: series_name_def LF_def)
  moreover have "takeWhile (\<lambda>c. c \<noteq> CHR '' '') n = n" "dropWhile (\<lambda>c. c \<noteq> CHR '' '') n = []"
    using assms(1) by (auto simp: series_name_def takeWhile_eq_all_conv)
  then have "sample_of (n @ '' '' @ v) = Some (n, sample_value v)"
    using assms by (cases n)
      (auto simp: sample_of_def series_name_def takeWhile_append dropWhile_append)
  ultimately show ?thesis by (simp only: samples_line option.case not_False_eq_True)
qed

section \<open>The values\<close>

lemma split_sign_nat_str: "split_sign (nat_str n @ s) = (False, nat_str n @ s)"
proof -
  obtain c t where "nat_str n = c # t" by (cases "nat_str n") auto
  moreover have "is_digit c" using calculation nat_str_digits [of n] by simp
  ultimately show ?thesis by (auto simp: split_sign_def is_digit_def)
qed

lemma sample_value_minus: "sample_value (CHR ''-'' # nat_str n @ s) = - sample_value (nat_str n @ s)"
  using split_sign_nat_str [of n s] by (simp add: sample_value_def split_sign_def Let_def)

lemma sample_value_nat [simp]: "sample_value (nat_str n) = of_nat n"
proof -
  have "dropWhile is_digit (nat_str n) = []" using nat_str_digits [of n] by simp
  moreover have "split_sign (nat_str n) = (False, nat_str n)" using split_sign_nat_str [of n "[]"] by simp
  ultimately show ?thesis
    unfolding sample_value_def by (simp only: prod.case Let_def list.case) simp
qed

lemma sample_value_int [simp]: "sample_value (int_str i) = of_int i"
  using sample_value_minus [of _ "[]"] by (simp add: int_str_def)

definition to_fixed :: "nat \<Rightarrow> double \<Rightarrow> rat" where
  "to_fixed p x = (let v = of_int (round_even (\<bar>x\<bar> * 10 ^ p)) / 10 ^ p in if x < 0 then - v else v)"

lemma to_fixed_near: "\<bar>to_fixed p x - x\<bar> \<le> 1 / (2 * 10 ^ p)"
proof -
  let ?y = "\<bar>x\<bar> * 10 ^ p"
  have "\<bar>of_int (round_even ?y) / 10 ^ p - \<bar>x\<bar>\<bar> = \<bar>of_int (round_even ?y) - ?y\<bar> / 10 ^ p"
    by (simp add: field_simps abs_divide flip: abs_mult)
  also have "\<dots> \<le> (1 / 2) / 10 ^ p" using round_even_error [of ?y] by (intro divide_right_mono) (auto simp: abs_minus_commute)
  finally show ?thesis by (auto simp: to_fixed_def abs_if split: if_splits)
qed

lemma zero_pad_digits: "n < 10 ^ p \<Longrightarrow> 0 < p \<Longrightarrow>
    length (zero_pad p (nat_str n)) = p \<and> digits_val (zero_pad p (nat_str n)) = n \<and>
    all_digits (zero_pad p (nat_str n))"
  using length_nat_str [of n p] nat_str_digits [of n]
  by (simp add: zero_pad_def digits_val_append) (simp add: all_digits_def)

lemma sample_value_fixed [simp]: "0 < p \<Longrightarrow> sample_value (fixed_str p x) = to_fixed p x"
proof -
  assume p: "0 < p"
  define n where "n = nat (round_even (\<bar>x\<bar> * 10 ^ p))"
  let ?t = "nat_str (n div 10 ^ p) @ ''.'' @ zero_pad p (nat_str (n mod 10 ^ p))"
  have z: "length (zero_pad p (nat_str (n mod 10 ^ p))) = p"
    "digits_val (zero_pad p (nat_str (n mod 10 ^ p))) = n mod 10 ^ p"
    "all_digits (zero_pad p (nat_str (n mod 10 ^ p)))" using zero_pad_digits [of "n mod 10 ^ p" p] p by auto
  have "takeWhile is_digit (zero_pad p (nat_str (n mod 10 ^ p))) = zero_pad p (nat_str (n mod 10 ^ p))"
    using z(3) by (simp add: all_digits_def)
  moreover have "\<not> is_digit (CHR ''.'')" by (simp add: is_digit_def)
  moreover have "\<forall>c \<in> set (nat_str k). is_digit c" for k by (rule nat_str_digits)
  ultimately have "sample_value ?t = of_nat n / 10 ^ p"
    using split_sign_nat_str [of "n div 10 ^ p"] z(1,2) div_mult_mod_eq [of n "10 ^ p"]
    by (simp add: sample_value_def takeWhile_append dropWhile_append digits_val_append Let_def
          takeWhile_eq_all_conv [THEN iffD2] flip: of_nat_mult of_nat_add of_nat_power)
  moreover have "0 \<le> round_even (\<bar>x\<bar> * 10 ^ p)"
    using round_even_mono [of 0 "\<bar>x\<bar> * 10 ^ p"] round_even_of_int [of 0] by simp
  then have e: "of_int (round_even (\<bar>x\<bar> * 10 ^ p)) = (of_nat n :: rat)" by (simp add: n_def)
  ultimately show ?thesis using sample_value_minus [of "n div 10 ^ p"]
    unfolding fixed_str_def to_fixed_def Let_def e n_def [symmetric] by simp
qed

lemma values_clean [simp]: "LF \<notin> set (u64_str w)" "LF \<notin> set (int_str i)" "LF \<notin> set (fixed_str p x)"
  by (auto simp: u64_str_def int_str_def fixed_str_def zero_pad_def Let_def digits_not)

lemma sample_value_u64 [simp]: "sample_value (u64_str w) = of_nat (unat w)"
  unfolding u64_str_def by (rule sample_value_nat)

section \<open>A scrape\<close>

lemma bucket_labels: "map (fixed_str 5) m_latencyBuckets =
    [''0.00010'', ''0.00025'', ''0.00050'', ''0.00100'', ''0.00250'', ''0.00500'', ''0.01000'',
     ''0.02500'', ''0.05000'', ''0.10000'', ''0.25000'', ''0.50000'', ''1.00000'']"
  by code_simp

lemma fixed_str_clean: "c \<notin> {CHR ''-'', CHR ''.''} \<Longrightarrow> \<not> is_digit c \<Longrightarrow> c \<notin> set (fixed_str p x)"
proof -
  assume c: "c \<notin> {CHR ''-'', CHR ''.''}" "\<not> is_digit c"
  have "is_digit (CHR ''0'')" by (simp add: is_digit_def)
  then have "c \<noteq> CHR ''0''" using c(2) by blast
  then show ?thesis using c by (simp add: fixed_str_def zero_pad_def Let_def digits_not)
qed

lemma series_name_bucket: "series_name (bucket_name (fixed_str p x))" "series_name (bucket_name ''+Inf'')"
proof -
  have "CHR '' '' \<notin> set (fixed_str p x)" by (rule fixed_str_clean) (simp_all add: is_digit_def)
  moreover have "LF \<notin> set (fixed_str p x)" by simp
  ultimately show "series_name (bucket_name (fixed_str p x))" "series_name (bucket_name ''+Inf'')"
    by (simp_all add: series_name_def bucket_name_def LF_def)
qed

lemma samples_buckets:
  "samples (concat (map (\<lambda>i. metric_line (bucket_name (fixed_str 5 (m_latencyBuckets ! i)))
       (u64_str (cs ! i))) is) @ s) =
   map (\<lambda>i. (bucket_name (fixed_str 5 (m_latencyBuckets ! i)), of_nat (unat (cs ! i)))) is @ samples s"
  by (induction "is") (simp_all add: series_name_bucket)

definition all_labels :: "string list" where
  "all_labels = [''0.00010'', ''0.00025'', ''0.00050'', ''0.00100'', ''0.00250'', ''0.00500'', ''0.01000'',
     ''0.02500'', ''0.05000'', ''0.10000'', ''0.25000'', ''0.50000'', ''1.00000'', ''+Inf'']"

text \<open>The samples of a registry whose sum of latencies is read as \<open>latency\<close>.\<close>

definition registry_samples :: "rat \<Rightarrow> metrics \<Rightarrow> (string \<times> rat) list" where
  "registry_samples latency m =
     [(''game_server_active_players'', of_int (sint (m_activePlayers m))),
      (''game_server_requests_total'', of_nat (unat (m_requestsTotal m))),
      (''game_server_successful_requests'', of_nat (unat (m_successfulRequests m))),
      (''game_server_failed_requests'', of_nat (unat (m_failedRequests m)))] @
     map2 (\<lambda>le c. (bucket_name le, of_nat (unat c))) all_labels (m_latencyBucketCounts m) @
     [(''game_server_request_latency_seconds_sum'', latency),
      (''game_server_request_latency_seconds_count'', of_nat (unat (m_latencyCount m))),
      (''game_server_redis_cache_hits_total'', of_nat (unat (m_redisCacheHits m))),
      (''game_server_redis_cache_misses_total'', of_nat (unat (m_redisCacheMisses m))),
      (''game_server_database_operations_total'', of_nat (unat (m_dbOperationsTotal m)))]"

lemma bucket_samples:
  assumes "length cs = 14"
  shows "map (\<lambda>i. (bucket_name (fixed_str 5 (m_latencyBuckets ! i)), of_nat (unat (cs ! i)) :: rat))
       [0..<length m_latencyBuckets] @ [(bucket_name ''+Inf'', of_nat (unat (last cs)))] =
     map2 (\<lambda>le c. (bucket_name le, of_nat (unat c))) all_labels cs"
proof -
  obtain ds c where cs: "cs = ds @ [c]" "length ds = 13" using assms by (cases cs rule: rev_cases) auto
  have "map (\<lambda>i. (bucket_name (fixed_str 5 (m_latencyBuckets ! i)), of_nat (unat (cs ! i)) :: rat))
      [0..<length m_latencyBuckets] =
      map2 (\<lambda>le c. (bucket_name le, of_nat (unat c))) (map (fixed_str 5) m_latencyBuckets) ds"
    by (rule nth_equalityI) (simp_all add: cs nth_append)
  moreover have labels: "all_labels = map (fixed_str 5) m_latencyBuckets @ [''+Inf'']"
    by (simp add: all_labels_def bucket_labels)
  ultimately show ?thesis unfolding labels using cs by simp
qed

lemma series_names [simp]: "series_name ''game_server_active_players''"
  "series_name ''game_server_requests_total''" "series_name ''game_server_successful_requests''"
  "series_name ''game_server_failed_requests''" "series_name ''game_server_request_latency_seconds_sum''"
  "series_name ''game_server_request_latency_seconds_count''" "series_name ''game_server_redis_cache_hits_total''"
  "series_name ''game_server_redis_cache_misses_total''" "series_name ''game_server_database_operations_total''"
  by (simp_all add: series_name_def LF_def)

lemma samples_prometheus:
  assumes "length (m_latencyBucketCounts m) = 14"
  shows "samples (toPrometheusText m) = registry_samples (to_fixed 6 (m_latencySumSeconds m)) m"
  unfolding toPrometheusText_def registry_samples_def bucket_samples [OF assms, symmetric]
  by (simp add: samples_buckets series_name_bucket)

text \<open>C31. A scrape reports the registry. A client that sends its request in one piece, with
  \<open>GET /metrics\<close> in it, gets a response that it can read as HTTP: the body is framed by
  \<open>Content-Length\<close>, and its samples, one for each counter and each bucket, are the values of
  the registry, the sum of the latencies to the nearest microsecond.\<close>

theorem scrape_reports_registry:
  assumes "req \<noteq> []" and "length req \<le> 2047" and "sublist ''GET /metrics'' (string_of req)"
    and "length (m_latencyBucketCounts m) = 14"
  shows "\<exists>body latency. http_read (string_of (handleHttpClient m (RxData req # q) [])) = Some (''200 OK'', body) \<and>
     samples body = registry_samples latency m \<and> \<bar>latency - m_latencySumSeconds m\<bar> \<le> 1 / 2000000"
proof (intro exI conjI)
  let ?body = "toPrometheusText m"
  have "handleHttpClient m (RxData req # q) [] =
      bytes_of (http_response ''200 OK'' ''text/plain; version=0.0.4; charset=utf-8'' ?body)"
    using assms(1-3) by (simp add: handleHttpClient_def http_answer_def Let_def)
  then show "http_read (string_of (handleHttpClient m (RxData req # q) [])) = Some (''200 OK'', ?body)"
    using http_read_response [of "''200 OK''" "''text/plain; version=0.0.4; charset=utf-8''" ?body "[]"]
    by (simp add: CR_def)
  show "samples ?body = registry_samples (to_fixed 6 (m_latencySumSeconds m)) m"
    by (rule samples_prometheus) (rule assms(4))
  show "\<bar>to_fixed 6 (m_latencySumSeconds m) - m_latencySumSeconds m\<bar> \<le> 1 / 2000000"
    using to_fixed_near [of 6 "m_latencySumSeconds m"] by simp
qed

theorem scrape_reports_registry_witness:
  "\<exists>body. http_read (string_of (handleHttpClient (incrementRequestsTotal metrics_reset)
       [RxData (bytes_of (''GET /metrics HTTP/1.1'' @ [CR, LF, CR, LF]))] [])) = Some (''200 OK'', body) \<and>
     (''game_server_requests_total'', 1) \<in> set (samples body)"
proof -
  let ?m = "incrementRequestsTotal metrics_reset"
  let ?req = "''GET /metrics HTTP/1.1'' @ [CR, LF, CR, LF]"
  have m: "length (m_latencyBucketCounts ?m) = 14" "m_requestsTotal ?m = 1"
    by (simp_all add: incrementRequestsTotal_def metrics_reset_def)
  have "sublist ''GET /metrics'' ?req" by (simp add: sublist_code CR_def LF_def)
  then have "sublist ''GET /metrics'' (string_of (bytes_of ?req))" by simp
  then obtain body latency where
    "http_read (string_of (handleHttpClient ?m [RxData (bytes_of ?req)] [])) = Some (''200 OK'', body)"
    "samples body = registry_samples latency ?m"
    using scrape_reports_registry [of "bytes_of ?req" ?m "[]"] m(1) by auto
  moreover have "(''game_server_requests_total'', 1) \<in> set (registry_samples latency ?m)"
    by (simp add: registry_samples_def m(2))
  ultimately show ?thesis by auto
qed

text \<open>
  The endpoint looks at the first piece of the request only, and for the path anywhere in it: a
  request whose first line arrives in two pieces is answered with 404, and one for another
  path whose text holds \<open>GET /metrics\<close> with the metrics.
\<close>

lemma split_request_not_found:
  "handleHttpClient m (RxData (bytes_of ''GET /met'') # q) [] =
     bytes_of (http_response ''404 Not Found'' ''text/plain'' not_found_body)"
  by (simp add: handleHttpClient_def http_answer_def sublist_code Let_def)

lemma path_not_checked:
  "http_answer m ''POST /?q=GET /metrics HTTP/1.1'' =
     http_response ''200 OK'' ''text/plain; version=0.0.4; charset=utf-8'' (toPrometheusText m)"
  by (simp add: http_answer_def sublist_code)

end
