(* ===== verification/Arguments.thy ===== *)
theory Arguments
  imports Bot
begin

text \<open>
  The command lines of the two programs: \<open>main.cpp\<close> of the server and of the simulator. An
  option takes the next argument as its value; an option without one, like an unknown option,
  ends the program with status 1.
\<close>

section \<open>std::atoi\<close>

text \<open>White space, a sign, digits; a value outside of \<open>int\<close> is undefined behaviour.\<close>

definition atoi :: "string \<Rightarrow> int option" where
  "atoi s = (let (neg, t) = split_sign (dropWhile is_space s);
                 n = int (digits_val (takeWhile is_digit t));
                 v = (if neg then - n else n)
             in if in_i32 v then Some v else None)"

lemma split_sign_digit: "is_digit c \<Longrightarrow> split_sign (c # s) = (False, c # s)"
  by (auto simp: split_sign_def is_digit_def)

lemma atoi_nat_str: "in_i32 (int n) \<Longrightarrow> atoi (nat_str n) = Some (int n)"
proof -
  assume n: "in_i32 (int n)"
  obtain c s where c: "nat_str n = c # s" by (cases "nat_str n") auto
  have dig: "is_digit c" "\<forall>c \<in> set (nat_str n). is_digit c" using nat_str_digits [of n] c by auto
  then have "\<not> is_space c" by (auto simp: is_space_def is_digit_def)
  then have "split_sign (dropWhile is_space (nat_str n)) = (False, nat_str n)"
    using dig by (simp add: c split_sign_digit)
  then show ?thesis using n by (simp add: atoi_def)
qed

lemma atoi_int_str: "in_i32 i \<Longrightarrow> atoi (int_str i) = Some i"
proof (cases "i < 0")
  case True
  assume i: "in_i32 i"
  have "\<not> is_space (CHR ''-'')" by (simp add: is_space_def)
  then show ?thesis using i True
    by (simp add: atoi_def int_str_def split_sign_def)
next
  case False
  assume "in_i32 i"
  then show ?thesis using False atoi_nat_str [of "nat i"] by (simp add: int_str_def)
qed

section \<open>The server\<close>

record server_config =
  sc_host :: string
  sc_port :: "16 word"
  sc_metricsPort :: "16 word"
  sc_backlog :: int
  sc_maxClients :: int
  sc_threadPoolSize :: int
  sc_enableRedis :: bool
  sc_redisHost :: string
  sc_redisPort :: int
  sc_dbHost :: string
  sc_dbPort :: int
  sc_dbUser :: string
  sc_dbPass :: string
  sc_dbName :: string

definition default_server_config :: server_config where
  "default_server_config = \<lparr>sc_host = ''0.0.0.0'', sc_port = 7777, sc_metricsPort = 9100,
     sc_backlog = 128, sc_maxClients = 4096, sc_threadPoolSize = 0, sc_enableRedis = False,
     sc_redisHost = ''127.0.0.1'', sc_redisPort = 6379, sc_dbHost = ''127.0.0.1'', sc_dbPort = 3306,
     sc_dbUser = ''game_user'', sc_dbPass = ''game_pass'', sc_dbName = ''game_server''\<rparr>"

datatype 'c command_line =
    ShowUsage
  | UnknownArgument string
  | Start 'c

text \<open>An option whose value is a number.\<close>

definition with_int :: "string \<Rightarrow> (int \<Rightarrow> 'r option) \<Rightarrow> 'r option" where
  "with_int text k = (case atoi text of None \<Rightarrow> None | Some n \<Rightarrow> k n)"

lemma with_int_cong [fundef_cong]:
  "s = t \<Longrightarrow> (\<And>n. atoi t = Some n \<Longrightarrow> k n = k' n) \<Longrightarrow> with_int s k = with_int t k'"
  by (simp add: with_int_def split: option.split)

text \<open>The flag is the debug level of the logger; \<open>v\<close> is the next argument, \<open>vs\<close> those after it.\<close>

function server_args :: "bool \<Rightarrow> server_config \<Rightarrow> string list \<Rightarrow> (bool \<times> server_config) command_line option" where
  "server_args dbg c [] = Some (Start (dbg, c))"
| "server_args dbg c (arg # rest) =
     (let v = hd rest; vs = tl rest in
      if arg = ''--help'' \<or> arg = ''-h'' then Some ShowUsage
      else if arg = ''--debug'' then server_args True c rest
      else if arg = ''--port'' \<and> rest \<noteq> [] then
        with_int v (\<lambda>n. server_args dbg (c\<lparr>sc_port := of_int n\<rparr>) vs)
      else if arg = ''--host'' \<and> rest \<noteq> [] then server_args dbg (c\<lparr>sc_host := v\<rparr>) vs
      else if arg = ''--threads'' \<and> rest \<noteq> [] then
        with_int v (\<lambda>n. server_args dbg (c\<lparr>sc_threadPoolSize := n\<rparr>) vs)
      else if arg = ''--enable-redis'' then server_args dbg (c\<lparr>sc_enableRedis := True\<rparr>) rest
      else if arg = ''--redis-host'' \<and> rest \<noteq> [] then server_args dbg (c\<lparr>sc_redisHost := v\<rparr>) vs
      else if arg = ''--redis-port'' \<and> rest \<noteq> [] then
        with_int v (\<lambda>n. server_args dbg (c\<lparr>sc_redisPort := n\<rparr>) vs)
      else if arg = ''--db-host'' \<and> rest \<noteq> [] then server_args dbg (c\<lparr>sc_dbHost := v\<rparr>) vs
      else if arg = ''--db-port'' \<and> rest \<noteq> [] then
        with_int v (\<lambda>n. server_args dbg (c\<lparr>sc_dbPort := n\<rparr>) vs)
      else if arg = ''--db-user'' \<and> rest \<noteq> [] then server_args dbg (c\<lparr>sc_dbUser := v\<rparr>) vs
      else if arg = ''--db-pass'' \<and> rest \<noteq> [] then server_args dbg (c\<lparr>sc_dbPass := v\<rparr>) vs
      else if arg = ''--db-name'' \<and> rest \<noteq> [] then server_args dbg (c\<lparr>sc_dbName := v\<rparr>) vs
      else if arg = ''--metrics-port'' \<and> rest \<noteq> [] then
        with_int v (\<lambda>n. server_args dbg (c\<lparr>sc_metricsPort := of_int n\<rparr>) vs)
      else Some (UnknownArgument arg))"
  by pat_completeness auto
termination
  by (relation "measure (\<lambda>(dbg, c, args). length args)") auto

declare server_args.simps(2) [simp del]

definition server_command_line :: "string list \<Rightarrow> (bool \<times> server_config) command_line option" where
  "server_command_line args = server_args False default_server_config args"

text \<open>The exit status when the server is not started, or when it has run.\<close>

definition exit_status :: "'c command_line \<Rightarrow> int" where
  "exit_status r = (case r of ShowUsage \<Rightarrow> 0 | UnknownArgument _ \<Rightarrow> 1 | Start _ \<Rightarrow> 0)"

section \<open>The simulator\<close>

function simulator_args ::
    "simulator_config \<Rightarrow> string \<Rightarrow> string list \<Rightarrow> (simulator_config \<times> string) command_line option" where
  "simulator_args c out [] = Some (Start (c, out))"
| "simulator_args c out (arg # rest) =
     (let v = hd rest; vs = tl rest in
      if arg = ''--help'' \<or> arg = ''-h'' then Some ShowUsage
      else if arg = ''--host'' \<and> rest \<noteq> [] then simulator_args (c\<lparr>cf_host := v\<rparr>) out vs
      else if arg = ''--port'' \<and> rest \<noteq> [] then
        with_int v (\<lambda>n. simulator_args (c\<lparr>cf_port := of_int n\<rparr>) out vs)
      else if arg = ''--players'' \<and> rest \<noteq> [] then
        with_int v (\<lambda>n. simulator_args (c\<lparr>cf_playerCount := n\<rparr>) out vs)
      else if arg = ''--duration'' \<and> rest \<noteq> [] then
        with_int v (\<lambda>n. simulator_args (c\<lparr>cf_durationSeconds := n\<rparr>) out vs)
      else if arg = ''--interval'' \<and> rest \<noteq> [] then
        with_int v (\<lambda>n. simulator_args (c\<lparr>cf_actionIntervalMs := n\<rparr>) out vs)
      else if arg = ''--base-id'' \<and> rest \<noteq> [] then
        with_int v (\<lambda>n. simulator_args (c\<lparr>cf_basePlayerId := n\<rparr>) out vs)
      else if arg = ''--seed'' \<and> rest \<noteq> [] then
        with_int v (\<lambda>n. simulator_args (c\<lparr>cf_seed := n\<rparr>) out vs)
      else if arg = ''--json-out'' \<and> rest \<noteq> [] then simulator_args c v vs
      else Some (UnknownArgument arg))"
  by pat_completeness auto
termination
  by (relation "measure (\<lambda>(c, out, args). length args)") auto

declare simulator_args.simps(2) [simp del]

definition simulator_command_line :: "string list \<Rightarrow> (simulator_config \<times> string) command_line option" where
  "simulator_command_line args = simulator_args default_config [] args"

text \<open>The report that \<open>--json-out\<close> writes, and the exit status after a run.\<close>

definition report_json :: "simulator_config \<Rightarrow> performance_summary \<Rightarrow> json" where
  "report_json c s = json_init [
     kv ''total_requests'' (JUInt (unat (ps_totalRequests s))),
     kv ''successful_requests'' (JUInt (unat (ps_successfulRequests s))),
     kv ''failed_requests'' (JUInt (unat (ps_failedRequests s))),
     kv ''duration_seconds'' (JFloat (ps_durationSeconds s)),
     kv ''requests_per_second'' (JFloat (ps_requestsPerSec s)),
     kv ''avg_latency_ms'' (JFloat (ps_avgLatencyMs s)),
     kv ''p50_latency_ms'' (JFloat (ps_p50LatencyMs s)),
     kv ''p95_latency_ms'' (JFloat (ps_p95LatencyMs s)),
     kv ''p99_latency_ms'' (JFloat (ps_p99LatencyMs s)),
     kv ''max_latency_ms'' (JFloat (ps_maxLatencyMs s)),
     kv ''error_rate_percent'' (JFloat (ps_errorRatePercent s)),
     kv ''player_count'' (JInt (cf_playerCount c))]"

definition run_status :: "performance_summary \<Rightarrow> int" where
  "run_status s = (if 0 < ps_totalRequests s then 0 else 1)"

section \<open>Options for a configuration\<close>

definition server_options :: "bool \<Rightarrow> server_config \<Rightarrow> string list" where
  "server_options dbg c = (if dbg then [''--debug''] else []) @
     [''--port'', nat_str (unat (sc_port c)), ''--host'', sc_host c,
      ''--threads'', int_str (sc_threadPoolSize c)] @
     (if sc_enableRedis c then [''--enable-redis''] else []) @
     [''--redis-host'', sc_redisHost c, ''--redis-port'', int_str (sc_redisPort c),
      ''--db-host'', sc_dbHost c, ''--db-port'', int_str (sc_dbPort c), ''--db-user'', sc_dbUser c,
      ''--db-pass'', sc_dbPass c, ''--db-name'', sc_dbName c,
      ''--metrics-port'', nat_str (unat (sc_metricsPort c))]"

definition simulator_options :: "simulator_config \<Rightarrow> string \<Rightarrow> string list" where
  "simulator_options c out =
     [''--host'', cf_host c, ''--port'', nat_str (unat (cf_port c)), ''--players'', int_str (cf_playerCount c),
      ''--duration'', int_str (cf_durationSeconds c), ''--interval'', int_str (cf_actionIntervalMs c),
      ''--base-id'', int_str (cf_basePlayerId c), ''--seed'', int_str (cf_seed c), ''--json-out'', out]"

definition server_config_ok :: "server_config \<Rightarrow> bool" where
  "server_config_ok c \<longleftrightarrow> in_i32 (sc_threadPoolSize c) \<and> in_i32 (sc_redisPort c) \<and> in_i32 (sc_dbPort c) \<and>
     sc_backlog c = sc_backlog default_server_config \<and> sc_maxClients c = sc_maxClients default_server_config"

definition simulator_config_ok :: "simulator_config \<Rightarrow> bool" where
  "simulator_config_ok c \<longleftrightarrow> in_i32 (cf_playerCount c) \<and> in_i32 (cf_durationSeconds c) \<and>
     in_i32 (cf_actionIntervalMs c) \<and> in_i32 (cf_basePlayerId c) \<and> in_i32 (cf_seed c) \<and> \<not> cf_debug c"

lemma with_int_port: "with_int (nat_str (unat (w :: 16 word))) k = k (int (unat w))"
proof -
  have "unat w < 65536" using unsigned_less [of w, where 'a = nat] by simp
  then have "in_i32 (int (unat w))" by (simp add: in_i32_def del: int_nat_eq of_nat_unat)
  then show ?thesis by (simp add: with_int_def atoi_nat_str del: of_nat_unat)
qed

lemma with_int_str: "in_i32 i \<Longrightarrow> with_int (int_str i) k = k i"
  by (simp add: with_int_def atoi_int_str)

lemma port_of_nat: "(of_nat (unat w) :: 16 word) = w"
  by simp

text \<open>C35. Every configuration that the options can express can be set from the command line: the
  options written for it are parsed to it, by both programs. These are the configurations whose
  integers fit an int and whose fields without an option have their default values: the backlog and
  the client limit of the server, and the debug flag of the simulator. (The debug flag of the server
  has an option.)\<close>

theorem command_lines_roundtrip:
  assumes "server_config_ok c" and "simulator_config_ok d"
  shows "server_command_line (server_options dbg c) = Some (Start (dbg, c)) \<and>
     simulator_command_line (simulator_options d out) = Some (Start (d, out))"
proof
  show "server_command_line (server_options dbg c) = Some (Start (dbg, c))"
    using assms(1)
    by (cases c) (simp add: server_command_line_def server_options_def server_config_ok_def
      default_server_config_def server_args.simps(2) with_int_port with_int_str port_of_nat del: of_nat_unat)
  show "simulator_command_line (simulator_options d out) = Some (Start (d, out))"
    using assms(2)
    by (cases d) (simp add: simulator_command_line_def simulator_options_def simulator_config_ok_def
      default_config_def simulator_args.simps(2) with_int_port with_int_str port_of_nat del: of_nat_unat)
qed

definition lab_server :: server_config where
  "lab_server = default_server_config\<lparr>sc_port := 9000, sc_threadPoolSize := 4, sc_redisPort := 6380\<rparr>"

definition lab_simulator :: simulator_config where
  "lab_simulator = default_config\<lparr>cf_host := ''10.0.0.7'', cf_playerCount := 200, cf_seed := - 3\<rparr>"

theorem command_lines_roundtrip_witness:
  "server_command_line (server_options True lab_server) = Some (Start (True, lab_server)) \<and>
   simulator_command_line (simulator_options lab_simulator ''out.json'') = Some (Start (lab_simulator, ''out.json''))"
proof -
  have "server_config_ok lab_server"
    by (simp add: lab_server_def server_config_ok_def default_server_config_def in_i32_def)
  moreover have "simulator_config_ok lab_simulator"
    by (simp add: lab_simulator_def simulator_config_ok_def default_config_def in_i32_def)
  ultimately show ?thesis by (rule command_lines_roundtrip)
qed

text \<open>An unknown option is fatal: the server is not started.\<close>

lemma unknown_argument: "arg \<notin> {''--help'', ''-h'', ''--debug'', ''--port'', ''--host'', ''--threads'',
    ''--enable-redis'', ''--redis-host'', ''--redis-port'', ''--db-host'', ''--db-port'', ''--db-user'',
    ''--db-pass'', ''--db-name'', ''--metrics-port''} \<Longrightarrow>
  server_args dbg c (arg # rest) = Some (UnknownArgument arg)"
  by (simp add: server_args.simps(2))

text \<open>A port beyond 16 bits is not refused but wraps.\<close>

lemma port_wraps: "server_command_line [''--port'', ''65616''] =
    Some (Start (False, default_server_config\<lparr>sc_port := 80\<rparr>))"
proof -
  have "atoi ''65616'' = Some 65616" by code_simp
  then show ?thesis by (simp add: server_command_line_def server_args.simps(2) with_int_def)
qed

end
