(* ===== verification/Listen.thy ===== *)
theory Listen
  imports Arguments ThreadPool
begin

text \<open>
  \<open>Server::run\<close> and \<open>Server::stop\<close> of \<open>Server.cpp\<close>, with the thread of
  \<open>HttpMetricsServer.cpp\<close> and the pool of \<open>ThreadPool\<close>: a step relation in which the main
  thread, the workers, the thread of the metrics endpoint and one call of \<open>stop\<close> (from a signal
  handler or another thread) interleave. The answers of the operating system are parameters
  of the steps. \<open>rs_clients\<close> records the clients that \<open>accept\<close> has returned; no step reads it.
\<close>

section \<open>Listening sockets\<close>

type_synonym in_addr = "nat list"

definition INADDR_ANY :: in_addr where "INADDR_ANY = [0, 0, 0, 0]"

text \<open>\<open>inet_pton\<close> for IPv4: four numbers below 256 without leading zeros.\<close>

fun split_dots :: "string \<Rightarrow> string list" where
  "split_dots [] = [[]]"
| "split_dots (c # s) = (if c = CHR ''.'' then [] # split_dots s
     else case split_dots s of [] \<Rightarrow> [[c]] | p # ps \<Rightarrow> (c # p) # ps)"

definition octet :: "string \<Rightarrow> nat option" where
  "octet s = (if s \<noteq> [] \<and> list_all is_digit s \<and> (length s = 1 \<or> hd s \<noteq> CHR ''0'') \<and> digits_val s \<le> 255
     then Some (digits_val s) else None)"

definition inet_pton :: "string \<Rightarrow> in_addr option" where
  "inet_pton s = (let ps = split_dots s in if length ps = 4 then those (map octet ps) else None)"

text \<open>\<open>inet_ntop\<close>, and the text under which \<open>run\<close> passes a client on.\<close>

definition inet_ntop :: "in_addr \<Rightarrow> string" where
  "inet_ntop a = (case map nat_str a of [] \<Rightarrow> [] | p # ps \<Rightarrow> p @ concat (map (\<lambda>q. ''.'' @ q) ps))"

definition accepted_task :: "int \<Rightarrow> in_addr \<Rightarrow> 16 word \<Rightarrow> task" where
  "accepted_task fd addr port =
     \<lparr>tk_fd = fd, tk_addr = inet_ntop addr @ '':'' @ nat_str (unat port)\<rparr>"

lemma nat_str_hd: "0 < n \<Longrightarrow> hd (nat_str n) \<noteq> CHR ''0''"
proof (induction n rule: nat_str.induct)
  case (1 n)
  then show ?case by (subst nat_str.simps) (auto simp: digit_char_zero)
qed

lemma octet_nat_str: "n < 256 \<Longrightarrow> octet (nat_str n) = Some n"
proof -
  assume "n < 256"
  moreover have "length (nat_str n) = 1 \<or> hd (nat_str n) \<noteq> CHR ''0''"
    using nat_str_hd [of n] by (cases "n = 0") (simp_all add: nat_str.simps)
  moreover have "list_all is_digit (nat_str n)" using nat_str_digits by (simp add: list_all_iff)
  ultimately show ?thesis by (simp add: octet_def)
qed

lemma split_dots_append: "CHR ''.'' \<notin> set p \<Longrightarrow> split_dots (p @ CHR ''.'' # s) = p # split_dots s"
  and split_dots_last: "CHR ''.'' \<notin> set p \<Longrightarrow> split_dots p = [p]"
  by (induction p) auto

lemma inet_pton_ntop:
  assumes "length a = 4" and "\<forall>n \<in> set a. n < 256"
  shows "inet_pton (inet_ntop a) = Some a"
proof -
  obtain k l m n where a: "a = [k, l, m, n]"
    using assms(1) by (auto simp: numeral_eq_Suc length_Suc_conv)
  have "CHR ''.'' \<notin> set (nat_str i)" for i by (rule digits_not) (simp add: is_digit_def)
  then have "split_dots (inet_ntop a) = map nat_str a"
    by (simp add: inet_ntop_def a split_dots_append split_dots_last)
  then show ?thesis using assms(2) by (simp add: inet_pton_def a octet_nat_str)
qed

text \<open>What \<open>socket\<close>, \<open>bind\<close> and \<open>listen\<close> answer.\<close>

record net =
  net_socket :: int
  net_bind :: "in_addr \<Rightarrow> 16 word \<Rightarrow> bool"
  net_listen :: "int \<Rightarrow> bool"

record listener =
  ln_fd :: int
  ln_addr :: in_addr
  ln_port :: "16 word"
  ln_backlog :: int

text \<open>\<open>None\<close> when the function returns false; the descriptor is negative then.\<close>

definition setupListenSocket :: "net \<Rightarrow> server_config \<Rightarrow> listener option" where
  "setupListenSocket n c =
     (let fd = net_socket n; addr = INADDR_ANY
      in if fd < 0 then None
         else if \<not> net_bind n addr (sc_port c) then None
         else if \<not> net_listen n (sc_backlog c) then None
         else Some \<lparr>ln_fd = fd, ln_addr = addr, ln_port = sc_port c, ln_backlog = sc_backlog c\<rparr>)"

section \<open>HttpMetricsServer\<close>

text \<open>Where the thread is: at the loop test, in \<open>accept\<close>, in \<open>handleHttpClient\<close>, returned.\<close>

datatype http_thread = Http_None | Http_Test | Http_Accept | Http_Client | Http_Done

record http_server =
  hs_host :: string
  hs_port :: "16 word"
  hs_socket :: "listener option"
  hs_running :: bool
  hs_thread :: http_thread

definition new_http :: "16 word \<Rightarrow> http_server" where
  "new_http port = \<lparr>hs_host = ''0.0.0.0'', hs_port = port, hs_socket = None, hs_running = False,
     hs_thread = Http_None\<rparr>"

definition http_start :: "net \<Rightarrow> http_server \<Rightarrow> bool \<times> http_server" where
  "http_start n h =
     (let fd = net_socket n;
          addr = (case inet_pton (hs_host h) of None \<Rightarrow> INADDR_ANY | Some a \<Rightarrow> a)
      in if fd < 0 then (False, h)
         else if \<not> net_bind n addr (hs_port h) then (False, h)
         else if \<not> net_listen n 64 then (False, h)
         else (True, h\<lparr>hs_socket := Some \<lparr>ln_fd = fd, ln_addr = addr, ln_port = hs_port h, ln_backlog = 64\<rparr>,
                       hs_running := True, hs_thread := Http_Test\<rparr>))"

text \<open>\<open>HttpMetricsServer::stop\<close>: the flag, the socket, and when the \<open>join\<close> returns.\<close>

definition http_stop_flag :: "http_server \<Rightarrow> http_server" where
  "http_stop_flag h = h\<lparr>hs_running := False\<rparr>"

definition http_close :: "http_server \<Rightarrow> http_server" where
  "http_close h = h\<lparr>hs_socket := None\<rparr>"

definition http_joined :: "http_server \<Rightarrow> bool" where
  "http_joined h \<longleftrightarrow> hs_thread h = Http_Done"

datatype http_label = HttpLoop | HttpConnect | HttpFail | HttpServed

text \<open>\<open>listenLoop\<close>: a client is served, and the next one accepted, when the handler has returned.\<close>

inductive http_step :: "http_server \<Rightarrow> http_label \<Rightarrow> http_server \<Rightarrow> bool" where
  http_loop: "hs_thread h = Http_Test \<Longrightarrow>
    http_step h HttpLoop (h\<lparr>hs_thread := (if hs_running h then Http_Accept else Http_Done)\<rparr>)"
| http_connect: "hs_thread h = Http_Accept \<Longrightarrow> hs_socket h \<noteq> None \<Longrightarrow>
    http_step h HttpConnect (h\<lparr>hs_thread := Http_Client\<rparr>)"
| http_fail: "hs_thread h = Http_Accept \<Longrightarrow>
    http_step h HttpFail (h\<lparr>hs_thread := (if hs_running h then Http_Test else Http_Done)\<rparr>)"
| http_served: "hs_thread h = Http_Client \<Longrightarrow> http_step h HttpServed (h\<lparr>hs_thread := Http_Test\<rparr>)"

inductive_cases http_stepE: "http_step h l h'"

section \<open>The server\<close>

text \<open>Where \<open>run\<close> is, and where the call of \<open>stop\<close> is.\<close>

datatype run_pc = R_Setup | R_Http | R_HttpStart | R_Pool | R_Store | R_Test | R_Accept
  | R_Submit task | R_Notify | R_StopPool | R_NotifyAll | R_Join | R_Done

datatype stop_pc = S_None | S_Http | S_Close | S_Join | S_Shutdown | S_Done

record run_state =
  rs_config :: server_config
  rs_pc :: run_pc
  rs_listener :: "listener option"
  rs_open :: bool \<comment> \<open>the listening socket has not been shut down\<close>
  rs_running :: bool
  rs_http :: "http_server option"
  rs_pool :: "thread_pool option"
  rs_clients :: "task list"
  rs_stop :: stop_pc

definition start_run :: "server_config \<Rightarrow> run_state" where
  "start_run c = \<lparr>rs_config = c, rs_pc = R_Setup, rs_listener = None, rs_open = False, rs_running = False,
     rs_http = None, rs_pool = None, rs_clients = [], rs_stop = S_None\<rparr>"

definition thread_count :: "server_config \<Rightarrow> int \<Rightarrow> int" where
  "thread_count c hardware =
     (let numThreads = sc_threadPoolSize c
      in if numThreads \<le> 0
         then (let n = (if hardware \<le> 0 then 4 else hardware) in if 32 < n then 32 else n)
         else numThreads)"

definition setup_step :: "net \<Rightarrow> run_state \<Rightarrow> run_state" where
  "setup_step n s = (case setupListenSocket n (rs_config s) of
       None \<Rightarrow> s\<lparr>rs_pc := R_Done\<rparr>
     | Some l \<Rightarrow> s\<lparr>rs_listener := Some l, rs_open := True, rs_pc := R_Http\<rparr>)"

definition stop_http_step :: "run_state \<Rightarrow> run_state" where
  "stop_http_step s = (case rs_http s of
       None \<Rightarrow> s\<lparr>rs_stop := S_Shutdown\<rparr>
     | Some h \<Rightarrow> if hs_running h then s\<lparr>rs_http := Some (http_stop_flag h), rs_stop := S_Close\<rparr>
                 else s\<lparr>rs_stop := S_Shutdown\<rparr>)"

datatype run_label =
    Setup net | MakeHttp | StartHttp net | MakePool int | StoreRunning | LoopTest | Accept int in_addr "16 word"
  | AcceptFail | SubmitClient | Notify pool_label | StopPool | WakePool | Return
  | Worker pool_label | Http http_label | StopCalled | StopHttp | CloseHttp | HttpJoined | Shutdown

inductive run_step :: "run_state \<Rightarrow> run_label \<Rightarrow> run_state \<Rightarrow> bool" where
  set_up: "rs_pc s = R_Setup \<Longrightarrow> run_step s (Setup n) (setup_step n s)"
| make_http: "rs_pc s = R_Http \<Longrightarrow>
    run_step s MakeHttp (s\<lparr>rs_http := Some (new_http (sc_metricsPort (rs_config s))), rs_pc := R_HttpStart\<rparr>)"
| start_http: "rs_pc s = R_HttpStart \<Longrightarrow> rs_http s = Some h \<Longrightarrow>
    run_step s (StartHttp n) (s\<lparr>rs_http := Some (snd (http_start n h)), rs_pc := R_Pool\<rparr>)"
| make_pool: "rs_pc s = R_Pool \<Longrightarrow>
    run_step s (MakePool hw) (s\<lparr>rs_pool := Some (start_pool (thread_count (rs_config s) hw)), rs_pc := R_Store\<rparr>)"
| store_running: "rs_pc s = R_Store \<Longrightarrow> run_step s StoreRunning (s\<lparr>rs_running := True, rs_pc := R_Test\<rparr>)"
| loop_test: "rs_pc s = R_Test \<Longrightarrow>
    run_step s LoopTest (s\<lparr>rs_pc := (if rs_running s then R_Accept else R_StopPool)\<rparr>)"
| accept: "rs_pc s = R_Accept \<Longrightarrow> rs_open s \<Longrightarrow>
    run_step s (Accept fd addr port) (s\<lparr>rs_clients := rs_clients s @ [accepted_task fd addr port],
       rs_pc := R_Submit (accepted_task fd addr port)\<rparr>)"
| accept_fail: "rs_pc s = R_Accept \<Longrightarrow>
    run_step s AcceptFail (s\<lparr>rs_pc := (if rs_running s then R_Test else R_StopPool)\<rparr>)"
| submit_client: "rs_pc s = R_Submit t \<Longrightarrow> rs_pool s = Some p \<Longrightarrow> pool_step p (Submit t) q \<Longrightarrow>
    run_step s SubmitClient (s\<lparr>rs_pool := Some q, rs_pc := R_Notify\<rparr>)"
| notify: "rs_pc s = R_Notify \<Longrightarrow> rs_pool s = Some p \<Longrightarrow> pool_step p l q \<Longrightarrow> l = NotifyNone \<or> l = NotifyOne w \<Longrightarrow>
    run_step s (Notify l) (s\<lparr>rs_pool := Some q, rs_pc := R_Test\<rparr>)"
| stop_pool: "rs_pc s = R_StopPool \<Longrightarrow> rs_pool s = Some p \<Longrightarrow> pool_step p StopFlag q \<Longrightarrow>
    run_step s StopPool (s\<lparr>rs_pool := Some q, rs_pc := R_NotifyAll\<rparr>)"
| wake_pool: "rs_pc s = R_NotifyAll \<Longrightarrow> rs_pool s = Some p \<Longrightarrow> pool_step p NotifyAll q \<Longrightarrow>
    run_step s WakePool (s\<lparr>rs_pool := Some q, rs_pc := R_Join\<rparr>)"
| return: "rs_pc s = R_Join \<Longrightarrow> rs_pool s = Some p \<Longrightarrow> joined p \<Longrightarrow> run_step s Return (s\<lparr>rs_pc := R_Done\<rparr>)"
| worker: "rs_pool s = Some p \<Longrightarrow> pool_step p l q \<Longrightarrow> by_worker l \<or> l = Spurious w \<Longrightarrow>
    run_step s (Worker l) (s\<lparr>rs_pool := Some q\<rparr>)"
| http: "rs_http s = Some h \<Longrightarrow> http_step h l h' \<Longrightarrow> run_step s (Http l) (s\<lparr>rs_http := Some h'\<rparr>)"
| stop_called: "rs_stop s = S_None \<Longrightarrow> run_step s StopCalled (s\<lparr>rs_running := False, rs_stop := S_Http\<rparr>)"
| stop_http: "rs_stop s = S_Http \<Longrightarrow> run_step s StopHttp (stop_http_step s)"
| close_http: "rs_stop s = S_Close \<Longrightarrow> rs_http s = Some h \<Longrightarrow>
    run_step s CloseHttp (s\<lparr>rs_http := Some (http_close h), rs_stop := S_Join\<rparr>)"
| http_joined: "rs_stop s = S_Join \<Longrightarrow> rs_http s = Some h \<Longrightarrow> http_joined h \<Longrightarrow>
    run_step s HttpJoined (s\<lparr>rs_stop := S_Shutdown\<rparr>)"
| shutdown: "rs_stop s = S_Shutdown \<Longrightarrow> run_step s Shutdown (s\<lparr>rs_open := False, rs_stop := S_Done\<rparr>)"

inductive_cases run_stepE: "run_step s l t"

text \<open>With the size left to the program there are between 1 and 32 threads.\<close>

lemma thread_count_bounds:
  "1 \<le> thread_count c hw" "sc_threadPoolSize c \<le> 0 \<Longrightarrow> thread_count c hw \<le> 32"
  by (simp_all add: thread_count_def Let_def)

text \<open>The bind address of the configuration is not used.\<close>

lemma host_ignored: "setupListenSocket n (c\<lparr>sc_host := host\<rparr>) = setupListenSocket n c"
  by (simp add: setupListenSocket_def Let_def)

section \<open>The steps as functions\<close>

text \<open>To run the model on an example: the state after a label, if its step is possible.\<close>

fun pool_exec :: "pool_label \<Rightarrow> thread_pool \<Rightarrow> thread_pool option" where
  "pool_exec (Submit t) p = (if tp_holder p = None then Some (submit t p) else None)"
| "pool_exec (NotifyOne w) p = (if 0 < tp_to_notify p \<and> at_worker p w Waiting then Some (notify_one w p) else None)"
| "pool_exec NotifyNone p = (if 0 < tp_to_notify p \<and> Waiting \<notin> set (tp_workers p)
     then Some (p\<lparr>tp_to_notify := tp_to_notify p - 1\<rparr>) else None)"
| "pool_exec StopFlag p = (if tp_stopping p then None else Some (p\<lparr>tp_stopping := True\<rparr>))"
| "pool_exec NotifyAll p = (if tp_stopping p \<and> \<not> tp_notified p then Some (notify_all p) else None)"
| "pool_exec (Lock w) p = (if tp_holder p = None \<and> at_worker p w Ready then Some (lock_mutex w p) else None)"
| "pool_exec (Check w) p = (if at_worker p w Locked then Some (check_queue w p) else None)"
| "pool_exec (Sleep w) p = (if at_worker p w Decided then Some (sleep_on_cv w p) else None)"
| "pool_exec (Begin w) p = (if w < length (tp_workers p)
     then case tp_workers p ! w of Taken t \<Rightarrow> Some (begin_task w t p) | _ \<Rightarrow> None else None)"
| "pool_exec (Finish w) p = (if w < length (tp_workers p)
     then case tp_workers p ! w of Busy t \<Rightarrow> Some (finish_task w t p) | _ \<Rightarrow> None else None)"
| "pool_exec (Spurious w) p = (if at_worker p w Waiting then Some (set_worker w Ready p) else None)"

lemma pool_exec_step: "pool_exec l p = Some q \<Longrightarrow> pool_step p l q"
  using pool_step.notify_none [of p]
  by (cases l) (auto simp: at_worker_def intro: pool_step.intros split: if_splits worker.splits)

fun http_exec :: "http_label \<Rightarrow> http_server \<Rightarrow> http_server option" where
  "http_exec HttpLoop h = (if hs_thread h = Http_Test
     then Some (h\<lparr>hs_thread := (if hs_running h then Http_Accept else Http_Done)\<rparr>) else None)"
| "http_exec HttpConnect h = (if hs_thread h = Http_Accept \<and> hs_socket h \<noteq> None
     then Some (h\<lparr>hs_thread := Http_Client\<rparr>) else None)"
| "http_exec HttpFail h = (if hs_thread h = Http_Accept
     then Some (h\<lparr>hs_thread := (if hs_running h then Http_Test else Http_Done)\<rparr>) else None)"
| "http_exec HttpServed h = (if hs_thread h = Http_Client then Some (h\<lparr>hs_thread := Http_Test\<rparr>) else None)"

lemma http_exec_step: "http_exec l h = Some h' \<Longrightarrow> http_step h l h'"
  using http_step.http_loop [of h] http_step.http_fail [of h]
  by (cases l) (auto intro: http_step.intros split: if_splits)

definition pool_then :: "pool_label \<Rightarrow> run_pc \<Rightarrow> run_state \<Rightarrow> run_state option" where
  "pool_then l pc s = (case rs_pool s of None \<Rightarrow> None | Some p \<Rightarrow>
     (case pool_exec l p of None \<Rightarrow> None | Some q \<Rightarrow> Some (s\<lparr>rs_pool := Some q, rs_pc := pc\<rparr>)))"

definition a_spurious :: "pool_label \<Rightarrow> bool" where
  "a_spurious l = (case l of Spurious w \<Rightarrow> True | _ \<Rightarrow> False)"

definition a_notify :: "pool_label \<Rightarrow> bool" where
  "a_notify l = (case l of NotifyNone \<Rightarrow> True | NotifyOne w \<Rightarrow> True | _ \<Rightarrow> False)"

fun run_exec :: "run_label \<Rightarrow> run_state \<Rightarrow> run_state option" where
  "run_exec (Setup n) s = (if rs_pc s = R_Setup then Some (setup_step n s) else None)"
| "run_exec MakeHttp s = (if rs_pc s = R_Http
     then Some (s\<lparr>rs_http := Some (new_http (sc_metricsPort (rs_config s))), rs_pc := R_HttpStart\<rparr>) else None)"
| "run_exec (StartHttp n) s = (case rs_http s of None \<Rightarrow> None | Some h \<Rightarrow> if rs_pc s = R_HttpStart
     then Some (s\<lparr>rs_http := Some (snd (http_start n h)), rs_pc := R_Pool\<rparr>) else None)"
| "run_exec (MakePool hw) s = (if rs_pc s = R_Pool
     then Some (s\<lparr>rs_pool := Some (start_pool (thread_count (rs_config s) hw)), rs_pc := R_Store\<rparr>) else None)"
| "run_exec StoreRunning s = (if rs_pc s = R_Store then Some (s\<lparr>rs_running := True, rs_pc := R_Test\<rparr>) else None)"
| "run_exec LoopTest s = (if rs_pc s = R_Test
     then Some (s\<lparr>rs_pc := (if rs_running s then R_Accept else R_StopPool)\<rparr>) else None)"
| "run_exec (Accept fd addr port) s = (if rs_pc s = R_Accept \<and> rs_open s
     then Some (s\<lparr>rs_clients := rs_clients s @ [accepted_task fd addr port],
       rs_pc := R_Submit (accepted_task fd addr port)\<rparr>) else None)"
| "run_exec AcceptFail s = (if rs_pc s = R_Accept
     then Some (s\<lparr>rs_pc := (if rs_running s then R_Test else R_StopPool)\<rparr>) else None)"
| "run_exec SubmitClient s = (case rs_pc s of R_Submit t \<Rightarrow> pool_then (Submit t) R_Notify s | _ \<Rightarrow> None)"
| "run_exec (Notify l) s = (if rs_pc s = R_Notify \<and> a_notify l then pool_then l R_Test s else None)"
| "run_exec StopPool s = (if rs_pc s = R_StopPool then pool_then StopFlag R_NotifyAll s else None)"
| "run_exec WakePool s = (if rs_pc s = R_NotifyAll then pool_then NotifyAll R_Join s else None)"
| "run_exec Return s = (case rs_pool s of None \<Rightarrow> None | Some p \<Rightarrow>
     if rs_pc s = R_Join \<and> joined p then Some (s\<lparr>rs_pc := R_Done\<rparr>) else None)"
| "run_exec (Worker l) s = (if by_worker l \<or> a_spurious l then pool_then l (rs_pc s) s else None)"
| "run_exec (Http l) s = (case rs_http s of None \<Rightarrow> None | Some h \<Rightarrow>
     (case http_exec l h of None \<Rightarrow> None | Some h' \<Rightarrow> Some (s\<lparr>rs_http := Some h'\<rparr>)))"
| "run_exec StopCalled s = (if rs_stop s = S_None then Some (s\<lparr>rs_running := False, rs_stop := S_Http\<rparr>) else None)"
| "run_exec StopHttp s = (if rs_stop s = S_Http then Some (stop_http_step s) else None)"
| "run_exec CloseHttp s = (case rs_http s of None \<Rightarrow> None | Some h \<Rightarrow>
     if rs_stop s = S_Close then Some (s\<lparr>rs_http := Some (http_close h), rs_stop := S_Join\<rparr>) else None)"
| "run_exec HttpJoined s = (case rs_http s of None \<Rightarrow> None | Some h \<Rightarrow>
     if rs_stop s = S_Join \<and> http_joined h then Some (s\<lparr>rs_stop := S_Shutdown\<rparr>) else None)"
| "run_exec Shutdown s = (if rs_stop s = S_Shutdown then Some (s\<lparr>rs_open := False, rs_stop := S_Done\<rparr>) else None)"

lemma same_pc: "s\<lparr>rs_pool := p, rs_pc := rs_pc s\<rparr> = s\<lparr>rs_pool := p\<rparr>"
  by simp

lemma run_exec_step: "run_exec l s = Some t \<Longrightarrow> run_step s l t"
  using run_step.loop_test [of s] run_step.accept_fail [of s]
  by (cases l) (auto simp: pool_then_def a_notify_def a_spurious_def same_pc intro!: run_step.intros
      pool_exec_step http_exec_step intro: run_step.notify run_step.worker
      split: if_splits option.splits run_pc.splits pool_label.splits)

fun run_all :: "run_label list \<Rightarrow> run_state \<Rightarrow> run_state option" where
  "run_all [] s = Some s"
| "run_all (l # ls) s = (case run_exec l s of None \<Rightarrow> None | Some t \<Rightarrow> run_all ls t)"

lemma run_all_runs: "run_all ls s = Some t \<Longrightarrow> runs run_step s ls t"
  by (induction ls arbitrary: s) (auto simp: runs_Cons_iff dest: run_exec_step split: option.splits)

definition any_net :: net where
  "any_net = \<lparr>net_socket = 3, net_bind = (\<lambda>a p. True), net_listen = (\<lambda>n. True)\<rparr>"

section \<open>Every accepted client is served\<close>

definition before_pool :: "run_pc \<Rightarrow> bool" where
  "before_pool pc \<longleftrightarrow> pc \<in> {R_Setup, R_Http, R_HttpStart, R_Pool}"

definition being_submitted :: "run_pc \<Rightarrow> task list" where
  "being_submitted pc = (case pc of R_Submit t \<Rightarrow> [t] | _ \<Rightarrow> [])"

text \<open>
  The clients that \<open>accept\<close> has returned are those the pool has accepted, in the same order,
  and the one that is being handed over; the pool stops only when the loop has ended.
\<close>

definition pool_follows :: "run_state \<Rightarrow> thread_pool \<Rightarrow> bool" where
  "pool_follows s p \<longleftrightarrow> pool_inv p \<and> \<not> before_pool (rs_pc s) \<and>
     rs_clients s = tp_accepted p @ being_submitted (rs_pc s) \<and>
     (tp_stopping p \<longleftrightarrow> rs_pc s \<in> {R_NotifyAll, R_Join, R_Done}) \<and>
     (rs_pc s = R_Done \<longrightarrow> joined p)"

definition run_inv :: "run_state \<Rightarrow> bool" where
  "run_inv s = (case rs_pool s of
       None \<Rightarrow> rs_clients s = [] \<and> (before_pool (rs_pc s) \<or> rs_pc s = R_Done)
     | Some p \<Rightarrow> pool_follows s p)"

lemma worker_frame:
  assumes "pool_step p l q" and "by_worker l \<or> l = Spurious w"
  shows "tp_accepted q = tp_accepted p" and "tp_stopping q = tp_stopping p" and "joined p \<Longrightarrow> joined q"
proof -
  show "tp_accepted q = tp_accepted p" "tp_stopping q = tp_stopping p"
    using assms by (cases rule: pool_step.cases; force simp: lock_mutex_def check_queue_def
      sleep_on_cv_def begin_task_def finish_task_def)+
  show "joined p \<Longrightarrow> joined q"
    using assms by (cases rule: pool_step.cases) (force dest: at_worker_mem simp: joined_def list_all_iff)+
qed

lemma notify_frame:
  assumes "pool_step p l q" and "l = NotifyNone \<or> l = NotifyOne w"
  shows "tp_accepted q = tp_accepted p" and "tp_stopping q = tp_stopping p"
  using assms by (cases rule: pool_step.cases; simp add: notify_one_def)+

inductive_cases submitE: "pool_step p (Submit t) q"
inductive_cases stop_flagE: "pool_step p StopFlag q"
inductive_cases notify_allE: "pool_step p NotifyAll q"

lemma run_inv_step:
  assumes "run_inv s" and "run_step s l t" shows "run_inv t"
  using assms(2,1)
proof (induction rule: run_step.induct)
  case (set_up s n)
  then show ?case by (auto simp: run_inv_def setup_step_def before_pool_def pool_follows_def split: option.splits)
next
  case (make_pool s hw)
  have "tp_accepted (start_pool k) = []" "\<not> tp_stopping (start_pool k)" for k
    by (simp_all add: start_pool_def Let_def)
  with make_pool show ?case
    by (auto simp: run_inv_def pool_follows_def before_pool_def being_submitted_def pool_inv_start split: option.splits)
next
  case (submit_client s t p q)
  have "pool_inv q" using submit_client pool_inv_step by (auto simp: run_inv_def pool_follows_def)
  with submit_client show ?case
    by (auto simp: run_inv_def pool_follows_def before_pool_def being_submitted_def submit_def elim!: submitE)
next
  case (notify s p l q w)
  have "pool_inv q" using notify pool_inv_step by (auto simp: run_inv_def pool_follows_def)
  with notify notify_frame [OF notify(3,4)] show ?case
    by (auto simp: run_inv_def pool_follows_def before_pool_def being_submitted_def)
next
  case (stop_pool s p q)
  have "pool_inv q" using stop_pool pool_inv_step by (auto simp: run_inv_def pool_follows_def)
  with stop_pool show ?case
    by (auto simp: run_inv_def pool_follows_def before_pool_def being_submitted_def elim!: stop_flagE)
next
  case (wake_pool s p q)
  have "pool_inv q" using wake_pool pool_inv_step by (auto simp: run_inv_def pool_follows_def)
  with wake_pool show ?case
    by (auto simp: run_inv_def pool_follows_def before_pool_def being_submitted_def notify_all_def elim!: notify_allE)
next
  case (worker s p l q w)
  have "pool_inv q" using worker pool_inv_step by (auto simp: run_inv_def pool_follows_def)
  with worker worker_frame [OF worker(2,3)] show ?case
    by (auto simp: run_inv_def pool_follows_def)
next
  case (stop_http s)
  then show ?case
    by (auto simp: run_inv_def stop_http_step_def pool_follows_def split: option.splits if_splits)
qed (auto simp: run_inv_def pool_follows_def before_pool_def being_submitted_def split: option.splits)

interpretation run: invariant_of run_step run_inv
  by unfold_locales (rule run_inv_step)

lemma run_inv_start: "run_inv (start_run c)"
  by (simp add: run_inv_def start_run_def before_pool_def)

text \<open>C19. No client is lost. Whatever the workers, the metrics thread and a call of \<open>stop\<close> do in
  between, the pool takes the clients in the order in which \<open>accept\<close> returned them; and when
  \<open>run\<close> returns after its loop, each of them has been served to its end exactly once and no
  worker is left.\<close>

theorem accepted_clients_are_served:
  assumes "runs run_step (start_run c) ls s" and "rs_pool s = Some p"
  shows "prefix (tp_started p) (rs_clients s) \<and>
     (rs_pc s = R_Done \<longrightarrow> tp_started p = rs_clients s \<and> mset (tp_finished p) = mset (rs_clients s) \<and>
        tp_tasks p = [] \<and> tp_activeTasks p = 0 \<and> joined p)"
proof -
  have inv: "pool_follows s p"
    using run.inv_runs [OF assms(1) run_inv_start] assms(2) by (simp add: run_inv_def)
  then have "tp_started p @ tp_tasks p = tp_accepted p" by (simp add: pool_follows_def pool_inv_def)
  then have "rs_clients s = tp_started p @ tp_tasks p @ being_submitted (rs_pc s)"
    using inv by (metis append_assoc pool_follows_def)
  moreover have "rs_pc s = R_Done \<Longrightarrow> being_submitted (rs_pc s) = []" by (simp add: being_submitted_def)
  ultimately show ?thesis using inv pool_drained [of p] by (auto simp: pool_follows_def prefix_def)
qed

section \<open>Stopping\<close>

text \<open>
  Once the flag is cleared inside of the loop, every step of the main thread brings it closer to
  the end of the loop; \<open>accept\<close> is the only call that can wait, and it fails after the shutdown.
\<close>

fun loop_rank :: "run_pc \<Rightarrow> nat" where
  "loop_rank R_Accept = 4"
| "loop_rank (R_Submit t) = 3"
| "loop_rank R_Notify = 2"
| "loop_rank R_Test = 1"
| "loop_rank _ = 0"

definition flag_stored :: "run_pc \<Rightarrow> bool" where
  "flag_stored pc \<longleftrightarrow> \<not> before_pool pc \<and> pc \<noteq> R_Store"

definition by_main :: "run_label \<Rightarrow> bool" where
  "by_main l \<longleftrightarrow> l \<in> {LoopTest, AcceptFail, SubmitClient} \<or> (\<exists>fd addr port. l = Accept fd addr port) \<or> (\<exists>k. l = Notify k)"

lemma stopped_step:
  assumes "run_step s l t" and "\<not> rs_running s" and "flag_stored (rs_pc s)"
  shows "\<not> rs_running t \<and> flag_stored (rs_pc t) \<and>
     loop_rank (rs_pc t) + (if by_main l then 1 else 0) \<le> loop_rank (rs_pc s)"
  using assms by (cases rule: run_step.cases)
    (auto simp: by_main_def flag_stored_def before_pool_def stop_http_step_def split: option.splits if_splits)

lemma stopped_loop_ends:
  "runs run_step s ls t \<Longrightarrow> \<not> rs_running s \<Longrightarrow> flag_stored (rs_pc s) \<Longrightarrow>
     length (filter by_main ls) + loop_rank (rs_pc t) \<le> loop_rank (rs_pc s)"
proof (induction rule: runs.induct)
  case (runs_cons s l t ls u)
  then show ?case using stopped_step [OF runs_cons(1)] by (auto split: if_splits)
qed simp

text \<open>
  A call of \<open>stop\<close> that is complete before \<open>run\<close> stores the flag: the socket is shut down and
  the flag is set again.
\<close>

definition deaf :: "run_state \<Rightarrow> bool" where
  "deaf s \<longleftrightarrow> rs_stop s = S_Done \<and> \<not> rs_open s \<and> rs_clients s = [] \<and>
     (rs_pc s \<in> {R_Http, R_HttpStart, R_Pool, R_Store} \<or> rs_pc s \<in> {R_Test, R_Accept} \<and> rs_running s)"

interpretation deaf: invariant_of run_step deaf
proof
  fix s l t assume "deaf s" "run_step s l t"
  from this(2,1) show "deaf t"
    by (cases rule: run_step.cases) (auto simp: deaf_def split: if_splits)
qed

text \<open>C22. \<open>stop\<close> can be lost. A signal that arrives after the listening socket is set up and before
  \<open>run\<close> stores \<open>m_running\<close> stops nothing: the store undoes it, the socket is shut down, and from
  then on \<open>accept\<close> fails again and again: \<open>run\<close> never returns and no client is accepted.\<close>

theorem early_stop_is_lost:
  "\<exists>ls s. runs run_step (start_run c) ls s \<and> rs_stop s = S_Done \<and> \<not> rs_running s \<and>
     (\<forall>ms t. runs run_step s ms t \<longrightarrow> rs_pc t \<noteq> R_Done \<and> rs_clients t = [] \<and> \<not> rs_open t)"
proof -
  let ?ls = "[Setup any_net, StopCalled, StopHttp, Shutdown]"
  obtain s where s: "run_all ?ls (start_run c) = Some s"
    "deaf s \<and> rs_stop s = S_Done \<and> \<not> rs_running s"
    by (simp add: setup_step_def setupListenSocket_def any_net_def start_run_def stop_http_step_def deaf_def)
  have "rs_pc t \<noteq> R_Done \<and> rs_clients t = [] \<and> \<not> rs_open t" if "runs run_step s ms t" for ms t
    using deaf.inv_runs [OF that] s(2) by (auto simp: deaf_def)
  with s(2) run_all_runs [OF s(1)] show ?thesis by blast
qed

theorem early_stop_is_lost_witness:
  "\<exists>ls s. runs run_step (start_run default_server_config) ls s \<and> rs_stop s = S_Done \<and> rs_pc s \<noteq> R_Done"
proof -
  obtain ls s where s: "runs run_step (start_run default_server_config) ls s" "rs_stop s = S_Done"
    and lost: "\<forall>ms t. runs run_step s ms t \<longrightarrow> rs_pc t \<noteq> R_Done \<and> rs_clients t = [] \<and> \<not> rs_open t"
    using early_stop_is_lost [of default_server_config] by blast
  have "rs_pc s \<noteq> R_Done" using lost [rule_format, of "[]" s] by simp
  with s show ?thesis by blast
qed

text \<open>
  \<open>stop\<close> first joins the thread of the metrics endpoint, which waits in \<open>recv\<close> for as long as a
  client of the endpoint sends nothing: until then the listening socket stays open and \<open>stop\<close>
  (on a signal: the main thread) does not go on.
\<close>

definition stop_held :: "run_state \<Rightarrow> bool" where
  "stop_held s \<longleftrightarrow> rs_stop s = S_Join \<and> rs_open s \<and> rs_pc s \<notin> {R_Setup, R_Http, R_HttpStart} \<and>
     (\<exists>h. rs_http s = Some h \<and> hs_thread h = Http_Client)"

lemma stop_held_step:
  assumes "run_step s l t" and "stop_held s" and "l \<noteq> Http HttpServed" shows "stop_held t"
  using assms by (cases rule: run_step.cases)
    (auto simp: stop_held_def http_joined_def elim!: http_stepE split: if_splits)

lemma stop_waits_for_http_client:
  "runs run_step s ls t \<Longrightarrow> stop_held s \<Longrightarrow> Http HttpServed \<notin> set ls \<Longrightarrow> stop_held t"
proof (induction rule: runs.induct)
  case (runs_cons s l t ls u)
  then show ?case using stop_held_step [OF runs_cons(1)] by auto
qed

lemma stop_can_be_held: "\<exists>ls s. runs run_step (start_run default_server_config) ls s \<and> stop_held s"
proof -
  let ?ls = "[Setup any_net, MakeHttp, StartHttp any_net, Http HttpLoop, Http HttpConnect, MakePool 8,
     StopCalled, StopHttp, CloseHttp]"
  obtain s where "run_all ?ls (start_run default_server_config) = Some s" "stop_held s"
    by (simp add: setup_step_def setupListenSocket_def any_net_def start_run_def stop_http_step_def stop_held_def
      http_start_def new_http_def Let_def http_stop_flag_def http_close_def)
  then show ?thesis using run_all_runs by blast
qed

text \<open>One worker and one client: accepted, served, and the server stopped.\<close>

definition one_client :: "run_label list" where
  "one_client = [Setup any_net, MakeHttp, StartHttp any_net, MakePool 1, StoreRunning, LoopTest,
     Accept 5 [10, 0, 0, 1] 4000, SubmitClient, Notify NotifyNone, Worker (Lock 0), Worker (Check 0), Worker (Begin 0),
     StopCalled, StopHttp, CloseHttp, Http HttpLoop, HttpJoined, Shutdown, LoopTest, StopPool, WakePool,
     Worker (Finish 0), Worker (Lock 0), Worker (Check 0), Return]"

lemmas run_example_defs = one_client_def setup_step_def setupListenSocket_def any_net_def start_run_def
  stop_http_step_def http_start_def new_http_def http_stop_flag_def http_close_def http_joined_def pool_then_def a_notify_def
  thread_count_def example_defs joined_def

theorem accepted_clients_are_served_witness:
  "\<exists>s p. runs run_step (start_run default_server_config) one_client s \<and> rs_pool s = Some p \<and> rs_pc s = R_Done \<and>
     mset (tp_finished p) = {#accepted_task 5 [10, 0, 0, 1] 4000#}"
proof -
  obtain s p where s: "run_all one_client (start_run default_server_config) = Some s" "rs_pool s = Some p"
    "rs_pc s = R_Done" "rs_clients s = [accepted_task 5 [10, 0, 0, 1] 4000]"
    by (simp add: run_example_defs Let_def default_server_config_def)
  then show ?thesis
    using accepted_clients_are_served [OF run_all_runs [OF s(1)] s(2)] run_all_runs by auto
qed

end
