(* ===== verification/Logger.thy ===== *)
theory Logger
  imports Prelude
begin

text \<open>
  \<open>Logger.cpp\<close>: the level, the line of a message, and the standard output it is appended to
  (one message is one step, under the mutex). The conversion of a time to local time is a
  parameter.
\<close>

datatype log_level = DEBUG | INFO | WARN | ERROR

fun level_int :: "log_level \<Rightarrow> int" where
  "level_int DEBUG = 0"
| "level_int INFO = 1"
| "level_int WARN = 2"
| "level_int ERROR = 3"

record logger =
  s_level :: int
  lg_cout :: string

definition new_logger :: logger where
  "new_logger = \<lparr>s_level = level_int INFO, lg_cout = []\<rparr>"

definition setLevel :: "log_level \<Rightarrow> logger \<Rightarrow> logger" where
  "setLevel l g = g\<lparr>s_level := level_int l\<rparr>"

fun levelToString :: "log_level \<Rightarrow> string" where
  "levelToString DEBUG = ''DEBUG''"
| "levelToString INFO = ''INFO ''"
| "levelToString WARN = ''WARN ''"
| "levelToString ERROR = ''ERROR''"

record tm =
  tm_year :: nat \<comment> \<open>years since 1900\<close>
  tm_mon :: nat \<comment> \<open>months since January\<close>
  tm_mday :: nat
  tm_hour :: nat
  tm_min :: nat
  tm_sec :: nat

text \<open>The clock is read in nanoseconds since the epoch.\<close>

definition put_time :: "tm \<Rightarrow> string" where
  "put_time t = nat_str (1900 + tm_year t) @ ''-'' @ zero_pad 2 (nat_str (1 + tm_mon t)) @ ''-'' @
     zero_pad 2 (nat_str (tm_mday t)) @ '' '' @ zero_pad 2 (nat_str (tm_hour t)) @ '':'' @
     zero_pad 2 (nat_str (tm_min t)) @ '':'' @ zero_pad 2 (nat_str (tm_sec t))"

definition currentTimestamp :: "(nat \<Rightarrow> tm) \<Rightarrow> nat \<Rightarrow> string" where
  "currentTimestamp localtime now =
     (let t = now div 10 ^ 9; ms = now div 10 ^ 6 mod 1000
      in put_time (localtime t) @ ''.'' @ zero_pad 3 (nat_str ms))"

definition log_line :: "log_level \<Rightarrow> string \<Rightarrow> string \<Rightarrow> string" where
  "log_line l time msg = ''['' @ levelToString l @ ''] '' @ time @ '' | '' @ msg @ [LF]"

definition log_message :: "(nat \<Rightarrow> tm) \<Rightarrow> nat \<Rightarrow> log_level \<Rightarrow> string \<Rightarrow> logger \<Rightarrow> logger" where
  "log_message localtime now l msg g =
     (if level_int l < s_level g then g
      else g\<lparr>lg_cout := lg_cout g @ log_line l (currentTimestamp localtime now) msg\<rparr>)"

section \<open>The lines\<close>

lemma time_no_LF: "LF \<notin> set (currentTimestamp localtime now)"
  by (simp add: currentTimestamp_def put_time_def zero_pad_def Let_def digits_not)

lemma level_no_LF: "LF \<notin> set (levelToString l)"
  by (cases l) simp_all

text \<open>
  A message without a line end is one line, behind those written before; a message below the
  level writes nothing.
\<close>

lemma log_message_line:
  assumes "lg_cout g = [] \<or> last (lg_cout g) = LF" and "LF \<notin> set msg"
  shows "text_lines (lg_cout (log_message localtime now l msg g)) = text_lines (lg_cout g) @
     (if s_level g \<le> level_int l
      then [''['' @ levelToString l @ ''] '' @ currentTimestamp localtime now @ '' | '' @ msg] else [])"
proof -
  let ?line = "''['' @ levelToString l @ ''] '' @ currentTimestamp localtime now @ '' | '' @ msg"
  have "LF \<notin> set ?line" using assms(2) level_no_LF time_no_LF by simp
  then have "text_lines (?line @ LF # []) = [?line]" by (simp add: text_lines_append del: append_assoc)
  then show ?thesis using text_lines_join [OF assms(1)] by (simp add: log_message_def log_line_def)
qed

text \<open>A message with a line end in it, as a client can send one, forges a line of any level.\<close>

lemma log_message_forged:
  assumes "lg_cout g = [] \<or> last (lg_cout g) = LF" and "s_level g \<le> level_int l" and "LF \<notin> set text"
  shows "last (text_lines (lg_cout (log_message localtime now l (LF # ''[ERROR] '' @ text) g))) = ''[ERROR] '' @ text"
proof -
  let ?a = "''['' @ levelToString l @ ''] '' @ currentTimestamp localtime now @ '' | ''" and ?b = "''[ERROR] '' @ text"
  have "LF \<notin> set ?a" "LF \<notin> set ?b" using assms(3) level_no_LF time_no_LF by simp_all
  then have "text_lines (?a @ LF # ?b @ LF # []) = [?a, ?b]"
    by (simp only: text_lines_append text_lines.simps(1) not_False_eq_True)
  then have "text_lines (log_line l (currentTimestamp localtime now) (LF # ?b)) = [?a, ?b]"
    by (simp add: log_line_def)
  then show ?thesis using assms(1,2) text_lines_join [of "lg_cout g"]
    by (simp add: log_message_def)
qed

end
