(* ===== verification/Spec2Isabelle.thy ===== *)
theory Spec2Isabelle
  imports Match Storage Conversation ThreadPool Service Protocol Collector BotProps HttpMetrics Listen Logger
begin

text \<open>
  A model of the multiplayer game server under \<open>src/server\<close>, with the theorems that make it
  correct.

  The program. \<open>Server.cpp\<close> accepts TCP clients and hands them to a pool of threads
  (\<open>ThreadPool.cpp\<close>). A thread runs \<open>handleClient\<close>: it registers the connection
  (\<open>ConnectionManager.cpp\<close>), reads length-prefixed messages (\<open>MessageFramer.cpp\<close>), gives
  each one to \<open>RequestHandler.cpp\<close> and writes the reply back. The request handler parses the
  JSON text (\<open>third_party/nlohmann/json.hpp\<close>), validates the fields, works on the match
  (\<open>GameState.cpp\<close>), on the optional Redis cache (\<open>CacheManager.cpp\<close> over
  \<open>RedisClient.cpp\<close>) and the optional MySQL database (\<open>DatabaseManager.cpp\<close>), counts the
  request in the metrics (\<open>Metrics.cpp\<close>), and prints the reply.

  The theories, in the order of the layers.

    \<^item> \<open>Prelude\<close>, \<open>HashMap\<close>: machine integers, decimal texts, runs of a step relation with the
      locales \<open>invariant_of\<close> and \<open>advances\<close>; \<open>std::unordered_map\<close> behind the locale
      \<open>unordered_map\<close>.
    \<^item> \<open>Double\<close>: IEEE doubles as rationals with round-to-nearest-even.
    \<^item> \<open>Json\<close>, \<open>JsonLex\<close>, \<open>JsonParse\<close>, \<open>JsonDump\<close>, \<open>Grisu\<close>: the value type of the library,
      its lexer, parser, printer, and the Grisu2 printing of doubles. \<open>JsonUtf8\<close>,
      \<open>GrisuProps\<close>, \<open>GrisuExact\<close>, \<open>FloatText\<close>, \<open>JsonRoundtrip\<close>, \<open>JsonTotal\<close>: the printer
      accepts exactly well-formed UTF-8, the Grisu2 loops end within their bounds, their digits lie
      between the boundaries of the double and are read back as that double, a printed document is
      read back, every accepted document can be printed.
    \<^item> \<open>GameState\<close>, \<open>GameProps\<close>, \<open>EventLog\<close>, \<open>Match\<close>: the match. Its operations refine
      operations on a map from ids to players (\<open>arena\<close>, \<open>spec_op\<close>); invariants, life cycle,
      event log, and the interleavings of the two halves of \<open>recordEvent\<close>.
    \<^item> \<open>Socket\<close>, \<open>Codec\<close>, \<open>Framer\<close>: \<open>recv\<close> and \<open>send\<close> on a stream that arrives in any pieces,
      \<open>readExact\<close>, \<open>writeAll\<close>, and the frames as an instance of the locale \<open>codec\<close>.
    \<^item> \<open>Metrics\<close>, \<open>Database\<close>, \<open>Redis\<close>, \<open>RedisProps\<close>, \<open>Cache\<close>, \<open>Storage\<close>: metrics registry,
      MySQL statements, RESP client and pool, cache.
    \<^item> \<open>RequestHandler\<close>, \<open>HandlerProps\<close>, \<open>Requests\<close>, \<open>Service\<close>: one request from text to text,
      and sequences of requests.
    \<^item> \<open>Connections\<close>, \<open>Server\<close>, \<open>Conversation\<close>: registry of connections and the whole
      conversation with a client.
    \<^item> \<open>ThreadPool\<close>: the interleavings of submissions, workers and \<open>stop\<close>.
    \<^item> \<open>Collector\<close>: the summary of the measured requests of the load simulator
      (\<open>src/simulator/src/MetricsCollector.cpp\<close>): counts, rates and percentiles.
    \<^item> \<open>Replies\<close>: every reply is read back by the client as the value that the server built.
    \<^item> \<open>Bot\<close>, \<open>BotProps\<close>: the load simulator (\<open>src/simulator/src/PlayerBot.cpp\<close>,
      \<open>Simulator.cpp\<close>); a bot and the server agree on what was sent, received and counted.
    \<^item> \<open>Arguments\<close>: the command lines of the two programs (\<open>main.cpp\<close>).
    \<^item> \<open>HttpMetrics\<close>: the text of the metrics and the handler of \<open>HttpMetricsServer.cpp\<close>, read back
      by a client of HTTP and of the Prometheus text format.
    \<^item> \<open>Listen\<close>: \<open>Server::run\<close> and \<open>stop\<close>, the metrics thread and the pool as one step relation:
      which clients are accepted, served and lost, and how the server stops.
    \<^item> \<open>Logger\<close>: \<open>Logger.cpp\<close>, the level and the lines of the log.
    \<^item> \<open>Protocol\<close>: the properties of the wire format, of JSON and of the histogram.

  What the program does not decide is a parameter: the readings of the clocks, the iteration
  order of a hash map, the pieces in which a socket delivers bytes, the answers of Redis and
  of MySQL. Undefined behaviour of C++ (a signed overflow) is the value \<open>None\<close>; a C++
  exception is \<open>Throw\<close>, an error return is \<open>Inl\<close> or \<open>False\<close> as in the code.

  Bounds. No loop of the model uses fuel that could run out: the digit generation of Grisu2 is
  bounded by 20 rounds and \<open>doubles_print\<close> shows that the bound is never hit; the other loops are total by their measures.
  The loop of a bot over its rounds takes the list of what it meets in them; it is \<open>None\<close> when the
  list ends before the loop does.

  Doubles are the numbers they stand for, so the two zeros are one value. The printing of a double
  has the sign bit as an argument (\<open>to_chars_signed\<close>), and is read back for both zeros.

  Not modelled: the calls of the logger and the texts they pass, the texts of the library's
  exceptions, the destructors, the usage texts, and the tools in other languages. A request is
  handled as one step: the locks of the game and of the pool are modelled where they matter for
  a claim (\<open>EventLog\<close>, \<open>ThreadPool\<close>, \<open>Listen\<close>), but the interleavings of two whole requests
  are not. The registration of a connection is one step (its id comes from an atomic counter, the
  table is locked), and the server is stopped by one call of \<open>stop\<close>.
\<close>

end
